(* ===== verification/Prelude.thy ===== *)
theory Prelude
  imports Main "HOL-Library.Word"
begin

text \<open>
  Shared vocabulary of the antzkv development.

  \<^item> C values: strings are byte lists (type \<^typ>\<open>string\<close>), compared by \<open>strcmp\<close> on
    unsigned bytes; \<open>uint64_t\<close> is \<^typ>\<open>64 word\<close>; \<open>int64_t\<close> is an \<^typ>\<open>int\<close> whose
    arithmetic goes through \<open>i64\<close>, which reports the undefined behaviour of a
    signed overflow.
  \<^item> Undefined behaviour and divergence are values: a computation that can reach them
    returns \<open>'a res\<close>, a sum with a \<open>fault\<close> on the left.
  \<^item> Strict linear orders given by a comparison function (\<open>strcmp\<close>, the last-write-wins
    comparator, the order of a sorted set) are one locale, \<open>strict_linear\<close>.
  \<^item> Generic lemmas on lists used by several components.
\<close>

named_theorems op_defs \<open>definitions of operations, unfolded together in component proofs\<close>
named_theorems inv_intros \<open>preservation lemmas of the component invariants\<close>

subsection \<open>Faults and results\<close>

datatype fault =
    NullDeref       \<comment> \<open>a null or dangling pointer is dereferenced\<close>
  | SignedOverflow  \<comment> \<open>signed integer arithmetic leaves its type\<close>
  | OverRead        \<comment> \<open>bytes past the end of a buffer are read\<close>
  | OverWrite       \<comment> \<open>bytes past the end of a buffer are written\<close>
  | UseAfterFree    \<comment> \<open>memory that was freed is read or freed again\<close>
  | Uninit          \<comment> \<open>a variable is read before it is written\<close>
  | Diverges        \<comment> \<open>the recursion does not return\<close>

type_synonym 'a res = "fault + 'a"

definition bindr :: "'a res \<Rightarrow> ('a \<Rightarrow> 'b res) \<Rightarrow> 'b res" where
  "bindr m f = (case m of Inl e \<Rightarrow> Inl e | Inr x \<Rightarrow> f x)"

lemma bindr_simps [simp]:
  "bindr (Inl e) f = Inl e"
  "bindr (Inr x) f = f x"
  by (simp_all add: bindr_def)

lemma bindr_eq_Inr [simp]: "bindr m f = Inr y \<longleftrightarrow> (\<exists>x. m = Inr x \<and> f x = Inr y)"
  by (cases m) auto

subsection \<open>Machine integers\<close>

type_synonym u64 = "64 word"

text \<open>Arithmetic on \<open>int64_t\<close> and \<open>long long\<close>: the mathematical result when it fits.\<close>

definition i64_min :: int where "i64_min = - 9223372036854775808"
definition i64_max :: int where "i64_max = 9223372036854775807"

definition in_i64 :: "int \<Rightarrow> bool" where
  "in_i64 x \<longleftrightarrow> i64_min \<le> x \<and> x \<le> i64_max"

definition i64 :: "int \<Rightarrow> int res" where
  "i64 x = (if in_i64 x then Inr x else Inl SignedOverflow)"

lemma i64_Inr [simp]: "i64 x = Inr y \<longleftrightarrow> in_i64 x \<and> y = x"
  by (auto simp: i64_def)

lemma i64_ok: "in_i64 x \<Longrightarrow> i64 x = Inr x"
  by simp

lemma i64_bad: "\<not> in_i64 x \<Longrightarrow> i64 x = Inl SignedOverflow"
  by (simp add: i64_def)

subsection \<open>C strings\<close>

text \<open>
  A C string value has no NUL byte in it. \<open>cstr_of\<close> is what a routine that stops at
  the first NUL sees of a byte buffer.
\<close>

abbreviation NUL :: char where "NUL \<equiv> CHR 0x00"

definition is_cstr :: "string \<Rightarrow> bool" where
  "is_cstr s \<longleftrightarrow> NUL \<notin> set s"

definition cstr_of :: "string \<Rightarrow> string" where
  "cstr_of bs = takeWhile (\<lambda>c. c \<noteq> NUL) bs"

lemma cstr_of_is_cstr [simp]: "is_cstr (cstr_of bs)"
  by (auto simp: is_cstr_def cstr_of_def dest: set_takeWhileD)

lemma cstr_of_id: "is_cstr s \<Longrightarrow> cstr_of s = s"
  by (auto simp: is_cstr_def cstr_of_def takeWhile_eq_all_conv)

lemma cstr_of_append_NUL: "is_cstr s \<Longrightarrow> cstr_of (s @ NUL # t) = s"
  unfolding is_cstr_def cstr_of_def by (subst takeWhile_append2) auto

lemma cstr_of_append_NULs: "is_cstr s \<Longrightarrow> cstr_of (s @ replicate n NUL) = s"
  by (cases n) (simp_all add: cstr_of_id cstr_of_append_NUL)

text \<open>The value of a byte as an \<open>unsigned char\<close>.\<close>

definition byte_of :: "char \<Rightarrow> nat" where
  "byte_of c = of_char c"

lemma byte_of_inj [simp]: "byte_of c = byte_of d \<longleftrightarrow> c = d"
  by (simp add: byte_of_def)

text \<open>\<open>strcmp\<close>: only the sign of the result is specified by C, so it is \<open>-1\<close>, \<open>0\<close> or \<open>1\<close>.\<close>

fun strcmp :: "string \<Rightarrow> string \<Rightarrow> int" where
  "strcmp [] [] = 0"
| "strcmp [] (d # ds) = -1"
| "strcmp (c # cs) [] = 1"
| "strcmp (c # cs) (d # ds) =
     (if c = d then strcmp cs ds else if byte_of c < byte_of d then -1 else 1)"

lemma strcmp_refl [simp]: "strcmp s s = 0"
  by (induction s) auto

lemma strcmp_eq_0 [simp]: "strcmp s t = 0 \<longleftrightarrow> s = t"
  by (induction s t rule: strcmp.induct) auto

lemma strcmp_swap: "strcmp s t = - strcmp t s"
proof (induction s t rule: strcmp.induct)
  case (4 c cs d ds)
  have "byte_of c < byte_of d \<or> byte_of d < byte_of c" if "c \<noteq> d"
    using that by (metis byte_of_inj linorder_neqE_nat)
  with 4 show ?case by auto
qed auto

lemma strcmp_gt_lt: "0 < strcmp s t \<longleftrightarrow> strcmp t s < 0"
  using strcmp_swap [of s t] by linarith

lemma strcmp_trans: "strcmp s t < 0 \<Longrightarrow> strcmp t u < 0 \<Longrightarrow> strcmp s u < 0"
proof (induction s t arbitrary: u rule: strcmp.induct)
  case (4 c cs d ds)
  then show ?case by (cases u) (auto split: if_splits)
next
  case (2 d ds)
  then show ?case by (cases u) auto
qed auto

lemma strcmp_total: "s \<noteq> t \<Longrightarrow> strcmp s t < 0 \<or> strcmp t s < 0"
  using strcmp_eq_0 [of s t] strcmp_swap [of s t] by linarith

subsection \<open>Strict linear orders\<close>

text \<open>
  The contract of every comparison the program orders things by: a strict order that is
  linear on the values of a domain.
\<close>

locale strict_linear =
  fixes lt :: "'a \<Rightarrow> 'a \<Rightarrow> bool"
    and dom_ok :: "'a \<Rightarrow> bool"
  assumes lt_irrefl: "dom_ok x \<Longrightarrow> \<not> lt x x"
    and lt_trans: "dom_ok x \<Longrightarrow> dom_ok y \<Longrightarrow> dom_ok z \<Longrightarrow> lt x y \<Longrightarrow> lt y z \<Longrightarrow> lt x z"
    and lt_total: "dom_ok x \<Longrightarrow> dom_ok y \<Longrightarrow> x \<noteq> y \<Longrightarrow> lt x y \<or> lt y x"
begin

lemma lt_asym: "dom_ok x \<Longrightarrow> dom_ok y \<Longrightarrow> lt x y \<Longrightarrow> \<not> lt y x"
  using lt_irrefl lt_trans by blast

lemma not_lt_trans:
  assumes "dom_ok x" "dom_ok y" "dom_ok z" "\<not> lt y x" "lt y z"
  shows "lt x z"
  using assms lt_total lt_trans by blast

text \<open>The greater of two values does not depend on the order they are seen in.\<close>

definition pick :: "'a \<Rightarrow> 'a \<Rightarrow> 'a" where
  "pick x y = (if lt x y then y else x)"

lemma pick_commute: "dom_ok x \<Longrightarrow> dom_ok y \<Longrightarrow> pick x y = pick y x"
  unfolding pick_def using lt_total lt_asym by metis

lemma pick_assoc:
  "dom_ok x \<Longrightarrow> dom_ok y \<Longrightarrow> dom_ok z \<Longrightarrow> pick (pick x y) z = pick x (pick y z)"
  unfolding pick_def using lt_trans [of x y z] not_lt_trans [of y x z] lt_asym [of y z]
  by (auto dest: not_lt_trans lt_trans)

end

interpretation str_order: strict_linear "\<lambda>s t. strcmp s t < 0" "\<lambda>_. True"
proof
  show "strcmp x y < 0 \<or> strcmp y x < 0" if "x \<noteq> y" for x y
    by (rule strcmp_total [OF that])
qed (simp, rule strcmp_trans)

subsection \<open>Lists\<close>

lemma find_append: "find P (xs @ ys) = (case find P xs of None \<Rightarrow> find P ys | Some x \<Rightarrow> Some x)"
  by (induction xs) auto

lemma find_None_iff_filter: "find P xs = None \<longleftrightarrow> filter P xs = []"
  by (induction xs) auto

lemma filter_nth_update_length:
  assumes "i < length xs"
  shows "length (filter P (xs[i := x])) + (if P (xs ! i) then 1 else 0)
       = length (filter P xs) + (if P x then 1 else 0)"
proof -
  have xs: "xs = take i xs @ xs ! i # drop (Suc i) xs"
    using assms by (rule id_take_nth_drop)
  have "xs[i := x] = take i xs @ x # drop (Suc i) xs"
    using assms by (rule upd_conv_take_nth_drop)
  then have 1: "length (filter P (xs[i := x])) =
      length (filter P (take i xs)) + (if P x then 1 else 0) + length (filter P (drop (Suc i) xs))"
    by simp
  have "length (filter P xs) = length (filter P (take i xs @ xs ! i # drop (Suc i) xs))"
    using xs by simp
  also have "\<dots> = length (filter P (take i xs)) + (if P (xs ! i) then 1 else 0)
        + length (filter P (drop (Suc i) xs))"
    by simp
  finally show ?thesis using 1 by simp
qed

end
