(* ===== verification/Hashing.thy ===== *)
theory Hashing
  imports Prelude
begin

unbundle bit_operations_syntax

text \<open>
  The FNV-1a hash of \<open>src/src/core/kvdb.c\<close> (\<open>fnv1a\<close>), on 64-bit words: both the key-space
  table and the chained tables reduce it modulo their capacity.
\<close>

fun fnv_loop :: "u64 \<Rightarrow> string \<Rightarrow> u64" where
  "fnv_loop h [] = h"
| "fnv_loop h (c # cs) = fnv_loop ((h XOR word_of_nat (byte_of c)) * 0x100000001b3) cs"

definition fnv1a :: "string \<Rightarrow> u64" where
  "fnv1a s = fnv_loop 0xcbf29ce484222325 s"

text \<open>\<open>fnv1a(key) % cap\<close>.\<close>

definition hash_slot :: "string \<Rightarrow> nat \<Rightarrow> nat" where
  "hash_slot s cap = unat (fnv1a s) mod cap"

lemma hash_slot_less [simp]: "0 < cap \<Longrightarrow> hash_slot s cap < cap"
  by (simp add: hash_slot_def)

text \<open>The published test vectors of FNV-1a.\<close>

lemma fnv1a_empty: "fnv1a '''' = 0xcbf29ce484222325"
  by (simp add: fnv1a_def)

lemma fnv1a_a: "fnv1a ''a'' = 0xaf63dc4c8601ec8c"
  by (simp add: fnv1a_def byte_of_def)

lemma fnv1a_foobar: "fnv1a ''foobar'' = 0x85944171f73967e8"
  by (simp add: fnv1a_def byte_of_def)

end
