(* ===== verification/Probe_Table.thy ===== *)
theory Probe_Table
  imports Hashing
begin

text \<open>
  The open-addressing array of the key space (\<open>kv_entry\<close>, \<open>probe\<close> and \<open>resize\<close> of
  \<open>src/src/core/kvdb.c\<close>), for any type of objects. The probe sequence adds the squares
  \<open>1, 4, 9, \<dots>\<close> to the index and gives up after \<open>capacity\<close> slots. The lemmas show that in
  every state the program can reach the key of every occupied slot is found at that slot, so
  that the array represents a finite map; what a store does to that map, an eviction
  included; and that no key is lost while fewer than half of the slots are in use.
\<close>

subsection \<open>Slots and probing\<close>

text \<open>\<open>entry_state_t\<close> with the fields that are meaningful in each state.\<close>

datatype 'o kv_entry = is_empty: E_EMPTY | E_OCCUPIED string 'o | E_DELETED

lemma is_empty_iff [simp]: "is_empty e \<longleftrightarrow> e = E_EMPTY"
  by (cases e) auto

fun is_key :: "string \<Rightarrow> 'o kv_entry \<Rightarrow> bool" where
  "is_key key (E_OCCUPIED k v) = (strcmp k key = 0)"
| "is_key key e = False"

text \<open>\<open>(idx + i * i) % capacity\<close> on \<open>size_t\<close>.\<close>

definition probe_next :: "nat \<Rightarrow> nat \<Rightarrow> nat \<Rightarrow> nat" where
  "probe_next cap idx i = (idx + i * i) mod 2 ^ 64 mod cap"

function probe_loop :: "'o kv_entry list \<Rightarrow> string \<Rightarrow> nat \<Rightarrow> nat \<Rightarrow> nat \<times> bool" where
  "probe_loop es key idx i =
     (if is_empty (es ! idx) then (idx, False)
      else if is_key key (es ! idx) then (idx, True)
      else (let idx = probe_next (length es) idx i; i = Suc i in
            if i > length es then (idx, False) else probe_loop es key idx i))"
  by pat_completeness auto
termination
  by (relation "measure (\<lambda>(es, key, idx, i). Suc (length es) - i)") auto

declare probe_loop.simps [simp del]

definition probe :: "'o kv_entry list \<Rightarrow> string \<Rightarrow> nat \<times> bool" where
  "probe es key = probe_loop es key (hash_slot key (length es)) 1"

text \<open>The loop of \<open>resize\<close>: move every occupied slot; the array and the new \<open>count\<close>.\<close>

fun resize_loop :: "'o kv_entry list \<Rightarrow> 'o kv_entry list \<Rightarrow> nat \<Rightarrow> 'o kv_entry list \<times> nat" where
  "resize_loop [] es count = (es, count)"
| "resize_loop (E_OCCUPIED k v # old) es count =
     resize_loop old (es[fst (probe es k) := E_OCCUPIED k v]) (Suc count)"
| "resize_loop (e # old) es count = resize_loop old es count"

text \<open>The sequence of slots a probe visits.\<close>

fun probe_pos :: "nat \<Rightarrow> nat \<Rightarrow> nat \<Rightarrow> nat" where
  "probe_pos cap h 0 = h"
| "probe_pos cap h (Suc n) = probe_next cap (probe_pos cap h n) (Suc n)"

definition slots :: "'o kv_entry list \<Rightarrow> string \<Rightarrow> nat \<Rightarrow> nat" where
  "slots es key n = probe_pos (length es) (hash_slot key (length es)) n"

text \<open>Capacities are powers of two.\<close>

definition cap_ok :: "nat \<Rightarrow> bool" where
  "cap_ok cap \<longleftrightarrow> (\<exists>k. 5 \<le> k \<and> k \<le> 59 \<and> cap = 2 ^ k)"

lemma cap_ok_pos: "cap_ok cap \<Longrightarrow> 0 < cap"
  by (auto simp: cap_ok_def)

lemma cap_ok_neq [simp]: "\<not> cap_ok 0"
  by (auto simp: cap_ok_def)

lemma cap_ok_dvd: "cap_ok cap \<Longrightarrow> cap dvd 2 ^ 64"
proof -
  assume "cap_ok cap"
  then obtain k where k: "k \<le> 59" "cap = 2 ^ k" by (auto simp: cap_ok_def)
  have "(2::nat) ^ k dvd 2 ^ 64" by (rule le_imp_power_dvd) (use k(1) in simp)
  then show ?thesis unfolding k(2) .
qed

lemma probe_next_mod: "cap_ok cap \<Longrightarrow> probe_next cap idx i = (idx + i * i) mod cap"
  using cap_ok_dvd by (auto simp: probe_next_def mod_mod_cancel)

lemma probe_pos_less: "cap_ok cap \<Longrightarrow> h < cap \<Longrightarrow> probe_pos cap h n < cap"
  by (cases n) (simp_all add: probe_next_mod)

lemma slots_less [simp]: "cap_ok (length es) \<Longrightarrow> slots es key n < length es"
  unfolding slots_def by (intro probe_pos_less hash_slot_less cap_ok_pos)

text \<open>The slot after the last one visited is the last one visited.\<close>

lemma slots_wrap: "cap_ok (length es) \<Longrightarrow> slots es key (length es) = slots es key (length es - 1)"
proof -
  assume cap: "cap_ok (length es)"
  then obtain n where n: "length es = Suc n" using cap_ok_pos [OF cap] by (cases "length es") auto
  have "slots es key (Suc n) = (slots es key n + Suc n * Suc n) mod length es"
    using cap n by (simp add: slots_def probe_next_mod)
  also have "\<dots> = slots es key n"
    using n slots_less [OF cap, of key n] mod_mult_self1 [of "slots es key n" "Suc n" "Suc n"]
    by (simp del: mod_mult_self1 mult_Suc mult_Suc_right)
  finally show ?thesis using n by simp
qed

text \<open>A probe stops at the first of its slots that is empty or holds the key.\<close>

definition stops :: "'o kv_entry list \<Rightarrow> string \<Rightarrow> nat \<Rightarrow> bool" where
  "stops es key idx \<longleftrightarrow> es ! idx = E_EMPTY \<or> is_key key (es ! idx)"

lemma probe_loop_stop:
  assumes "m \<le> n" "n < length es" "\<forall>j. m \<le> j \<and> j < n \<longrightarrow> \<not> stops es key (slots es key j)" "stops es key (slots es key n)"
  shows "probe_loop es key (slots es key m) (Suc m) = (slots es key n, is_key key (es ! slots es key n))"
  using assms
proof (induction "n - m" arbitrary: m)
  case 0
  then have "m = n" by simp
  with 0 show ?case by (subst probe_loop.simps) (auto simp: stops_def)
next
  case (Suc d)
  then have m: "m < n" "\<not> stops es key (slots es key m)" by auto
  have "probe_next (length es) (slots es key m) (Suc m) = slots es key (Suc m)" by (simp add: slots_def)
  with m Suc show ?case by (subst probe_loop.simps) (auto simp: stops_def Let_def)
qed

lemma probe_loop_full:
  assumes "m < length es" "\<forall>j. m \<le> j \<and> j < length es \<longrightarrow> \<not> stops es key (slots es key j)"
  shows "probe_loop es key (slots es key m) (Suc m) = (slots es key (length es), False)"
  using assms
proof (induction "length es - m" arbitrary: m)
  case (Suc d)
  then have m: "\<not> stops es key (slots es key m)" by auto
  have nx: "probe_next (length es) (slots es key m) (Suc m) = slots es key (Suc m)" by (simp add: slots_def)
  show ?case
  proof (cases "Suc m < length es")
    case True
    with Suc m nx show ?thesis by (subst probe_loop.simps) (auto simp: stops_def Let_def)
  next
    case False
    with Suc.prems have "Suc m = length es" by simp
    with m nx show ?thesis by (subst probe_loop.simps) (auto simp: stops_def Let_def)
  qed
qed simp

lemma probe_stop:
  assumes "n < length es" "\<forall>j < n. \<not> stops es key (slots es key j)" "stops es key (slots es key n)"
  shows "probe es key = (slots es key n, is_key key (es ! slots es key n))"
  using probe_loop_stop [of 0 n es key] assms by (simp add: probe_def slots_def)

lemma probe_full:
  assumes "cap_ok (length es)" "\<forall>j < length es. \<not> stops es key (slots es key j)"
  shows "probe es key = (slots es key (length es - 1), False)"
proof -
  have "probe_loop es key (slots es key 0) (Suc 0) = (slots es key (length es), False)"
    using assms cap_ok_pos by (intro probe_loop_full) auto
  then show ?thesis using slots_wrap [OF assms(1)] by (simp add: probe_def slots_def)
qed

text \<open>The three ways a probe ends.\<close>

lemma probe_cases [consumes 1, case_names found empty full]:
  assumes "cap_ok (length es)"
  obtains (found) n where "n < length es" "\<forall>j < n. \<not> stops es key (slots es key j)"
      "is_key key (es ! slots es key n)" "probe es key = (slots es key n, True)"
  | (empty) n where "n < length es" "\<forall>j < n. \<not> stops es key (slots es key j)"
      "es ! slots es key n = E_EMPTY" "probe es key = (slots es key n, False)"
  | (full) "\<forall>j < length es. \<not> stops es key (slots es key j)" "probe es key = (slots es key (length es - 1), False)"
proof (cases "\<exists>n < length es. stops es key (slots es key n)")
  case True
  then obtain n where n: "n < length es" "stops es key (slots es key n)"
    "\<forall>j < n. \<not> stops es key (slots es key j)"
    using exists_least_iff [of "\<lambda>n. n < length es \<and> stops es key (slots es key n)"] by (meson order.strict_trans)
  note p = probe_stop [OF n(1,3,2)]
  show ?thesis
  proof (cases "is_key key (es ! slots es key n)")
    case True
    with n p show ?thesis by (intro found) auto
  next
    case False
    with n p show ?thesis by (intro empty) (auto simp: stops_def)
  qed
next
  case False
  with probe_full [OF assms] show ?thesis by (intro full) auto
qed

lemma probe_less: "cap_ok (length es) \<Longrightarrow> fst (probe es key) < length es"
  by (cases rule: probe_cases [of es key]) auto

subsection \<open>The map an array represents\<close>

fun occ :: "'o kv_entry \<Rightarrow> (string \<times> 'o) list" where
  "occ (E_OCCUPIED k v) = [(k, v)]"
| "occ e = []"

definition occs :: "'o kv_entry list \<Rightarrow> (string \<times> 'o) list" where
  "occs es = concat (map occ es)"

definition tbl_map :: "'o kv_entry list \<Rightarrow> string \<rightharpoonup> 'o" where
  "tbl_map es = map_of (occs es)"

text \<open>The key of every occupied slot is found at that slot.\<close>

definition tbl_wf :: "'o kv_entry list \<Rightarrow> bool" where
  "tbl_wf es \<longleftrightarrow> cap_ok (length es) \<and>
     (\<forall>idx < length es. \<forall>k v. es ! idx = E_OCCUPIED k v \<longrightarrow> probe es k = (idx, True))"

lemma occ_iff [simp]: "(k, v) \<in> set (occ e) \<longleftrightarrow> e = E_OCCUPIED k v"
  by (cases e) auto

lemma occs_iff: "(k, v) \<in> set (occs es) \<longleftrightarrow> (\<exists>idx < length es. es ! idx = E_OCCUPIED k v)"
  unfolding occs_def set_concat set_map by (auto simp: in_set_conv_nth [of _ es])

lemma is_key_iff [simp]: "is_key k e \<longleftrightarrow> (\<exists>v. e = E_OCCUPIED k v)"
  by (cases e) auto

lemma tbl_map_iff:
  assumes "tbl_wf es"
  shows "tbl_map es k = Some v \<longleftrightarrow> (\<exists>idx < length es. es ! idx = E_OCCUPIED k v)"
proof
  assume "tbl_map es k = Some v"
  then show "\<exists>idx < length es. es ! idx = E_OCCUPIED k v"
    unfolding tbl_map_def by (metis map_of_SomeD occs_iff)
next
  assume "\<exists>idx < length es. es ! idx = E_OCCUPIED k v"
  then obtain idx where idx: "idx < length es" "es ! idx = E_OCCUPIED k v" by blast
  then have "(k, v) \<in> set (occs es)" by (auto simp: occs_iff)
  then obtain v' where v': "map_of (occs es) k = Some v'" by (meson weak_map_of_SomeI)
  then obtain idx' where idx': "idx' < length es" "es ! idx' = E_OCCUPIED k v'"
    by (metis map_of_SomeD occs_iff)
  have "idx = idx'" using assms idx idx' unfolding tbl_wf_def by (metis prod.inject)
  with idx idx' v' show "tbl_map es k = Some v" by (simp add: tbl_map_def)
qed

lemma tbl_wf_cap: "tbl_wf es \<Longrightarrow> cap_ok (length es)"
  by (simp add: tbl_wf_def)

lemma probe_ok:
  assumes "tbl_wf es" "probe es k = (idx, f)"
  shows "idx < length es" and "f \<longleftrightarrow> k \<in> dom (tbl_map es)"
    and "f \<Longrightarrow> es ! idx = E_OCCUPIED k (the (tbl_map es k))"
proof -
  have cap: "cap_ok (length es)" using assms(1) by (rule tbl_wf_cap)
  show "idx < length es" using probe_less [OF cap, of k] assms(2) by simp
  have f1: "\<exists>v. es ! idx = E_OCCUPIED k v" if f
    using cap assms(2) that by (cases rule: probe_cases [of es k]) auto
  have f2: "f" if "tbl_map es k = Some v" for v
    using that assms unfolding tbl_map_iff [OF assms(1)] tbl_wf_def by force
  show "f \<longleftrightarrow> k \<in> dom (tbl_map es)"
    using f1 f2 tbl_map_iff [OF assms(1)] \<open>idx < length es\<close> by blast
  show "es ! idx = E_OCCUPIED k (the (tbl_map es k))" if f
  proof -
    from f1 [OF that] obtain v where v: "es ! idx = E_OCCUPIED k v" ..
    with tbl_map_iff [OF assms(1), of k v] \<open>idx < length es\<close> have "tbl_map es k = Some v" by blast
    with v show ?thesis by simp
  qed
qed

subsection \<open>Stores and deletions\<close>

lemma slots_update [simp]: "slots (es[idx := e]) = slots es"
  by (simp add: slots_def fun_eq_iff)

lemma probe_update:
  assumes "cap_ok (length es)" "probe es k = (i, True)" "i \<noteq> idx" "e \<noteq> E_EMPTY" "\<not> is_key k e"
  shows "probe (es[idx := e]) k = (i, True)"
  using assms(1)
proof (cases rule: probe_cases [of es k])
  case (found n)
  with assms(2) have i: "slots es k n = i" by simp
  have "\<not> stops (es[idx := e]) k (slots es k j)" if "j < n" for j
    using found(2) that assms(4,5) slots_less [OF assms(1), of k j]
    by (cases "slots es k j = idx") (auto simp: stops_def)
  moreover have "is_key k (es[idx := e] ! slots es k n)" using found(3) i assms(3) by simp
  ultimately show ?thesis using probe_stop [of n "es[idx := e]" k] found(1) i by (auto simp: stops_def)
qed (use assms(2) in auto)

lemma probe_store_self:
  assumes "cap_ok (length es)" "probe es k = (idx, f)"
  shows "probe (es[idx := E_OCCUPIED k v]) k = (idx, True)"
proof -
  obtain n where n: "n < length es" "\<forall>j < n. \<not> stops es k (slots es k j)" "slots es k n = idx"
    using assms(1)
  proof (cases rule: probe_cases [of es k])
    case full
    have "length es - 1 < length es" using cap_ok_pos [OF assms(1)] by simp
    then show ?thesis using that full assms(2) by (metis fst_conv less_trans)
  qed (use that assms(2) in auto)
  let ?es = "es[idx := E_OCCUPIED k v]"
  have idx: "idx < length es" using slots_less [OF assms(1), of k n] n(3) by simp
  define m where "m = (LEAST m. slots es k m = idx)"
  have m: "slots es k m = idx" "m \<le> n" "\<forall>j < m. slots es k j \<noteq> idx"
    unfolding m_def using n(3) by (auto intro: LeastI Least_le dest: not_less_Least)
  have "\<forall>j < m. \<not> stops ?es k (slots es k j)" using m(2,3) n(2) by (auto simp: stops_def)
  with probe_stop [of m ?es k] m n(1) idx show ?thesis by (auto simp: stops_def)
qed

lemma tbl_store:
  fixes v :: 'o
  assumes wf: "tbl_wf es" and p: "probe es k = (idx, f)"
  defines "es' \<equiv> es[idx := E_OCCUPIED k v]"
  shows "tbl_wf es'" and "tbl_map es' = (tbl_map es |` (- {k'. \<exists>v'. es ! idx = E_OCCUPIED k' v'}))(k \<mapsto> v)"
proof -
  have cap: "cap_ok (length es)" and idx: "idx < length es" using tbl_wf_cap [OF wf] probe_ok(1) [OF wf p] .
  have wf': "probe es' k' = (i, True)" if "i < length es" "es' ! i = E_OCCUPIED k' v'" for i k' v'
  proof (cases "i = idx")
    case True
    with that idx have "k' = k" by (simp add: es'_def)
    with True probe_store_self [OF cap p] show ?thesis by (simp add: es'_def)
  next
    case False
    with that have i: "es ! i = E_OCCUPIED k' v'" by (simp add: es'_def)
    with wf that(1) have pi: "probe es k' = (i, True)" by (simp add: tbl_wf_def)
    with p False have "k' \<noteq> k" by auto
    with probe_update [OF cap pi False] show ?thesis by (simp add: es'_def)
  qed
  with cap show w: "tbl_wf es'" by (simp add: tbl_wf_def es'_def)
  have "tbl_map es' k' = Some v' \<longleftrightarrow> ((tbl_map es |` (- {k'. \<exists>v'. es ! idx = E_OCCUPIED k' v'}))(k \<mapsto> v)) k' = Some v'" for k' v'
  proof (cases "k' = k")
    case True
    have "tbl_map es' k = Some v" using idx unfolding tbl_map_iff [OF w] by (auto simp: es'_def)
    with True show ?thesis by auto
  next
    case False
    have "tbl_map es' k' = Some v' \<longleftrightarrow> (\<exists>i < length es. i \<noteq> idx \<and> es ! i = E_OCCUPIED k' v')"
      unfolding tbl_map_iff [OF w] using False idx by (auto simp: es'_def nth_list_update split: if_splits)
    also have "\<dots> \<longleftrightarrow> tbl_map es k' = Some v' \<and> (\<forall>v''. es ! idx \<noteq> E_OCCUPIED k' v'')"
      unfolding tbl_map_iff [OF wf] using wf idx unfolding tbl_wf_def by (metis prod.inject)
    finally show ?thesis using False by (auto simp: restrict_map_def)
  qed
  then show "tbl_map es' = (tbl_map es |` (- {k'. \<exists>v'. es ! idx = E_OCCUPIED k' v'}))(k \<mapsto> v)"
    by (intro ext) (metis not_Some_eq)
qed

lemma tbl_delete:
  assumes wf: "tbl_wf es" and idx: "idx < length es" "es ! idx = E_OCCUPIED k v"
  shows "tbl_wf (es[idx := E_DELETED])" and "tbl_map (es[idx := E_DELETED]) = (tbl_map es)(k := None)"
proof -
  let ?es = "es[idx := E_DELETED]"
  have cap: "cap_ok (length es)" using tbl_wf_cap [OF wf] .
  have "probe ?es k' = (i, True)" if "i < length es" "?es ! i = E_OCCUPIED k' v'" for i k' v'
  proof -
    from that idx(1) have i: "i \<noteq> idx" "es ! i = E_OCCUPIED k' v'" by (auto simp: nth_list_update split: if_splits)
    with wf that(1) have "probe es k' = (i, True)" by (simp add: tbl_wf_def)
    from probe_update [OF cap this i(1)] show ?thesis by simp
  qed
  with cap show w: "tbl_wf ?es" by (simp add: tbl_wf_def)
  have "tbl_map ?es k' = Some v' \<longleftrightarrow> ((tbl_map es)(k := None)) k' = Some v'" for k' v'
  proof -
    have "tbl_map ?es k' = Some v' \<longleftrightarrow> (\<exists>i < length es. i \<noteq> idx \<and> es ! i = E_OCCUPIED k' v')"
      unfolding tbl_map_iff [OF w] using idx(1) by (auto simp: nth_list_update split: if_splits)
    also have "\<dots> \<longleftrightarrow> tbl_map es k' = Some v' \<and> k' \<noteq> k"
      unfolding tbl_map_iff [OF wf] using wf idx unfolding tbl_wf_def
      by (metis kv_entry.inject prod.inject)
    finally show ?thesis by auto
  qed
  then show "tbl_map ?es = (tbl_map es)(k := None)" by (intro ext) (metis not_Some_eq)
qed

subsection \<open>Probing a half empty array\<close>

text \<open>
  The slot after \<open>n\<close> steps is the start plus the sum of the first \<open>n\<close> squares. At the even steps
  three times that sum is \<open>8k\<^sup>3 + 6k\<^sup>2 + k\<close>, which is injective modulo a power of two, so a
  probe visits at least half of the slots.
\<close>

lemma probe_pos_sum:
  assumes "cap_ok cap" "h < cap"
  shows "probe_pos cap h n = (h + (\<Sum>i\<le>n. i * i)) mod cap"
proof (induction n)
  case (Suc n)
  have "probe_pos cap h (Suc n) = ((h + (\<Sum>i\<le>n. i * i)) mod cap + Suc n * Suc n) mod cap"
    using Suc assms(1) by (simp add: probe_next_mod)
  also have "\<dots> = (h + (\<Sum>i\<le>n. i * i) + Suc n * Suc n) mod cap" by (rule mod_add_left_eq)
  also have "h + (\<Sum>i\<le>n. i * i) + Suc n * Suc n = h + (\<Sum>i\<le>Suc n. i * i)" by simp
  finally show ?case .
qed (use assms in simp)

lemma square_sum: "6 * (\<Sum>i\<le>n. i * i) = n * (n + 1) * (2 * n + 1)" for n :: nat
  by (induction n) (simp_all add: algebra_simps)

lemma even_square_sum: "3 * (\<Sum>i\<le>2 * k. i * i) = 8 * k ^ 3 + 6 * k ^ 2 + k" for k :: nat
  using square_sum [of "2 * k"] by (simp add: algebra_simps power2_eq_square power3_eq_cube)

lemma even_square_sum_inj:
  fixes a b :: nat
  assumes "a < 2 ^ m" "b < 2 ^ m" and eq: "(\<Sum>i\<le>2 * a. i * i) mod 2 ^ m = (\<Sum>i\<le>2 * b. i * i) mod 2 ^ m"
  shows "a = b"
proof -
  let ?q = "\<lambda>k::int. 8 * k ^ 3 + 6 * k ^ 2 + k"
  have "(3 * (\<Sum>i\<le>2 * a. i * i)) mod 2 ^ m = (3 * (\<Sum>i\<le>2 * b. i * i)) mod 2 ^ m"     using arg_cong [OF eq, of "\<lambda>x. 3 * x mod 2 ^ m"] unfolding mod_mult_right_eq .
  then have "int (8 * a ^ 3 + 6 * a ^ 2 + a) mod int (2 ^ m) = int (8 * b ^ 3 + 6 * b ^ 2 + b) mod int (2 ^ m)"
    unfolding even_square_sum of_nat_mod [symmetric] by (rule arg_cong)
  then have "(2::int) ^ m dvd ?q (int a) - ?q (int b)" by (simp add: mod_eq_dvd_iff)
  also have "?q (int a) - ?q (int b) =
      (int a - int b) * (8 * (int a ^ 2 + int a * int b + int b ^ 2) + 6 * (int a + int b) + 1)"
    by (simp add: algebra_simps power2_eq_square power3_eq_cube)
  finally have "(2::int) ^ m dvd int a - int b"
    by (rule coprime_dvd_mult_left_iff [THEN iffD1, rotated]) simp
  then have "int a mod 2 ^ m = int b mod 2 ^ m" by (simp add: mod_eq_dvd_iff)
  then have "int (a mod 2 ^ m) = int (b mod 2 ^ m)" by (simp add: of_nat_mod)
  with assms(1,2) show ?thesis by simp
qed

lemma mod_add_cancel: "(h + x) mod c = (h + y) mod c \<Longrightarrow> x mod c = y mod c" for h x y c :: nat
proof -
  assume "(h + x) mod c = (h + y) mod c"
  then have "int (h + x) mod int c = int (h + y) mod int c" by (metis of_nat_mod)
  then have "int x mod int c = int y mod int c" by (simp add: mod_eq_dvd_iff)
  then show ?thesis by (metis of_nat_eq_iff of_nat_mod)
qed

text \<open>The number of slots that are not empty.\<close>

definition used :: "'o kv_entry list \<Rightarrow> nat" where
  "used es = length (filter (\<lambda>e. e \<noteq> E_EMPTY) es)"

lemma slots_even_inj:
  assumes "cap_ok (length es)"
  shows "inj_on (\<lambda>a. slots es k (2 * a)) {..<length es div 2}"
proof (rule inj_onI)
  fix a b assume ab: "a \<in> {..<length es div 2}" "b \<in> {..<length es div 2}" "slots es k (2 * a) = slots es k (2 * b)"
  from assms obtain m where m: "length es = 2 ^ m" by (auto simp: cap_ok_def)
  have "hash_slot k (length es) < length es" using assms by (intro hash_slot_less cap_ok_pos)
  with ab(3) probe_pos_sum [OF assms] have
    "(\<Sum>i\<le>2 * a. i * i) mod 2 ^ m = (\<Sum>i\<le>2 * b. i * i) mod 2 ^ m"
    unfolding slots_def m [symmetric] by (metis mod_add_cancel)
  with even_square_sum_inj [of a m b] ab(1,2) m show "a = b" by simp
qed

lemma probe_reaches_empty:
  assumes cap: "cap_ok (length es)" and half: "2 * used es < length es"
  shows "\<exists>n < length es. es ! slots es k n = E_EMPTY"
proof (rule ccontr)
  assume neg: "\<not> ?thesis"
  let ?K = "length es div 2"
  have "(\<lambda>a. slots es k (2 * a)) ` {..<?K} \<subseteq> {i. i < length es \<and> es ! i \<noteq> E_EMPTY}"
  proof clarify
    fix a assume "a < ?K"
    then have "2 * a < length es" by simp
    with neg slots_less [OF cap] show "slots es k (2 * a) < length es \<and> es ! slots es k (2 * a) \<noteq> E_EMPTY" by blast
  qed
  then have "card ((\<lambda>a. slots es k (2 * a)) ` {..<?K}) \<le> used es"
    unfolding used_def length_filter_conv_card by (intro card_mono) auto
  then have "?K \<le> used es" by (simp add: card_image slots_even_inj [OF cap])
  moreover have "even (length es)" using cap by (auto simp: cap_ok_def)
  ultimately show False using half by auto
qed

lemma probe_not_full:
  assumes "tbl_wf es" "2 * used es < length es" "probe es k = (idx, f)"
  shows "f \<or> es ! idx = E_EMPTY"
proof -
  have cap: "cap_ok (length es)" using assms(1) by (rule tbl_wf_cap)
  obtain n where "n < length es" "es ! slots es k n = E_EMPTY" using probe_reaches_empty [OF cap assms(2)] by blast
  with cap assms(3) show ?thesis by (cases rule: probe_cases [of es k]) (auto simp: stops_def)
qed

subsection \<open>Resizing\<close>

lemma used_store:
  "idx < length es \<Longrightarrow> es ! idx = E_EMPTY \<Longrightarrow> e \<noteq> E_EMPTY \<Longrightarrow> used (es[idx := e]) = Suc (used es)"
  using filter_nth_update_length [of idx es "\<lambda>e. e \<noteq> E_EMPTY" e] by (simp add: used_def)

lemma used_update: "used (es[idx := e]) \<le> Suc (used es)"
  using filter_nth_update_length [of idx es "\<lambda>e. e \<noteq> E_EMPTY" e]
  by (cases "idx < length es") (auto simp: used_def list_update_beyond split: if_splits)

lemma used_replicate [simp]: "used (replicate n E_EMPTY) = 0"
  by (simp add: used_def filter_replicate)

lemma tbl_empty:
  assumes "cap_ok cap" shows "tbl_wf (replicate cap E_EMPTY)" and "tbl_map (replicate cap E_EMPTY) = Map.empty"
proof -
  show wf: "tbl_wf (replicate cap E_EMPTY)" using assms by (simp add: tbl_wf_def)
  show "tbl_map (replicate cap E_EMPTY) = Map.empty" unfolding tbl_map_def occs_def by (induction cap) auto
qed

text \<open>Storing a new key in a half empty array.\<close>

lemma tbl_store_new:
  fixes v :: 'o
  assumes wf: "tbl_wf es" and half: "2 * used es < length es" and new: "k \<notin> dom (tbl_map es)"
  defines "es' \<equiv> es[fst (probe es k) := E_OCCUPIED k v]"
  shows "tbl_wf es'" and "tbl_map es' = (tbl_map es)(k \<mapsto> v)" and "used es' = Suc (used es)"
proof -
  obtain idx f where p: "probe es k = (idx, f)" by fastforce
  with probe_ok [OF wf p] new have f: "\<not> f" "idx < length es" by auto
  with probe_not_full [OF wf half p] have e: "es ! idx = E_EMPTY" by simp
  show "tbl_wf es'" "tbl_map es' = (tbl_map es)(k \<mapsto> v)" "used es' = Suc (used es)"
    using tbl_store [OF wf p, of v] used_store [of idx es "E_OCCUPIED k v"] e f(2) p
    by (simp_all add: es'_def restrict_map_def)
qed

lemma occs_Cons [simp]: "occs [] = []" "occs (e # es) = occ e @ occs es"
  by (simp_all add: occs_def)

lemma resize_loop_ok:
  assumes "tbl_wf es" "2 * (used es + length (occs old)) < length es"
    "distinct (map fst (occs old))" "fst ` set (occs old) \<inter> dom (tbl_map es) = {}"
  shows "\<exists>es'. resize_loop old es c = (es', c + length (occs old)) \<and> tbl_wf es' \<and> length es' = length es \<and>
           tbl_map es' = tbl_map es ++ map_of (occs old) \<and> used es' = used es + length (occs old)"
  using assms
proof (induction old es c rule: resize_loop.induct)
  case (2 k v old es c)
  let ?es = "es[fst (probe es k) := E_OCCUPIED k v]"
  have new: "tbl_wf ?es" "tbl_map ?es = (tbl_map es)(k \<mapsto> v)" "used ?es = Suc (used es)"
    using tbl_store_new [of es k v] "2.prems" by auto
  obtain es' where es': "resize_loop old ?es (Suc c) = (es', Suc c + length (occs old))" "tbl_wf es'"
    "length es' = length ?es" "tbl_map es' = tbl_map ?es ++ map_of (occs old)" "used es' = used ?es + length (occs old)"
  proof -
    have "2 * (used ?es + length (occs old)) < length ?es" "distinct (map fst (occs old))"
      "fst ` set (occs old) \<inter> dom (tbl_map ?es) = {}"
      using "2.prems"(2-4) new(2,3) by auto
    from "2.IH" [OF new(1) this] show ?thesis using that by blast
  qed
  have "(tbl_map es)(k \<mapsto> v) ++ map_of (occs old) = (tbl_map es ++ map_of (occs old))(k \<mapsto> v)"
    using "2.prems"(3) by (intro map_add_upd_left) (simp add: dom_map_of_conv_image_fst)
  with es' new show ?case by (simp del: fun_upd_apply)
qed auto

lemma occs_distinct:
  assumes "\<forall>i < length es. \<forall>j < length es. \<forall>k v w. es ! i = E_OCCUPIED k v \<longrightarrow> es ! j = E_OCCUPIED k w \<longrightarrow> i = j"
  shows "distinct (map fst (occs es))"
  using assms
proof (induction es)
  case (Cons e es)
  have "distinct (map fst (occs es))"
  proof (rule Cons.IH, intro allI impI)
    fix i j k v w assume "i < length es" "j < length es" "es ! i = E_OCCUPIED k v" "es ! j = E_OCCUPIED k w"
    with Cons.prems [rule_format, of "Suc i" "Suc j"] show "i = j" by auto
  qed
  moreover have "k \<notin> fst ` set (occs es)" if "e = E_OCCUPIED k v" for k v
    using Cons.prems [rule_format, of 0 "Suc _"] that by (fastforce simp: occs_iff)
  ultimately show ?case by (cases e) auto
qed simp

lemma tbl_wf_distinct: "tbl_wf es \<Longrightarrow> distinct (map fst (occs es))"
  by (rule occs_distinct) (metis tbl_wf_def prod.inject)

end
