(* ===== verification/Heap_Cells.thy ===== *)
theory Heap_Cells
  imports Prelude
begin

text \<open>
  Heap cells of the linked structures. A structure owns its nodes, so its heap is a
  partial map from addresses to nodes kept inside the structure; \<open>calloc\<close> hands out the
  next unused address. Every access through a pointer goes through \<open>deref\<close>, \<open>store\<close> or
  \<open>release\<close>, which fault on a null-like or dangling address, so that memory safety of the
  operations is something to prove.
\<close>

type_synonym addr = nat
type_synonym 'n heap = "addr \<Rightarrow> 'n option"

text \<open>Reading \<open>*p\<close>.\<close>

definition deref :: "'n heap \<Rightarrow> addr \<Rightarrow> 'n res" where
  "deref h a = (case h a of None \<Rightarrow> Inl NullDeref | Some n \<Rightarrow> Inr n)"

text \<open>Writing fields of \<open>*p\<close>.\<close>

definition store :: "'n heap \<Rightarrow> addr \<Rightarrow> ('n \<Rightarrow> 'n) \<Rightarrow> 'n heap res" where
  "store h a f = (case h a of None \<Rightarrow> Inl NullDeref | Some n \<Rightarrow> Inr (h(a \<mapsto> f n)))"

text \<open>\<open>free(p)\<close>.\<close>

definition release :: "'n heap \<Rightarrow> addr \<Rightarrow> 'n heap res" where
  "release h a = (case h a of None \<Rightarrow> Inl NullDeref | Some n \<Rightarrow> Inr (h(a := None)))"

lemma deref_Some [simp]: "h a = Some n \<Longrightarrow> deref h a = Inr n"
  by (simp add: deref_def)

lemma store_Some [simp]: "h a = Some n \<Longrightarrow> store h a f = Inr (h(a \<mapsto> f n))"
  by (simp add: store_def)

lemma release_Some [simp]: "h a = Some n \<Longrightarrow> release h a = Inr (h(a := None))"
  by (simp add: release_def)

text \<open>The first address of a list, or a given pointer when the list is empty; the last one.\<close>

definition first_or :: "addr option \<Rightarrow> addr list \<Rightarrow> addr option" where
  "first_or q as = (case as of [] \<Rightarrow> q | a # _ \<Rightarrow> Some a)"

definition last_or :: "addr option \<Rightarrow> addr list \<Rightarrow> addr option" where
  "last_or p as = (if as = [] then p else Some (last as))"

lemma first_or_simps [simp]:
  "first_or q [] = q" "first_or q (a # as) = Some a"
  "first_or q (as @ bs) = first_or (first_or q bs) as"
  by (auto simp: first_or_def split: list.splits)

lemma last_or_simps [simp]:
  "last_or p [] = p" "last_or p (a # as) = last_or (Some a) as"
  "last_or p (as @ bs) = last_or (last_or p as) bs" "last_or p (as @ [a]) = Some a"
  by (auto simp: last_or_def)

lemma first_or_None [simp]: "first_or None as = None \<longleftrightarrow> as = []"
  by (auto simp: first_or_def split: list.splits)

lemma last_or_None [simp]: "last_or None as = None \<longleftrightarrow> as = []"
  by (auto simp: last_or_def)

lemma last_or_Some [simp]: "last_or (Some a) as \<noteq> None"
  by (auto simp: last_or_def)

lemma first_or_SomeD: "first_or None as = Some a \<Longrightarrow> \<exists>as'. as = a # as'"
  by (cases as) auto

lemma last_or_SomeD: "last_or None as = Some a \<Longrightarrow> \<exists>as'. as = as' @ [a]"
  by (cases as rule: rev_cases) auto

end
