(* ===== verification/Linked_List.thy ===== *)
theory Linked_List
  imports Heap_Cells
begin

text \<open>
  The doubly linked list behind \<open>OBJ_LIST\<close> (\<open>list_node_t\<close>, \<open>dlist_t\<close> and the
  \<open>dlist_*\<close> functions of \<open>src/src/core/kvdb.c\<close>), at the level of its \<open>prev\<close>/\<open>next\<close>
  pointers. The lemmas show that every operation is memory safe, keeps the
  representation (and leaks no node), and does to the list of values what the
  corresponding list operation does.
\<close>

subsection \<open>Data\<close>

record list_node =
  ln_value :: string
  ln_prev :: "addr option"
  ln_next :: "addr option"

record dlist =
  dl_heap :: "list_node heap"   \<comment> \<open>the nodes of this list\<close>
  dl_brk :: addr                \<comment> \<open>the address the next \<open>calloc\<close> returns\<close>
  dl_head :: "addr option"
  dl_tail :: "addr option"
  dl_len :: nat

definition dlist_new :: dlist where
  "dlist_new = \<lparr>dl_heap = (\<lambda>_. None), dl_brk = 0, dl_head = None, dl_tail = None, dl_len = 0\<rparr>"

subsection \<open>Operations\<close>

definition dlist_push_left :: "dlist \<Rightarrow> string \<Rightarrow> dlist res" where
  "dlist_push_left lst val =
     (let n = dl_brk lst; h = (dl_heap lst)(n \<mapsto> \<lparr>ln_value = val, ln_prev = None, ln_next = None\<rparr>) in
      case dl_head lst of
        None \<Rightarrow> Inr (lst\<lparr>dl_heap := h, dl_brk := Suc n, dl_head := Some n, dl_tail := Some n,
                         dl_len := Suc (dl_len lst)\<rparr>)
      | Some hp \<Rightarrow>
          bindr (store h n (\<lambda>x. x\<lparr>ln_next := Some hp\<rparr>)) (\<lambda>h.
          bindr (store h hp (\<lambda>x. x\<lparr>ln_prev := Some n\<rparr>)) (\<lambda>h.
          Inr (lst\<lparr>dl_heap := h, dl_brk := Suc n, dl_head := Some n,
                   dl_len := Suc (dl_len lst)\<rparr>))))"

definition dlist_push_right :: "dlist \<Rightarrow> string \<Rightarrow> dlist res" where
  "dlist_push_right lst val =
     (let n = dl_brk lst; h = (dl_heap lst)(n \<mapsto> \<lparr>ln_value = val, ln_prev = None, ln_next = None\<rparr>) in
      case dl_tail lst of
        None \<Rightarrow> Inr (lst\<lparr>dl_heap := h, dl_brk := Suc n, dl_head := Some n, dl_tail := Some n,
                         dl_len := Suc (dl_len lst)\<rparr>)
      | Some tp \<Rightarrow>
          bindr (store h n (\<lambda>x. x\<lparr>ln_prev := Some tp\<rparr>)) (\<lambda>h.
          bindr (store h tp (\<lambda>x. x\<lparr>ln_next := Some n\<rparr>)) (\<lambda>h.
          Inr (lst\<lparr>dl_heap := h, dl_brk := Suc n, dl_tail := Some n,
                   dl_len := Suc (dl_len lst)\<rparr>))))"

definition dlist_pop_left :: "dlist \<Rightarrow> (string option \<times> dlist) res" where
  "dlist_pop_left lst =
     (case dl_head lst of
        None \<Rightarrow> Inr (None, lst)
      | Some n \<Rightarrow>
          bindr (deref (dl_heap lst) n) (\<lambda>nd.
          bindr (case ln_next nd of
                   Some hp \<Rightarrow> bindr (store (dl_heap lst) hp (\<lambda>x. x\<lparr>ln_prev := None\<rparr>))
                                (\<lambda>h. Inr (h, dl_tail lst))
                 | None \<Rightarrow> Inr (dl_heap lst, None)) (\<lambda>(h, tp).
          bindr (release h n) (\<lambda>h.
          Inr (Some (ln_value nd),
               lst\<lparr>dl_heap := h, dl_head := ln_next nd, dl_tail := tp,
                   dl_len := dl_len lst - 1\<rparr>)))))"

definition dlist_pop_right :: "dlist \<Rightarrow> (string option \<times> dlist) res" where
  "dlist_pop_right lst =
     (case dl_tail lst of
        None \<Rightarrow> Inr (None, lst)
      | Some n \<Rightarrow>
          bindr (deref (dl_heap lst) n) (\<lambda>nd.
          bindr (case ln_prev nd of
                   Some tp \<Rightarrow> bindr (store (dl_heap lst) tp (\<lambda>x. x\<lparr>ln_next := None\<rparr>))
                                (\<lambda>h. Inr (h, dl_head lst))
                 | None \<Rightarrow> Inr (dl_heap lst, None)) (\<lambda>(h, hp).
          bindr (release h n) (\<lambda>h.
          Inr (Some (ln_value nd),
               lst\<lparr>dl_heap := h, dl_head := hp, dl_tail := ln_prev nd,
                   dl_len := dl_len lst - 1\<rparr>)))))"

text \<open>The loop \<open>for (i = 0; n && i < idx; ++i) n = n->next\<close>.\<close>

fun dl_walk :: "list_node heap \<Rightarrow> addr option \<Rightarrow> nat \<Rightarrow> addr option res" where
  "dl_walk h p 0 = Inr p"
| "dl_walk h None (Suc k) = Inr None"
| "dl_walk h (Some n) (Suc k) = bindr (deref h n) (\<lambda>nd. dl_walk h (ln_next nd) k)"

text \<open>The index computation shared by \<open>dlist_get\<close> and \<open>dlist_set\<close>: \<open>None\<close> is out of range.\<close>

definition dl_index :: "dlist \<Rightarrow> int \<Rightarrow> nat option" where
  "dl_index lst idx =
     (let len = int (dl_len lst); idx = (if idx < 0 then idx + len else idx) in
      if idx < 0 \<or> idx \<ge> len then None else Some (nat idx))"

definition dlist_get :: "dlist \<Rightarrow> int \<Rightarrow> string option res" where
  "dlist_get lst idx =
     (case dl_index lst idx of
        None \<Rightarrow> Inr None
      | Some i \<Rightarrow>
          bindr (dl_walk (dl_heap lst) (dl_head lst) i) (\<lambda>p.
          case p of
            None \<Rightarrow> Inr None
          | Some n \<Rightarrow> bindr (deref (dl_heap lst) n) (\<lambda>nd. Inr (Some (ln_value nd)))))"

text \<open>Returns \<open>0\<close> or \<open>-1\<close> and the list.\<close>

definition dlist_set :: "dlist \<Rightarrow> int \<Rightarrow> string \<Rightarrow> (int \<times> dlist) res" where
  "dlist_set lst idx val =
     (case dl_index lst idx of
        None \<Rightarrow> Inr (-1, lst)
      | Some i \<Rightarrow>
          bindr (dl_walk (dl_heap lst) (dl_head lst) i) (\<lambda>p.
          case p of
            None \<Rightarrow> Inr (-1, lst)
          | Some n \<Rightarrow>
              bindr (store (dl_heap lst) n (\<lambda>x. x\<lparr>ln_value := val\<rparr>)) (\<lambda>h.
              Inr (0, lst\<lparr>dl_heap := h\<rparr>))))"

text \<open>Unlinking one node, the body of the conditional in \<open>dlist_rem\<close>.\<close>

definition dlist_unlink :: "dlist \<Rightarrow> addr \<Rightarrow> dlist res" where
  "dlist_unlink lst n =
     bindr (deref (dl_heap lst) n) (\<lambda>nd.
     bindr (case ln_prev nd of
              Some p \<Rightarrow> bindr (store (dl_heap lst) p (\<lambda>x. x\<lparr>ln_next := ln_next nd\<rparr>))
                          (\<lambda>h. Inr (h, dl_head lst))
            | None \<Rightarrow> Inr (dl_heap lst, ln_next nd)) (\<lambda>(h, hp).
     bindr (case ln_next nd of
              Some q \<Rightarrow> bindr (store h q (\<lambda>x. x\<lparr>ln_prev := ln_prev nd\<rparr>))
                          (\<lambda>h. Inr (h, dl_tail lst))
            | None \<Rightarrow> Inr (h, ln_prev nd)) (\<lambda>(h, tp).
     bindr (release h n) (\<lambda>h.
     Inr (lst\<lparr>dl_heap := h, dl_head := hp, dl_tail := tp, dl_len := dl_len lst - 1\<rparr>)))))"

text \<open>
  The \<open>while (n)\<close> loop of \<open>dlist_rem\<close>; every iteration costs one unit of fuel. A list has
  at most as many nodes as addresses were ever handed out, so \<open>dl_brk + 1\<close> is enough.
\<close>

fun dl_rem_loop :: "nat \<Rightarrow> dlist \<Rightarrow> addr option \<Rightarrow> int \<Rightarrow> string \<Rightarrow> int \<Rightarrow> (int \<times> dlist) res" where
  "dl_rem_loop fuel lst None count val removed = Inr (removed, lst)"
| "dl_rem_loop 0 lst (Some n) count val removed = Inl Diverges"
| "dl_rem_loop (Suc fuel) lst (Some n) count val removed =
     bindr (deref (dl_heap lst) n) (\<lambda>nd.
     let nxt = ln_next nd in
     if strcmp (ln_value nd) val = 0
     then bindr (dlist_unlink lst n) (\<lambda>lst.
          let removed = removed + 1 in
          if count > 0 \<and> removed \<ge> count then Inr (removed, lst)
          else dl_rem_loop fuel lst nxt count val removed)
     else dl_rem_loop fuel lst nxt count val removed)"

definition dlist_rem :: "dlist \<Rightarrow> int \<Rightarrow> string \<Rightarrow> (int \<times> dlist) res" where
  "dlist_rem lst count val = dl_rem_loop (Suc (dl_brk lst)) lst (dl_head lst) count val 0"

text \<open>\<open>dlist_free\<close>: the heap that is left when all nodes have been freed.\<close>

fun dl_free_loop :: "nat \<Rightarrow> list_node heap \<Rightarrow> addr option \<Rightarrow> list_node heap res" where
  "dl_free_loop fuel h None = Inr h"
| "dl_free_loop 0 h (Some n) = Inl Diverges"
| "dl_free_loop (Suc fuel) h (Some n) =
     bindr (deref h n) (\<lambda>nd. bindr (release h n) (\<lambda>h. dl_free_loop fuel h (ln_next nd)))"

definition dlist_free :: "dlist \<Rightarrow> list_node heap res" where
  "dlist_free lst = dl_free_loop (Suc (dl_brk lst)) (dl_heap lst) (dl_head lst)"

lemmas dlist_defs [op_defs] = dlist_push_left_def dlist_push_right_def dlist_pop_left_def dlist_pop_right_def
  dlist_unlink_def


subsection \<open>Representation\<close>

text \<open>
  \<open>dseg h p as q\<close>: the nodes at the addresses \<open>as\<close> are chained in both directions, the
  first one's \<open>prev\<close> is \<open>p\<close> and the last one's \<open>next\<close> is \<open>q\<close>.
\<close>

fun dseg :: "list_node heap \<Rightarrow> addr option \<Rightarrow> addr list \<Rightarrow> addr option \<Rightarrow> bool" where
  "dseg h p [] q = True"
| "dseg h p (a # as) q =
     ((\<exists>v. h a = Some \<lparr>ln_value = v, ln_prev = p, ln_next = first_or q as\<rparr>) \<and> dseg h (Some a) as q)"

definition dl_vals :: "list_node heap \<Rightarrow> addr list \<Rightarrow> string list" where
  "dl_vals h as = map (\<lambda>a. ln_value (the (h a))) as"

text \<open>
  The list owns exactly the nodes \<open>as\<close>, in this order. The equation on the domain says
  that no node has leaked.
\<close>

definition dlist_rep :: "dlist \<Rightarrow> addr list \<Rightarrow> bool" where
  "dlist_rep l as \<longleftrightarrow>
     dseg (dl_heap l) None as None \<and> distinct as \<and> dom (dl_heap l) = set as \<and>
     (\<forall>a \<in> set as. a < dl_brk l) \<and>
     dl_head l = first_or None as \<and> dl_tail l = last_or None as \<and> dl_len l = length as"

definition dlist_inv :: "dlist \<Rightarrow> bool" where
  "dlist_inv l \<longleftrightarrow> (\<exists>as. dlist_rep l as)"

text \<open>The values in order, read by following \<open>next\<close> from the head.\<close>

fun dl_chain :: "list_node heap \<Rightarrow> addr option \<Rightarrow> nat \<Rightarrow> addr list" where
  "dl_chain h p 0 = []"
| "dl_chain h None (Suc k) = []"
| "dl_chain h (Some a) (Suc k) = a # dl_chain h (ln_next (the (h a))) k"

definition dlist_list :: "dlist \<Rightarrow> string list" where
  "dlist_list l = dl_vals (dl_heap l) (dl_chain (dl_heap l) (dl_head l) (dl_len l))"

lemma dl_vals_simps [simp]:
  "dl_vals h [] = []" "dl_vals h (a # as) = ln_value (the (h a)) # dl_vals h as"
  "dl_vals h (as @ bs) = dl_vals h as @ dl_vals h bs" "length (dl_vals h as) = length as"
  by (simp_all add: dl_vals_def)

lemma dl_vals_upd [simp]: "a \<notin> set as \<Longrightarrow> dl_vals (h(a := x)) as = dl_vals h as"
  by (auto simp: dl_vals_def)

lemma dl_vals_same: "h a = Some n \<Longrightarrow> ln_value m = ln_value n \<Longrightarrow> dl_vals (h(a \<mapsto> m)) as = dl_vals h as"
  by (auto simp: dl_vals_def)

lemma dseg_append [simp]:
  "dseg h p (as @ bs) q \<longleftrightarrow> dseg h p as (first_or q bs) \<and> dseg h (last_or p as) bs q"
  by (induction as arbitrary: p) auto

lemma dseg_upd [simp]: "a \<notin> set as \<Longrightarrow> dseg (h(a := x)) p as q = dseg h p as q"
  by (induction as arbitrary: p) auto

lemma dseg_chain: "dseg h p as None \<Longrightarrow> dl_chain h (first_or None as) (length as) = as"
  by (induction as arbitrary: p) auto

lemma dlist_repD:
  assumes "dlist_rep l as"
  shows "dlist_inv l" and "dlist_list l = dl_vals (dl_heap l) as"
  using assms dseg_chain [of "dl_heap l" None as]
  by (auto simp: dlist_inv_def dlist_list_def dlist_rep_def)

lemma dlist_rep_fresh: "dlist_rep l as \<Longrightarrow> dl_brk l \<notin> set as \<and> dl_heap l (dl_brk l) = None"
  by (auto simp: dlist_rep_def domIff)

subsection \<open>Correctness of the operations on the representation\<close>

lemma push_left_rep:
  assumes rep: "dlist_rep l as"
  shows "\<exists>l'. dlist_push_left l v = Inr l' \<and> dlist_rep l' (dl_brk l # as) \<and>
              dl_vals (dl_heap l') (dl_brk l # as) = v # dl_vals (dl_heap l) as"
proof (cases as)
  case Nil
  with rep show ?thesis by (auto simp: dlist_push_left_def dlist_rep_def Let_def)
next
  case (Cons a bs)
  with rep obtain w where a: "dl_heap l a = Some \<lparr>ln_value = w, ln_prev = None, ln_next = first_or None bs\<rparr>"
    by (auto simp: dlist_rep_def)
  from rep have "dl_brk l \<notin> set as" "dl_heap l (dl_brk l) = None"
    using dlist_rep_fresh by auto
  with rep Cons a show ?thesis
    by (auto simp: dlist_push_left_def dlist_rep_def Let_def)
qed

lemma push_right_rep:
  assumes rep: "dlist_rep l as"
  shows "\<exists>l'. dlist_push_right l v = Inr l' \<and> dlist_rep l' (as @ [dl_brk l]) \<and>
              dl_vals (dl_heap l') (as @ [dl_brk l]) = dl_vals (dl_heap l) as @ [v]"
proof (cases as rule: rev_cases)
  case Nil
  with rep show ?thesis by (auto simp: dlist_push_right_def dlist_rep_def Let_def)
next
  case (snoc bs a)
  with rep obtain w where a: "dl_heap l a = Some \<lparr>ln_value = w, ln_prev = last_or None bs, ln_next = None\<rparr>"
    by (auto simp: dlist_rep_def)
  from rep have "dl_brk l \<notin> set as" "dl_heap l (dl_brk l) = None"
    using dlist_rep_fresh by auto
  with rep snoc a show ?thesis
    by (auto simp: dlist_push_right_def dlist_rep_def Let_def)
qed

text \<open>Unlinking a node in the middle, or at either end.\<close>

lemma unlink_rep:
  assumes rep: "dlist_rep l (as @ a # bs)"
  shows "\<exists>l'. dlist_unlink l a = Inr l' \<and> dlist_rep l' (as @ bs) \<and>
              dl_brk l' = dl_brk l \<and> dl_vals (dl_heap l') (as @ bs) = dl_vals (dl_heap l) (as @ bs)"
proof -
  from rep obtain v where a: "dl_heap l a = Some \<lparr>ln_value = v, ln_prev = last_or None as, ln_next = first_or None bs\<rparr>"
    by (auto simp: dlist_rep_def)
  show ?thesis
  proof (cases as rule: rev_cases)
    case Nil
    then show ?thesis
    proof (cases bs)
      case Nil
      with \<open>as = []\<close> rep a show ?thesis by (auto simp: dlist_unlink_def dlist_rep_def dom_eq_singleton_conv)
    next
      case (Cons b cs)
      with \<open>as = []\<close> rep a show ?thesis
        by (auto simp: dlist_unlink_def dlist_rep_def)
    qed
  next
    case (snoc as' p)
    then show ?thesis
    proof (cases bs)
      case Nil
      with snoc rep a show ?thesis by (auto simp: dlist_unlink_def dlist_rep_def)
    next
      case (Cons b cs)
      with snoc rep a show ?thesis
        by (auto simp: dlist_unlink_def dlist_rep_def)
    qed
  qed
qed


text \<open>The two pops are unlinkings of the end nodes.\<close>

lemma pop_left_unlink:
  "dlist_rep l (a # bs) \<Longrightarrow>
     dlist_pop_left l = bindr (dlist_unlink l a) (\<lambda>l'. Inr (Some (ln_value (the (dl_heap l a))), l'))"
  by (cases bs) (auto simp: dlist_rep_def op_defs)

lemma pop_right_unlink:
  "dlist_rep l (as @ [a]) \<Longrightarrow>
     dlist_pop_right l = bindr (dlist_unlink l a) (\<lambda>l'. Inr (Some (ln_value (the (dl_heap l a))), l'))"
  by (cases as rule: rev_cases) (auto simp: dlist_rep_def op_defs)

lemma dl_walk_dseg:
  "dseg h p as None \<Longrightarrow> i < length as \<Longrightarrow> dl_walk h (first_or None as) i = Inr (Some (as ! i))"
proof (induction as arbitrary: p i)
  case (Cons a as)
  then show ?case by (cases i) auto
qed simp

lemma dseg_nth: "dseg h p as q \<Longrightarrow> i < length as \<Longrightarrow> \<exists>n. h (as ! i) = Some n"
proof (induction as arbitrary: p i)
  case (Cons a as)
  then show ?case by (cases i) auto
qed simp

lemma dl_index_Some:
  "dl_index l idx = Some i \<Longrightarrow> i < dl_len l \<and> int i = (if idx < 0 then idx + int (dl_len l) else idx)"
  by (auto simp: dl_index_def Let_def split: if_splits)

lemma dl_index_None:
  "dl_index l idx = None \<longleftrightarrow> idx < - int (dl_len l) \<or> int (dl_len l) \<le> idx"
  by (auto simp: dl_index_def Let_def)

text \<open>Changing the value of a node keeps the chain.\<close>

lemma dseg_set_value:
  "dseg h p as q \<Longrightarrow> h a = Some n \<Longrightarrow> dseg (h(a \<mapsto> n\<lparr>ln_value := v\<rparr>)) p as q"
  by (induction as arbitrary: p) auto

lemma dl_vals_set_value:
  "distinct as \<Longrightarrow> i < length as \<Longrightarrow> ln_value m = v \<Longrightarrow>
     dl_vals (h(as ! i \<mapsto> m)) as = (dl_vals h as)[i := v]"
  by (rule nth_equalityI) (auto simp: dl_vals_def nth_list_update nth_eq_iff_index_eq)

lemma set_rep:
  assumes rep: "dlist_rep l as" and i: "dl_index l idx = Some i"
  shows "\<exists>l'. dlist_set l idx v = Inr (0, l') \<and> dlist_rep l' as \<and>
              dl_vals (dl_heap l') as = (dl_vals (dl_heap l) as)[i := v]"
proof -
  from rep i have ln: "i < length as" and seg: "dseg (dl_heap l) None as None"
    and hp: "dl_head l = first_or None as"
    by (auto simp: dlist_rep_def dest: dl_index_Some)
  from dl_walk_dseg [OF seg ln] hp have w: "dl_walk (dl_heap l) (dl_head l) i = Inr (Some (as ! i))"
    by simp
  from dseg_nth [OF seg ln] obtain n where n: "dl_heap l (as ! i) = Some n" ..
  from rep ln n have "dlist_rep (l\<lparr>dl_heap := (dl_heap l)(as ! i \<mapsto> n\<lparr>ln_value := v\<rparr>)\<rparr>) as"
    by (auto simp: dlist_rep_def dseg_set_value)
  with rep ln n i w show ?thesis
    by (auto simp: dlist_set_def dlist_rep_def dl_vals_set_value)
qed

lemma get_rep:
  assumes rep: "dlist_rep l as" and i: "dl_index l idx = Some i"
  shows "dlist_get l idx = Inr (Some (dl_vals (dl_heap l) as ! i))"
proof -
  from rep i have ln: "i < length as" and seg: "dseg (dl_heap l) None as None"
    and hp: "dl_head l = first_or None as"
    by (auto simp: dlist_rep_def dest: dl_index_Some)
  from dl_walk_dseg [OF seg ln] hp have w: "dl_walk (dl_heap l) (dl_head l) i = Inr (Some (as ! i))"
    by simp
  from dseg_nth [OF seg ln] obtain n where n: "dl_heap l (as ! i) = Some n" ..
  with ln i w show ?thesis by (simp add: dlist_get_def dl_vals_def)
qed

subsection \<open>Removal by value\<close>

text \<open>
  What \<open>dlist_rem\<close> removes: with a positive \<open>count\<close> the first \<open>count\<close> occurrences, and
  otherwise (zero or negative) every occurrence. \<open>rem_count\<close> is the number removed.
\<close>

fun rem_list :: "int \<Rightarrow> string \<Rightarrow> string list \<Rightarrow> string list" where
  "rem_list count val [] = []"
| "rem_list count val (x # xs) =
     (if x = val then (if count = 1 then xs else rem_list (count - 1) val xs)
      else x # rem_list count val xs)"

definition rem_count :: "int \<Rightarrow> string \<Rightarrow> string list \<Rightarrow> int" where
  "rem_count count val xs =
     (if count > 0 then min count (int (count_list xs val)) else int (count_list xs val))"

lemma rem_list_nonpos: "count \<le> 0 \<Longrightarrow> rem_list count val xs = filter (\<lambda>x. x \<noteq> val) xs"
  by (induction xs arbitrary: count) auto

lemma rem_count_simps [simp]:
  "rem_count c val [] = 0"
  "x \<noteq> val \<Longrightarrow> rem_count c val (x # xs) = rem_count c val xs"
  "rem_count 1 val (val # xs) = 1"
  "0 < c \<Longrightarrow> c \<noteq> 1 \<Longrightarrow> rem_count c val (val # xs) = 1 + rem_count (c - 1) val xs"
  "c \<le> 0 \<Longrightarrow> rem_count c val (val # xs) = 1 + rem_count c val xs"
  by (auto simp: rem_count_def)

text \<open>\<open>rem_left\<close>: how many more occurrences the loop may remove; \<open>0\<close> stands for no limit.\<close>

definition rem_left :: "int \<Rightarrow> int \<Rightarrow> int" where
  "rem_left count removed = (if count > 0 then count - removed else 0)"

lemma rem_loop_rep:
  assumes "dlist_rep l (as @ bs)" and "length bs \<le> fuel" and "count \<le> 0 \<or> removed < count"
  shows "\<exists>l' cs. dl_rem_loop fuel l (first_or None bs) count val removed =
             Inr (removed + rem_count (rem_left count removed) val (dl_vals (dl_heap l) bs), l') \<and>
           dlist_rep l' cs \<and> dl_vals (dl_heap l') cs =
             dl_vals (dl_heap l) as @ rem_list (rem_left count removed) val (dl_vals (dl_heap l) bs)"
  using assms
proof (induction bs arbitrary: l as fuel removed)
  case Nil
  then show ?case by (cases fuel) auto
next
  case (Cons b bs)
  then obtain f where fuel: "fuel = Suc f" and f: "length bs \<le> f"
    by (cases fuel) auto
  from Cons.prems(1) obtain v where
    b: "dl_heap l b = Some \<lparr>ln_value = v, ln_prev = last_or None as, ln_next = first_or None bs\<rparr>"
    by (auto simp: dlist_rep_def)
  show ?case
  proof (cases "v = val")
    case False
    with Cons.IH [of l "as @ [b]" f removed] Cons.prems b fuel f show ?thesis by auto
  next
    case True
    from unlink_rep [OF Cons.prems(1)] obtain l' where l': "dlist_unlink l b = Inr l'"
      and rep': "dlist_rep l' (as @ bs)"
      and vals': "dl_vals (dl_heap l') (as @ bs) = dl_vals (dl_heap l) (as @ bs)" by blast
    from vals' have eqs: "dl_vals (dl_heap l') as = dl_vals (dl_heap l) as"
      "dl_vals (dl_heap l') bs = dl_vals (dl_heap l) bs" by auto
    show ?thesis
    proof (cases "count > 0 \<and> removed + 1 \<ge> count")
      case True
      with Cons.prems(3) have "rem_left count removed = 1" by (simp add: rem_left_def)
      with True \<open>v = val\<close> b l' rep' eqs fuel show ?thesis
        by (auto intro!: exI [of _ "as @ bs"])
    next
      case False
      then have left: "rem_left count (removed + 1) = (if count > 0 then rem_left count removed - 1 else 0)"
        by (simp add: rem_left_def)
      from False have "count \<le> 0 \<or> removed + 1 < count" by linarith
      from Cons.IH [OF rep' f this] False \<open>v = val\<close> b l' eqs fuel show ?thesis
        by (auto simp: left) (auto simp: rem_left_def rem_list_nonpos split: if_splits)
    qed
  qed
qed

lemma rem_rep:
  assumes rep: "dlist_rep l as"
  shows "\<exists>l' cs. dlist_rem l count val = Inr (rem_count count val (dl_vals (dl_heap l) as), l') \<and>
           dlist_rep l' cs \<and> dl_vals (dl_heap l') cs = rem_list count val (dl_vals (dl_heap l) as)"
proof -
  from rep have "set as \<subseteq> {..<dl_brk l}" "distinct as"
    by (auto simp: dlist_rep_def)
  then have "length as \<le> dl_brk l"
    by (metis card_lessThan card_mono distinct_card finite_lessThan)
  moreover have "rem_count (rem_left count 0) val xs = rem_count count val xs"
    "rem_list (rem_left count 0) val xs = rem_list count val xs" for xs
    by (auto simp: rem_left_def rem_count_def rem_list_nonpos)
  moreover from rep have "dl_head l = first_or None as" by (simp add: dlist_rep_def)
  moreover have "count \<le> 0 \<or> 0 < count" by linarith
  ultimately show ?thesis
    using rem_loop_rep [of l "[]" as "Suc (dl_brk l)" count 0 val] rep
    by (simp add: dlist_rem_def)
qed

text \<open>Freeing the list releases every node and nothing twice.\<close>

lemma dl_free_loop_dseg:
  "dseg h p as None \<Longrightarrow> distinct as \<Longrightarrow> length as \<le> fuel \<Longrightarrow>
     dl_free_loop fuel h (first_or None as) = Inr (h |` (- set as))"
proof (induction as arbitrary: h p fuel)
  case Nil
  then show ?case by (cases fuel) auto
next
  case (Cons a as)
  then obtain f where f: "fuel = Suc f" "length as \<le> f" by (cases fuel) auto
  from Cons.prems have "dseg (h(a := None)) (Some a) as None" "distinct as" by auto
  note IH = Cons.IH [OF this f(2)]
  have "(h(a := None)) |` (- set as) = h |` (- set (a # as))"
    by (auto simp: restrict_map_def)
  with IH have "dl_free_loop f (h(a := None)) (first_or None as) = Inr (h |` (- set (a # as)))"
    by (simp only:)
  with Cons.prems f(1) show ?case by auto
qed

lemma free_rep:
  assumes rep: "dlist_rep l as"
  shows "dlist_free l = Inr (\<lambda>_. None)"
proof -
  from rep have seg: "dseg (dl_heap l) None as None" and dist: "distinct as"
    and d: "dom (dl_heap l) = set as" and brk: "set as \<subseteq> {..<dl_brk l}"
    and hp: "dl_head l = first_or None as"
    by (auto simp: dlist_rep_def)
  from brk dist have "length as \<le> Suc (dl_brk l)"
    by (metis card_lessThan card_mono distinct_card finite_lessThan le_Suc_eq)
  from dl_free_loop_dseg [OF seg dist this] hp
  have "dlist_free l = Inr (dl_heap l |` (- set as))"
    by (simp add: dlist_free_def)
  moreover have "dl_heap l |` (- set as) = (\<lambda>_. None)"
    by (rule ext) (auto simp: restrict_map_def d [symmetric])
  ultimately show ?thesis by simp
qed

subsection \<open>The double-ended queue contract\<close>

text \<open>
  What the list commands rely on: a double-ended queue with its content as a list. The
  laws promise that the operations return (no fault), keep the invariant and act on the
  content as expected.
\<close>

locale deque =
  fixes inv :: "'d \<Rightarrow> bool"
    and content :: "'d \<Rightarrow> 'v list"
    and empty :: 'd
    and push_left :: "'d \<Rightarrow> 'v \<Rightarrow> 'd res"
    and push_right :: "'d \<Rightarrow> 'v \<Rightarrow> 'd res"
    and pop_left :: "'d \<Rightarrow> ('v option \<times> 'd) res"
    and pop_right :: "'d \<Rightarrow> ('v option \<times> 'd) res"
  assumes empty_law: "inv empty \<and> content empty = []"
    and push_left_law: "inv d \<Longrightarrow> \<exists>d'. push_left d v = Inr d' \<and> inv d' \<and> content d' = v # content d"
    and push_right_law: "inv d \<Longrightarrow> \<exists>d'. push_right d v = Inr d' \<and> inv d' \<and> content d' = content d @ [v]"
    and pop_left_law: "inv d \<Longrightarrow> \<exists>d'. pop_left d =
          Inr (if content d = [] then None else Some (hd (content d)), d') \<and>
          inv d' \<and> content d' = tl (content d)"
    and pop_right_law: "inv d \<Longrightarrow> \<exists>d'. pop_right d =
          Inr (if content d = [] then None else Some (last (content d)), d') \<and>
          inv d' \<and> content d' = butlast (content d)"
begin

text \<open>Pushing a sequence of values one after the other.\<close>

fun push_all :: "('d \<Rightarrow> 'v \<Rightarrow> 'd res) \<Rightarrow> 'd \<Rightarrow> 'v list \<Rightarrow> 'd res" where
  "push_all push d [] = Inr d"
| "push_all push d (v # vs) = bindr (push d v) (\<lambda>d'. push_all push d' vs)"

lemma push_all_left:
  "inv d \<Longrightarrow> \<exists>d'. push_all push_left d vs = Inr d' \<and> inv d' \<and> content d' = rev vs @ content d"
proof (induction vs arbitrary: d)
  case (Cons v vs)
  from push_left_law [OF Cons.prems] obtain d1 where
    "push_left d v = Inr d1" "inv d1" "content d1 = v # content d" by blast
  with Cons.IH [of d1] show ?case by auto
qed simp

text \<open>
  Pushing left and popping right is first in, first out: a queue that held \<open>x\<close> at its
  right end hands out \<open>x\<close>, whatever was pushed meanwhile.
\<close>

lemma fifo:
  assumes "inv d" and "content d = xs @ [x]"
  shows "\<exists>d1 d2. push_all push_left d vs = Inr d1 \<and> pop_right d1 = Inr (Some x, d2) \<and>
            inv d2 \<and> content d2 = rev vs @ xs"
proof -
  from push_all_left [OF assms(1), of vs] obtain d1 where
    d1: "push_all push_left d vs = Inr d1" "inv d1" "content d1 = rev vs @ xs @ [x]"
    using assms(2) by auto
  from pop_right_law [OF d1(2)] d1(3) obtain d2 where
    "pop_right d1 = Inr (Some x, d2)" "inv d2" "content d2 = rev vs @ xs"
    by (auto simp: butlast_append)
  with d1 show ?thesis by blast
qed

end

lemma dlist_repI:
  assumes "dlist_inv l"
  obtains as where "dlist_rep l as" and "dlist_list l = dl_vals (dl_heap l) as"
  using assms dlist_repD(2) by (auto simp: dlist_inv_def)

lemma dlist_push_left_ok:
  "dlist_inv l \<Longrightarrow> \<exists>l'. dlist_push_left l v = Inr l' \<and> dlist_inv l' \<and> dlist_list l' = v # dlist_list l"
  by (erule dlist_repI) (use push_left_rep dlist_repD in metis)

lemma dlist_push_right_ok:
  "dlist_inv l \<Longrightarrow> \<exists>l'. dlist_push_right l v = Inr l' \<and> dlist_inv l' \<and> dlist_list l' = dlist_list l @ [v]"
  by (erule dlist_repI) (use push_right_rep dlist_repD in metis)

lemma dlist_pop_left_ok:
  assumes "dlist_inv l"
  shows "\<exists>l'. dlist_pop_left l = Inr (if dlist_list l = [] then None else Some (hd (dlist_list l)), l') \<and>
              dlist_inv l' \<and> dlist_list l' = tl (dlist_list l)"
proof -
  from assms obtain as where rep: "dlist_rep l as" and xs: "dlist_list l = dl_vals (dl_heap l) as"
    by (rule dlist_repI)
  show ?thesis
  proof (cases as)
    case Nil
    with assms rep xs show ?thesis by (auto simp: dlist_pop_left_def dlist_rep_def)
  next
    case (Cons a bs)
    with rep unlink_rep [of l "[]" a bs] obtain l' where
      l': "dlist_unlink l a = Inr l'" "dlist_rep l' bs" "dl_vals (dl_heap l') bs = dl_vals (dl_heap l) bs"
      by auto
    with rep xs Cons show ?thesis by (auto simp: pop_left_unlink dlist_repD simp del: bindr_eq_Inr)
  qed
qed

lemma dlist_pop_right_ok:
  assumes "dlist_inv l"
  shows "\<exists>l'. dlist_pop_right l = Inr (if dlist_list l = [] then None else Some (last (dlist_list l)), l') \<and>
              dlist_inv l' \<and> dlist_list l' = butlast (dlist_list l)"
proof -
  from assms obtain as where rep: "dlist_rep l as" and xs: "dlist_list l = dl_vals (dl_heap l) as"
    by (rule dlist_repI)
  show ?thesis
  proof (cases as rule: rev_cases)
    case Nil
    with assms rep xs show ?thesis by (auto simp: dlist_pop_right_def dlist_rep_def)
  next
    case (snoc bs a)
    with rep unlink_rep [of l bs a "[]"] obtain l' where
      l': "dlist_unlink l a = Inr l'" "dlist_rep l' bs" "dl_vals (dl_heap l') bs = dl_vals (dl_heap l) bs"
      by auto
    with rep xs snoc show ?thesis by (auto simp: pop_right_unlink dlist_repD simp del: bindr_eq_Inr)
  qed
qed

lemma dlist_new_ok: "dlist_inv dlist_new \<and> dlist_list dlist_new = []"
proof -
  have "dlist_rep dlist_new []" by (simp add: dlist_rep_def dlist_new_def)
  then show ?thesis using dlist_repD by fastforce
qed

interpretation dl: deque dlist_inv dlist_list dlist_new
  dlist_push_left dlist_push_right dlist_pop_left dlist_pop_right
  by unfold_locales
    (rule dlist_new_ok, erule dlist_push_left_ok, erule dlist_push_right_ok,
     erule dlist_pop_left_ok, erule dlist_pop_right_ok)

text \<open>The remaining operations, on the content.\<close>

lemma dlist_len_ok: "dlist_inv l \<Longrightarrow> dl_len l = length (dlist_list l)"
  by (erule dlist_repI) (simp add: dlist_rep_def)

lemma dlist_get_ok:
  assumes "dlist_inv l"
  shows "dlist_get l idx = Inr (map_option (\<lambda>i. dlist_list l ! i) (dl_index l idx))"
proof (cases "dl_index l idx")
  case None
  then show ?thesis by (simp add: dlist_get_def)
next
  case (Some i)
  with assms show ?thesis by (auto elim!: dlist_repI simp: get_rep)
qed

lemma dlist_set_ok:
  assumes "dlist_inv l"
  shows "\<exists>l'. dlist_set l idx v = Inr (if dl_index l idx = None then -1 else 0, l') \<and> dlist_inv l' \<and>
           dlist_list l' = (case dl_index l idx of None \<Rightarrow> dlist_list l | Some i \<Rightarrow> (dlist_list l)[i := v])"
proof (cases "dl_index l idx")
  case None
  with assms show ?thesis by (simp add: dlist_set_def)
next
  case (Some i)
  from assms obtain as where rep: "dlist_rep l as" and xs: "dlist_list l = dl_vals (dl_heap l) as"
    by (rule dlist_repI)
  from set_rep [OF rep Some] Some xs show ?thesis using dlist_repD by fastforce
qed

lemma dlist_rem_ok:
  "dlist_inv l \<Longrightarrow> \<exists>l'. dlist_rem l count val = Inr (rem_count count val (dlist_list l), l') \<and>
     dlist_inv l' \<and> dlist_list l' = rem_list count val (dlist_list l)"
  by (erule dlist_repI) (use rem_rep dlist_repD in metis)

lemma rem_list_split:
  "0 < count \<Longrightarrow> \<exists>xs ys. zs = xs @ ys \<and> rem_list count val zs = filter (\<lambda>x. x \<noteq> val) xs @ ys \<and>
     int (count_list xs val) = min count (int (count_list zs val))"
proof (induction zs arbitrary: count)
  case (Cons z zs)
  show ?case
  proof (cases "z = val \<and> count = 1")
    case True
    then show ?thesis by (intro exI [of _ "[z]"] exI [of _ zs]) simp
  next
    case False
    define c where "c = (if z = val then count - 1 else count)"
    from False Cons.prems have "0 < c" by (auto simp: c_def)
    from Cons.IH [OF this] obtain xs ys where "zs = xs @ ys" "rem_list c val zs = filter (\<lambda>x. x \<noteq> val) xs @ ys"
      "int (count_list xs val) = min c (int (count_list zs val))" by blast
    with False show ?thesis by (intro exI [of _ "z # xs"] exI [of _ ys]) (auto simp: c_def)
  qed
qed simp

end
