(* ===== verification/Chained_Table.thy ===== *)
theory Chained_Table
  imports Hashing
begin

text \<open>
  The chained hash table behind \<open>OBJ_SET\<close> and \<open>OBJ_HASH\<close> (\<open>sht_node_t\<close>, \<open>simple_ht_t\<close>
  and the \<open>ht_*\<close> functions of \<open>src/src/core/kvdb.c\<close>). A bucket is a singly linked chain
  owned by the table, modelled as a list of nodes; a pointer to a chain position is the
  bucket index with the position in the chain, the chain's length standing for the null
  pointer at its end. The lemmas show that the table implements a finite map through
  every rehashing.
\<close>

subsection \<open>Data\<close>

record sht_node =
  sn_key :: string
  sn_value :: "string option"   \<comment> \<open>\<open>NULL\<close> for a set\<close>

record simple_ht =
  ht_buckets :: "sht_node list list"
  ht_cap :: nat
  ht_count :: nat

definition ht_create :: simple_ht where
  "ht_create = \<lparr>ht_buckets = replicate 16 [], ht_cap = 16, ht_count = 0\<rparr>"

subsection \<open>Operations\<close>

fun chain_pos :: "string \<Rightarrow> sht_node list \<Rightarrow> nat" where
  "chain_pos key [] = 0"
| "chain_pos key (n # ns) = (if strcmp (sn_key n) key = 0 then 0 else Suc (chain_pos key ns))"

definition ht_find_prev :: "simple_ht \<Rightarrow> string \<Rightarrow> nat \<times> nat" where
  "ht_find_prev ht key =
     (let idx = hash_slot key (ht_cap ht) in (idx, chain_pos key (ht_buckets ht ! idx)))"

text \<open>The node at a chain position, \<open>*pp\<close>.\<close>

definition ht_at :: "simple_ht \<Rightarrow> nat \<times> nat \<Rightarrow> sht_node option" where
  "ht_at ht pp = (case pp of (i, j) \<Rightarrow>
     if j < length (ht_buckets ht ! i) then Some (ht_buckets ht ! i ! j) else None)"

text \<open>
  \<open>ht_add\<close> after its call of \<open>ht_resize\<close>: \<open>1\<close> when a node was appended, \<open>0\<close> when the key
  was there.
\<close>

definition ht_put :: "simple_ht \<Rightarrow> string \<Rightarrow> string option \<Rightarrow> bool \<Rightarrow> int \<times> simple_ht" where
  "ht_put ht key val replace =
     (case ht_find_prev ht key of (i, j) \<Rightarrow>
      let b = ht_buckets ht ! i in
      if ht_at ht (i, j) \<noteq> None then
        if \<not> replace then (0, ht)
        else (0, ht\<lparr>ht_buckets := (ht_buckets ht)[i := b[j := (b ! j)\<lparr>sn_value := val\<rparr>]]\<rparr>)
      else (1, ht\<lparr>ht_buckets := (ht_buckets ht)[i := b @ [\<lparr>sn_key = key, sn_value = val\<rparr>]],
                  ht_count := Suc (ht_count ht)\<rparr>))"

type_synonym ht_adder = "simple_ht \<Rightarrow> string \<Rightarrow> string option \<Rightarrow> bool \<Rightarrow> (int \<times> simple_ht) res"

text \<open>The reinsertion loop of \<open>ht_resize\<close>, over the nodes of the old buckets in order.\<close>

fun ht_rehash :: "ht_adder \<Rightarrow> sht_node list \<Rightarrow> simple_ht \<Rightarrow> simple_ht res" where
  "ht_rehash add [] ht = Inr ht"
| "ht_rehash add (n # ns) ht =
     bindr (add ht (sn_key n) (sn_value n) False) (\<lambda>(_, ht). ht_rehash add ns ht)"

text \<open>\<open>(double)count / cap < 0.75\<close> is exact: \<open>cap\<close> is a power of two.\<close>

definition ht_resize :: "ht_adder \<Rightarrow> simple_ht \<Rightarrow> simple_ht res" where
  "ht_resize add ht =
     (if 4 * ht_count ht < 3 * ht_cap ht then Inr ht
      else ht_rehash add (concat (ht_buckets ht))
             \<lparr>ht_buckets = replicate (2 * ht_cap ht) [], ht_cap = 2 * ht_cap ht, ht_count = 0\<rparr>)"

text \<open>
  \<open>ht_add\<close> and \<open>ht_resize\<close> call each other. The first argument bounds the nesting depth;
  running out of it is \<open>Diverges\<close>. On tables that satisfy the invariant the calls made by
  a resize never resize again, so depth \<open>2\<close> is enough (\<open>ht_add_ok\<close>).
\<close>

primrec ht_add_f :: "nat \<Rightarrow> ht_adder" where
  "ht_add_f 0 = (\<lambda>ht key val replace. Inl Diverges)"
| "ht_add_f (Suc d) = (\<lambda>ht key val replace.
     bindr (ht_resize (ht_add_f d) ht) (\<lambda>ht. Inr (ht_put ht key val replace)))"

definition ht_add :: ht_adder where
  "ht_add = ht_add_f 2"

definition ht_remove :: "simple_ht \<Rightarrow> string \<Rightarrow> int \<times> simple_ht" where
  "ht_remove ht key =
     (case ht_find_prev ht key of (i, j) \<Rightarrow>
      let b = ht_buckets ht ! i in
      if ht_at ht (i, j) = None then (0, ht)
      else (1, ht\<lparr>ht_buckets := (ht_buckets ht)[i := take j b @ drop (Suc j) b],
                  ht_count := ht_count ht - 1\<rparr>))"

definition ht_exists :: "simple_ht \<Rightarrow> string \<Rightarrow> int" where
  "ht_exists ht key = (if ht_at ht (ht_find_prev ht key) \<noteq> None then 1 else 0)"

text \<open>\<open>None\<close> is the null pointer: the key is absent or its value is \<open>NULL\<close>.\<close>

definition ht_get :: "simple_ht \<Rightarrow> string \<Rightarrow> string option" where
  "ht_get ht key = (case ht_at ht (ht_find_prev ht key) of None \<Rightarrow> None | Some n \<Rightarrow> sn_value n)"

text \<open>The output arrays hold \<open>count\<close> strings; the loops stop filling them there.\<close>

definition ht_keys :: "simple_ht \<Rightarrow> string list" where
  "ht_keys ht = take (ht_count ht) (map sn_key (concat (ht_buckets ht)))"

definition ht_items :: "simple_ht \<Rightarrow> string list" where
  "ht_items ht =
     take (ht_count ht)
       (map (\<lambda>n. case sn_value n of None \<Rightarrow> '''' | Some v \<Rightarrow> v) (concat (ht_buckets ht)))"


subsection \<open>Invariant and abstraction\<close>

definition chain_map :: "sht_node list \<Rightarrow> string \<rightharpoonup> string option" where
  "chain_map b = map_of (map (\<lambda>n. (sn_key n, sn_value n)) b)"

text \<open>The finite map a table stands for; the value is itself optional (\<open>NULL\<close> in a set).\<close>

definition ht_map :: "simple_ht \<Rightarrow> string \<rightharpoonup> string option" where
  "ht_map ht k = chain_map (ht_buckets ht ! hash_slot k (ht_cap ht)) k"

text \<open>Every node is in the bucket of its key, keys are unique, \<open>count\<close> counts the nodes.\<close>

definition ht_wf :: "simple_ht \<Rightarrow> bool" where
  "ht_wf ht \<longleftrightarrow>
     0 < ht_cap ht \<and> length (ht_buckets ht) = ht_cap ht \<and>
     (\<forall>i < ht_cap ht. (\<forall>n \<in> set (ht_buckets ht ! i). hash_slot (sn_key n) (ht_cap ht) = i) \<and>
                      distinct (map sn_key (ht_buckets ht ! i))) \<and>
     ht_count ht = length (concat (ht_buckets ht))"

text \<open>The load never exceeds three quarters.\<close>

definition ht_inv :: "simple_ht \<Rightarrow> bool" where
  "ht_inv ht \<longleftrightarrow> ht_wf ht \<and> 4 dvd ht_cap ht \<and> 4 * ht_count ht \<le> 3 * ht_cap ht"

lemma chain_map_simps [simp]:
  "chain_map [] = Map.empty"
  "chain_map (n # b) = (chain_map b)(sn_key n \<mapsto> sn_value n)"
  "chain_map (b @ c) = chain_map c ++ chain_map b"
  by (simp_all add: chain_map_def)

lemma dom_chain_map: "dom (chain_map b) = sn_key ` set b"
  by (auto simp: chain_map_def dom_map_of_conv_image_fst image_image)

lemma chain_pos_less: "chain_pos k b < length b \<longleftrightarrow> k \<in> dom (chain_map b)"
  by (induction b) auto

lemma chain_pos_nth:
  "k \<in> dom (chain_map b) \<Longrightarrow> sn_key (b ! chain_pos k b) = k \<and> chain_map b k = Some (sn_value (b ! chain_pos k b))"
  by (induction b) (auto split: if_splits)

lemma chain_replace:
  "k \<in> dom (chain_map b) \<Longrightarrow>
     chain_map (b[chain_pos k b := (b ! chain_pos k b)\<lparr>sn_value := v\<rparr>]) = (chain_map b)(k \<mapsto> v)"
proof (induction b)
  case (Cons n b)
  show ?case
  proof (cases "sn_key n = k")
    case True
    then show ?thesis by auto
  next
    case False
    with Cons.prems have "k \<in> dom (chain_map b)" by auto
    from Cons.IH [OF this] False show ?thesis by (auto intro!: ext)
  qed
qed simp

lemma chain_replace_keys:
  "map sn_key (b[j := (b ! j)\<lparr>sn_value := v\<rparr>]) = map sn_key b"
  by (cases "j < length b") (simp_all add: map_update list_update_beyond, metis length_map list_update_id nth_map)

lemma chain_delete:
  "distinct (map sn_key b) \<Longrightarrow>
     chain_map (take (chain_pos k b) b @ drop (Suc (chain_pos k b)) b) = (chain_map b)(k := None)"
proof (induction b)
  case (Cons n b)
  then have "k \<notin> dom (chain_map b)" if "sn_key n = k"
    using that by (auto simp: dom_chain_map)
  with Cons show ?case
    by (auto simp: fun_upd_twist intro!: ext simp del: chain_map_simps(3))
qed simp

lemma length_concat_update:
  "i < length bs \<Longrightarrow> length (concat (bs[i := b])) + length (bs ! i) = length (concat bs) + length b"
proof (induction bs arbitrary: i)
  case (Cons a bs)
  then show ?case by (cases i) auto
qed simp

text \<open>Looking a key up.\<close>

lemma ht_at_find: "ht_at ht (ht_find_prev ht k) = None \<longleftrightarrow> ht_map ht k = None"
  by (auto simp: ht_at_def ht_find_prev_def Let_def ht_map_def chain_pos_less domIff)

lemma ht_at_find_Some:
  "ht_at ht (ht_find_prev ht k) = Some n \<Longrightarrow> sn_key n = k \<and> ht_map ht k = Some (sn_value n)"
  using chain_pos_nth [of k]
  by (auto simp: ht_at_def ht_find_prev_def Let_def ht_map_def chain_pos_less split: if_splits)

lemma ht_exists_ok: "ht_exists ht k = (if k \<in> dom (ht_map ht) then 1 else 0)"
  by (auto simp: ht_exists_def ht_at_find domIff)

lemma ht_get_ok: "ht_get ht k = Option.bind (ht_map ht k) id"
  using ht_at_find_Some [of ht k] ht_at_find [of ht k]
  by (cases "ht_at ht (ht_find_prev ht k)") (auto simp: ht_get_def)

text \<open>Replacing one bucket.\<close>

lemma ht_map_bucket:
  assumes "ht_wf ht" and "i = hash_slot k (ht_cap ht)"
    and "chain_map b = (chain_map (ht_buckets ht ! i))(k := x)"
  shows "ht_map (ht\<lparr>ht_buckets := (ht_buckets ht)[i := b], ht_count := c\<rparr>) = (ht_map ht)(k := x)"
proof
  fix k'
  have i: "i < length (ht_buckets ht)"
    using assms(1,2) by (simp add: ht_wf_def)
  show "ht_map (ht\<lparr>ht_buckets := (ht_buckets ht)[i := b], ht_count := c\<rparr>) k' = ((ht_map ht)(k := x)) k'"
    using i assms(2,3) by (cases "hash_slot k' (ht_cap ht) = i") (auto simp: ht_map_def)
qed

lemma ht_wf_bucket:
  assumes "ht_wf ht" and "i < ht_cap ht"
    and "\<forall>n \<in> set b. hash_slot (sn_key n) (ht_cap ht) = i" and "distinct (map sn_key b)"
    and "c + length (ht_buckets ht ! i) = ht_count ht + length b"
  shows "ht_wf (ht\<lparr>ht_buckets := (ht_buckets ht)[i := b], ht_count := c\<rparr>)"
proof -
  from assms(1,2) have i: "i < length (ht_buckets ht)" by (simp add: ht_wf_def)
  from length_concat_update [OF i, of b] assms(1,5)
  have "c = length (concat ((ht_buckets ht)[i := b]))" by (simp add: ht_wf_def)
  with assms i show ?thesis by (auto simp: ht_wf_def nth_list_update)
qed


subsection \<open>Correctness\<close>

lemma ht_wf_slot:
  assumes "ht_wf ht" and "i < ht_cap ht"
  shows "\<forall>n \<in> set (ht_buckets ht ! i). hash_slot (sn_key n) (ht_cap ht) = i"
    and "distinct (map sn_key (ht_buckets ht ! i))"
  using assms by (auto simp: ht_wf_def)

lemma ht_put_present:
  assumes wf: "ht_wf ht" and k: "k \<in> dom (ht_map ht)"
  shows "\<exists>ht'. ht_put ht k v True = (0, ht') \<and> ht_wf ht' \<and> ht_map ht' = (ht_map ht)(k \<mapsto> v) \<and>
           ht_cap ht' = ht_cap ht \<and> ht_count ht' = ht_count ht"
proof -
  define i where "i = hash_slot k (ht_cap ht)"
  define b where "b = ht_buckets ht ! i"
  define b' where "b' = b[chain_pos k b := (b ! chain_pos k b)\<lparr>sn_value := v\<rparr>]"
  define ht' where "ht' = ht\<lparr>ht_buckets := (ht_buckets ht)[i := b'], ht_count := ht_count ht\<rparr>"
  have i: "i < ht_cap ht" using wf by (simp add: i_def ht_wf_def)
  have keys: "map sn_key b' = map sn_key b" unfolding b'_def by (rule chain_replace_keys)
  then have "sn_key ` set b' = sn_key ` set b" by (metis list.set_map)
  with ht_wf_slot(1) [OF wf i] have "\<forall>n \<in> set b'. hash_slot (sn_key n) (ht_cap ht) = i"
    unfolding b_def by (metis imageE imageI)
  then have "ht_wf ht'" unfolding ht'_def
    using keys ht_wf_slot(2) [OF wf i]
    by (intro ht_wf_bucket [OF wf i]) (auto simp: b_def [symmetric] dest: map_eq_imp_length_eq)
  moreover have dom: "k \<in> dom (chain_map b)"
    using k by (auto simp: ht_map_def b_def i_def domIff)
  then have "ht_map ht' = (ht_map ht)(k \<mapsto> v)" unfolding ht'_def
    using chain_replace [of k b v]
    by (intro ht_map_bucket [OF wf i_def]) (simp add: b'_def b_def [symmetric])
  moreover have "ht_put ht k v True = (0, ht')"
    using dom by (simp add: ht_put_def ht_find_prev_def ht_at_def Let_def chain_pos_less ht'_def
        i_def [symmetric] b_def [symmetric] b'_def [symmetric])
  ultimately show ?thesis by (simp add: ht'_def)
qed

lemma ht_put_present_keep: "k \<in> dom (ht_map ht) \<Longrightarrow> ht_put ht k v False = (0, ht)"
  using ht_at_find [of ht k] by (auto simp: ht_put_def split: prod.splits)

lemma ht_put_absent:
  assumes wf: "ht_wf ht" and k: "k \<notin> dom (ht_map ht)"
  shows "\<exists>ht'. ht_put ht k v r = (1, ht') \<and> ht_wf ht' \<and> ht_map ht' = (ht_map ht)(k \<mapsto> v) \<and>
           ht_cap ht' = ht_cap ht \<and> ht_count ht' = Suc (ht_count ht)"
proof -
  define i where "i = hash_slot k (ht_cap ht)"
  define b where "b = ht_buckets ht ! i"
  define b' where "b' = b @ [\<lparr>sn_key = k, sn_value = v\<rparr>]"
  define ht' where "ht' = ht\<lparr>ht_buckets := (ht_buckets ht)[i := b'], ht_count := Suc (ht_count ht)\<rparr>"
  have i: "i < ht_cap ht" using wf by (simp add: i_def ht_wf_def)
  have dom: "k \<notin> dom (chain_map b)"
    using k by (auto simp: ht_map_def b_def i_def domIff)
  then have "ht_wf ht'" unfolding ht'_def
    using ht_wf_slot [OF wf i]
    by (intro ht_wf_bucket [OF wf i]) (auto simp: b'_def b_def [symmetric] i_def [symmetric] dom_chain_map)
  moreover have "ht_map ht' = (ht_map ht)(k \<mapsto> v)" unfolding ht'_def
    using dom by (intro ht_map_bucket [OF wf i_def])
      (auto simp: b'_def b_def [symmetric] domIff map_add_def split: option.splits)
  moreover have "ht_put ht k v r = (1, ht')"
    using dom by (simp add: ht_put_def ht_find_prev_def ht_at_def Let_def chain_pos_less ht'_def
        i_def [symmetric] b_def [symmetric] b'_def [symmetric])
  ultimately show ?thesis by (simp add: ht'_def)
qed

text \<open>The three cases together.\<close>

lemma ht_put_ok:
  assumes wf: "ht_wf ht"
  shows "\<exists>ht'. ht_put ht k v r = (if k \<in> dom (ht_map ht) then 0 else 1, ht') \<and> ht_wf ht' \<and>
      ht_map ht' = (if k \<in> dom (ht_map ht) \<and> \<not> r then ht_map ht else (ht_map ht)(k \<mapsto> v)) \<and>
      ht_cap ht' = ht_cap ht \<and>
      ht_count ht' = (if k \<in> dom (ht_map ht) then ht_count ht else Suc (ht_count ht))"
  using ht_put_present [OF wf, of k v] ht_put_present_keep [of k ht v] ht_put_absent [OF wf, of k v r] wf
  by (cases r; cases "k \<in> dom (ht_map ht)") auto


text \<open>The nodes of all buckets together: their keys are unique and they give the same map.\<close>

lemma distinct_concat_tagged:
  assumes "\<forall>i < length bs. distinct (map f (bs ! i)) \<and> (\<forall>n \<in> set (bs ! i). g (f n) = i + m)"
  shows "distinct (map f (concat bs)) \<and> (\<forall>n \<in> set (concat bs). m \<le> g (f n))"
  using assms
proof (induction bs arbitrary: m)
  case (Cons b bs)
  have "\<forall>i < length bs. distinct (map f (bs ! i)) \<and> (\<forall>n \<in> set (bs ! i). g (f n) = i + Suc m)"
    using Cons.prems by force
  from Cons.IH [OF this] Cons.prems [rule_format, of 0] show ?case by force
qed simp

lemma ht_wf_concat:
  assumes wf: "ht_wf ht"
  shows "distinct (map sn_key (concat (ht_buckets ht)))"
    and "chain_map (concat (ht_buckets ht)) = ht_map ht"
proof -
  show dist: "distinct (map sn_key (concat (ht_buckets ht)))"
    using wf distinct_concat_tagged [of "ht_buckets ht" sn_key "\<lambda>k. hash_slot k (ht_cap ht)" 0]
    by (auto simp: ht_wf_def)
  have iff: "chain_map b k = Some v \<longleftrightarrow> (\<exists>n \<in> set b. sn_key n = k \<and> sn_value n = v)"
    if "distinct (map sn_key b)" for b k v
    using that by (auto simp: chain_map_def map_of_eq_Some_iff o_def)
  show "chain_map (concat (ht_buckets ht)) = ht_map ht"
  proof
    fix k
    have slot: "hash_slot k (ht_cap ht) < length (ht_buckets ht)" "length (ht_buckets ht) = ht_cap ht"
      using wf by (auto simp: ht_wf_def)
    have "chain_map (concat (ht_buckets ht)) k = Some v \<longleftrightarrow> ht_map ht k = Some v" for v
    proof -
      have "(\<exists>n \<in> set (concat (ht_buckets ht)). sn_key n = k \<and> sn_value n = v) \<longleftrightarrow>
          (\<exists>n \<in> set (ht_buckets ht ! hash_slot k (ht_cap ht)). sn_key n = k \<and> sn_value n = v)"
        using wf slot by (fastforce simp: ht_wf_def in_set_conv_nth [of _ "ht_buckets ht"])
      with iff [OF dist] iff [OF ht_wf_slot(2) [OF wf, of "hash_slot k (ht_cap ht)"]] slot
      show ?thesis by (simp add: ht_map_def)
    qed
    then show "chain_map (concat (ht_buckets ht)) k = ht_map ht k"
      by (metis not_None_eq)
  qed
qed

text \<open>Reinserting nodes into a table that is large enough never resizes again.\<close>

lemma ht_rehash_ok:
  assumes "ht_wf t" and "distinct (map sn_key ns)" and "sn_key ` set ns \<inter> dom (ht_map t) = {}"
    and "4 * (ht_count t + length ns) < 3 * ht_cap t"
  shows "\<exists>t'. ht_rehash (ht_add_f (Suc d)) ns t = Inr t' \<and> ht_wf t' \<and>
           ht_map t' = ht_map t ++ chain_map ns \<and> ht_cap t' = ht_cap t \<and>
           ht_count t' = ht_count t + length ns"
  using assms
proof (induction ns arbitrary: t)
  case (Cons n ns)
  then have "sn_key n \<notin> dom (ht_map t)" by auto
  from ht_put_absent [OF Cons.prems(1) this] obtain t1 where
    t1: "ht_put t (sn_key n) (sn_value n) False = (1, t1)" "ht_wf t1"
      "ht_map t1 = (ht_map t)(sn_key n \<mapsto> sn_value n)" "ht_cap t1 = ht_cap t" "ht_count t1 = Suc (ht_count t)"
    by blast
  have disj: "sn_key ` set ns \<inter> dom (ht_map t1) = {}"
    using Cons.prems(2,3) by (simp add: t1(3))
  have fit: "ht_resize (ht_add_f d) t = Inr t"
    using Cons.prems(4) by (simp add: ht_resize_def)
  have "\<exists>t'. ht_rehash (ht_add_f (Suc d)) ns t1 = Inr t' \<and> ht_wf t' \<and>
      ht_map t' = ht_map t1 ++ chain_map ns \<and> ht_cap t' = ht_cap t1 \<and> ht_count t' = ht_count t1 + length ns"
    using Cons.prems t1(2,4,5) disj by (intro Cons.IH) auto
  moreover have "sn_key n \<notin> dom (chain_map ns)"
    using Cons.prems(2) by (simp add: dom_chain_map)
  then have "(ht_map t)(sn_key n \<mapsto> sn_value n) ++ chain_map ns
      = ht_map t ++ (chain_map ns)(sn_key n \<mapsto> sn_value n)"
    by (auto simp: map_add_def domIff intro!: ext split: option.splits)
  ultimately show ?case using t1 fit by (auto simp del: fun_upd_apply)
qed simp

lemma ht_empty_ok:
  "0 < c \<Longrightarrow> ht_wf \<lparr>ht_buckets = replicate c [], ht_cap = c, ht_count = 0\<rparr> \<and>
     ht_map \<lparr>ht_buckets = replicate c [], ht_cap = c, ht_count = 0\<rparr> = Map.empty"
  by (auto simp: ht_wf_def ht_map_def)

lemma ht_resize_ok:
  assumes inv: "ht_inv ht"
  shows "\<exists>ht'. ht_resize (ht_add_f (Suc d)) ht = Inr ht' \<and> ht_wf ht' \<and> ht_map ht' = ht_map ht \<and>
           ht_count ht' = ht_count ht \<and> 4 dvd ht_cap ht' \<and> 4 * ht_count ht' < 3 * ht_cap ht'"
proof (cases "4 * ht_count ht < 3 * ht_cap ht")
  case True
  with inv show ?thesis by (auto simp: ht_resize_def ht_inv_def)
next
  case False
  define t where "t = \<lparr>ht_buckets = replicate (2 * ht_cap ht) [], ht_cap = 2 * ht_cap ht, ht_count = 0\<rparr>"
  from inv have wf: "ht_wf ht" and cap: "0 < ht_cap ht" "4 * ht_count ht \<le> 3 * ht_cap ht"
    and cnt: "ht_count ht = length (concat (ht_buckets ht))"
    by (auto simp: ht_inv_def ht_wf_def)
  from cap(1) have t: "ht_wf t" "ht_map t = Map.empty"
    using ht_empty_ok [of "2 * ht_cap ht"] by (auto simp: t_def)
  have "\<exists>t'. ht_rehash (ht_add_f (Suc d)) (concat (ht_buckets ht)) t = Inr t' \<and> ht_wf t' \<and>
      ht_map t' = ht_map t ++ chain_map (concat (ht_buckets ht)) \<and> ht_cap t' = ht_cap t \<and>
      ht_count t' = ht_count t + length (concat (ht_buckets ht))"
    using t cap cnt ht_wf_concat(1) [OF wf] by (intro ht_rehash_ok) (auto simp: t_def)
  with t False cnt inv cap show ?thesis
    by (auto simp: ht_resize_def t_def [symmetric] ht_wf_concat(2) [OF wf] ht_inv_def)
      (auto simp: t_def)
qed

text \<open>\<open>ht_add\<close> returns, keeps the invariant and updates the map.\<close>

lemma ht_add_ok:
  assumes inv: "ht_inv ht"
  shows "\<exists>ht'. ht_add ht k v r = Inr (if k \<in> dom (ht_map ht) then 0 else 1, ht') \<and> ht_inv ht' \<and>
      ht_map ht' = (if k \<in> dom (ht_map ht) \<and> \<not> r then ht_map ht else (ht_map ht)(k \<mapsto> v)) \<and>
      ht_count ht' = (if k \<in> dom (ht_map ht) then ht_count ht else Suc (ht_count ht))"
proof -
  from ht_resize_ok [OF inv, of 0] obtain t where
    t: "ht_resize (ht_add_f 1) ht = Inr t" "ht_wf t" "ht_map t = ht_map ht" "ht_count t = ht_count ht"
       "4 dvd ht_cap t" "4 * ht_count t < 3 * ht_cap t" by auto
  from t(5) obtain q where "ht_cap t = 4 * q" by (elim dvdE)
  with t(6) have load: "4 * Suc (ht_count t) \<le> 3 * ht_cap t" by presburger
  from ht_put_ok [OF t(2), of k v r] t load show ?thesis
    by (auto simp: ht_add_def numeral_2_eq_2 ht_inv_def simp del: bindr_eq_Inr)
qed

lemma ht_remove_ok:
  assumes inv: "ht_inv ht"
  shows "\<exists>ht'. ht_remove ht k = (if k \<in> dom (ht_map ht) then 1 else 0, ht') \<and> ht_inv ht' \<and>
      ht_map ht' = (ht_map ht)(k := None) \<and>
      ht_count ht' = (if k \<in> dom (ht_map ht) then ht_count ht - 1 else ht_count ht)"
proof (cases "k \<in> dom (ht_map ht)")
  case False
  then have "(ht_map ht)(k := None) = ht_map ht" by (auto simp: domIff)
  with False inv ht_at_find [of ht k] show ?thesis
    by (auto simp: ht_remove_def domIff split: prod.splits)
next
  case True
  define i where "i = hash_slot k (ht_cap ht)"
  define b where "b = ht_buckets ht ! i"
  define b' where "b' = take (chain_pos k b) b @ drop (Suc (chain_pos k b)) b"
  define ht' where "ht' = ht\<lparr>ht_buckets := (ht_buckets ht)[i := b'], ht_count := ht_count ht - 1\<rparr>"
  from inv have wf: "ht_wf ht" by (simp add: ht_inv_def)
  have i: "i < ht_cap ht" using wf by (simp add: i_def ht_wf_def)
  have pos: "chain_pos k b < length b"
    using True by (auto simp: ht_map_def b_def i_def domIff chain_pos_less)
  have sub: "set b' \<subseteq> set b" unfolding b'_def by (auto dest: in_set_takeD in_set_dropD)
  have db: "distinct (map sn_key b)" using ht_wf_slot(2) [OF wf i] by (simp add: b_def)
  have "map sn_key b = map sn_key (take (chain_pos k b) b) @ sn_key (b ! chain_pos k b) #
      map sn_key (drop (Suc (chain_pos k b)) b)"
    using arg_cong [OF id_take_nth_drop [OF pos], of "map sn_key"] by simp
  with db have dist: "distinct (map sn_key b')" by (simp add: b'_def)
  have cm: "chain_map b' = (chain_map b)(k := None)" unfolding b'_def by (rule chain_delete [OF db])
  have c: "ht_count ht = length (concat (ht_buckets ht))" "length (ht_buckets ht ! i) \<le> length (concat (ht_buckets ht))"
    using wf i by (auto simp: ht_wf_def length_concat intro!: member_le_sum_list)
  then have pc: "0 < ht_count ht" using pos unfolding b_def by linarith
  have "length b = Suc (length b')" using pos by (simp add: b'_def)
  with pc have cnt: "ht_count ht - 1 + length b = ht_count ht + length b'" by simp
  have "ht_wf ht'" unfolding ht'_def
    using ht_wf_slot(1) [OF wf i] sub dist cnt
    by (intro ht_wf_bucket [OF wf i]) (auto simp: b_def [symmetric])
  moreover have "ht_map ht' = (ht_map ht)(k := None)" unfolding ht'_def
    by (rule ht_map_bucket [OF wf i_def]) (simp add: cm b_def [symmetric])
  moreover have "ht_remove ht k = (1, ht')"
    using pos by (simp add: ht_remove_def ht_find_prev_def ht_at_def Let_def ht'_def
        i_def [symmetric] b_def [symmetric] b'_def [symmetric])
  ultimately show ?thesis using True inv by (auto simp: ht_inv_def ht'_def)
qed

lemma ht_create_ok: "ht_inv ht_create \<and> ht_map ht_create = Map.empty \<and> ht_count ht_create = 0"
  using ht_empty_ok [of 16] by (auto simp: ht_inv_def ht_create_def)

text \<open>The listing of the keys is complete and without repetition, and the values match it.\<close>

lemma ht_count_all: "ht_inv ht \<Longrightarrow> take (ht_count ht) (map f (concat (ht_buckets ht))) = map f (concat (ht_buckets ht))"
  by (simp add: ht_inv_def ht_wf_def)

lemma ht_keys_ok:
  assumes "ht_inv ht"
  shows "distinct (ht_keys ht)" and "set (ht_keys ht) = dom (ht_map ht)"
    and "length (ht_keys ht) = ht_count ht"
proof -
  from assms have wf: "ht_wf ht" by (simp add: ht_inv_def)
  from ht_count_all [OF assms] have k: "ht_keys ht = map sn_key (concat (ht_buckets ht))"
    by (simp add: ht_keys_def)
  from k ht_wf_concat(1) [OF wf] show "distinct (ht_keys ht)" by simp
  from ht_wf_concat(2) [OF wf] dom_chain_map [of "concat (ht_buckets ht)"]
  show "set (ht_keys ht) = dom (ht_map ht)" by (simp add: k)
  from wf show "length (ht_keys ht) = ht_count ht" by (simp add: k ht_wf_def)
qed

lemma ht_items_ok:
  assumes "ht_inv ht"
  shows "ht_items ht = map (\<lambda>k. case ht_get ht k of None \<Rightarrow> '''' | Some v \<Rightarrow> v) (ht_keys ht)"
proof -
  from assms have wf: "ht_wf ht" by (simp add: ht_inv_def)
  have "ht_get ht (sn_key n) = sn_value n" if "n \<in> set (concat (ht_buckets ht))" for n
  proof -
    from that ht_wf_concat(1) [OF wf] have "chain_map (concat (ht_buckets ht)) (sn_key n) = Some (sn_value n)"
      by (auto simp: chain_map_def map_of_eq_Some_iff o_def)
    with ht_wf_concat(2) [OF wf] show ?thesis by (simp add: ht_get_ok)
  qed
  then show ?thesis
    using ht_count_all [OF assms] by (simp add: ht_items_def ht_keys_def cong: map_cong)
qed

lemma ht_count_card: "ht_inv ht \<Longrightarrow> finite (dom (ht_map ht)) \<and> ht_count ht = card (dom (ht_map ht))"
  using ht_keys_ok [of ht] by (metis List.finite_set distinct_card)

subsection \<open>The dictionary contract\<close>

text \<open>
  What the set and hash commands rely on: a finite map with an insertion that may keep an
  existing binding, a removal, and the number of bindings.
\<close>

locale dictionary =
  fixes inv :: "'d \<Rightarrow> bool"
    and lookup :: "'d \<Rightarrow> 'k \<rightharpoonup> 'v"
    and empty :: 'd
    and add :: "'d \<Rightarrow> 'k \<Rightarrow> 'v \<Rightarrow> bool \<Rightarrow> (int \<times> 'd) res"
    and remove :: "'d \<Rightarrow> 'k \<Rightarrow> int \<times> 'd"
  assumes empty_law: "inv empty \<and> lookup empty = Map.empty"
    and add_law: "inv d \<Longrightarrow> \<exists>d'. add d k v r = Inr (if k \<in> dom (lookup d) then 0 else 1, d') \<and> inv d' \<and>
          lookup d' = (if k \<in> dom (lookup d) \<and> \<not> r then lookup d else (lookup d)(k \<mapsto> v))"
    and remove_law: "inv d \<Longrightarrow> \<exists>d'. remove d k = (if k \<in> dom (lookup d) then 1 else 0, d') \<and> inv d' \<and>
          lookup d' = (lookup d)(k := None)"
    and finite_law: "inv d \<Longrightarrow> finite (dom (lookup d))"
begin

text \<open>Adding keys one by one counts the new ones.\<close>

fun add_all :: "'d \<Rightarrow> 'k list \<Rightarrow> 'v \<Rightarrow> int \<Rightarrow> (int \<times> 'd) res" where
  "add_all d [] v a = Inr (a, d)"
| "add_all d (k # ks) v a = bindr (add d k v False) (\<lambda>(c, d'). add_all d' ks v (if c = 1 then a + 1 else a))"

lemma add_all_ok:
  "inv d \<Longrightarrow> \<exists>d'. add_all d ks v a = Inr (a + int (card (set ks - dom (lookup d))), d') \<and> inv d' \<and>
     dom (lookup d') = dom (lookup d) \<union> set ks \<and>
     (\<forall>k \<in> dom (lookup d). lookup d' k = lookup d k)"
proof (induction ks arbitrary: d a)
  case (Cons k ks)
  from add_law [OF Cons.prems, of k v False] obtain d1 where
    d1: "add d k v False = Inr (if k \<in> dom (lookup d) then 0 else 1, d1)" "inv d1"
      "lookup d1 = (if k \<in> dom (lookup d) then lookup d else (lookup d)(k \<mapsto> v))" by auto
  define a1 where "a1 = (if k \<in> dom (lookup d) then a else a + 1)"
  from Cons.IH [OF d1(2), of a1] obtain d2 where
    d2: "add_all d1 ks v a1 = Inr (a1 + int (card (set ks - dom (lookup d1))), d2)" "inv d2"
      "dom (lookup d2) = dom (lookup d1) \<union> set ks" "\<forall>k \<in> dom (lookup d1). lookup d2 k = lookup d1 k"
    by blast
  have "a1 + int (card (set ks - dom (lookup d1))) = a + int (card (set (k # ks) - dom (lookup d)))"
  proof (cases "k \<in> dom (lookup d)")
    case True
    then show ?thesis by (simp add: a1_def d1(3) insert_Diff_if)
  next
    case False
    have "insert k (set ks) - dom (lookup d) = insert k (set ks - insert k (dom (lookup d)))"
      using False by auto
    with False show ?thesis by (simp add: a1_def d1(3))
  qed
  moreover have "add_all d (k # ks) v a = add_all d1 ks v a1"
    by (simp add: d1(1) a1_def)
  moreover have "dom (lookup d1) = insert k (dom (lookup d))" "\<forall>j \<in> dom (lookup d). lookup d1 j = lookup d j"
    by (auto simp: d1(3))
  ultimately show ?case using d2 by (intro exI [of _ d2]) auto
qed simp

text \<open>Removing keys one by one counts the ones that were there.\<close>

fun remove_all :: "'d \<Rightarrow> 'k list \<Rightarrow> int \<Rightarrow> int \<times> 'd" where
  "remove_all d [] r = (r, d)"
| "remove_all d (k # ks) r = (case remove d k of (c, d') \<Rightarrow> remove_all d' ks (if c = 1 then r + 1 else r))"

lemma remove_all_ok:
  "inv d \<Longrightarrow> \<exists>d'. remove_all d ks r = (r + int (card (set ks \<inter> dom (lookup d))), d') \<and> inv d' \<and>
     lookup d' = lookup d |` (- set ks)"
proof (induction ks arbitrary: d r)
  case Nil
  then show ?case by (auto simp: restrict_map_def)
next
  case (Cons k ks)
  from remove_law [OF Cons.prems, of k] obtain d1 where
    d1: "remove d k = (if k \<in> dom (lookup d) then 1 else 0, d1)" "inv d1" "lookup d1 = (lookup d)(k := None)"
    by auto
  define r1 where "r1 = (if k \<in> dom (lookup d) then r + 1 else r)"
  from Cons.IH [OF d1(2), of r1] obtain d2 where
    d2: "remove_all d1 ks r1 = (r1 + int (card (set ks \<inter> dom (lookup d1))), d2)" "inv d2"
      "lookup d2 = lookup d1 |` (- set ks)" by blast
  have sets: "set (k # ks) \<inter> dom (lookup d) =
      (if k \<in> dom (lookup d) then insert k (set ks \<inter> dom (lookup d1)) else set ks \<inter> dom (lookup d1))"
    by (auto simp: d1(3) domIff)
  have "k \<notin> set ks \<inter> dom (lookup d1)" by (simp add: d1(3))
  with sets have "r1 + int (card (set ks \<inter> dom (lookup d1))) = r + int (card (set (k # ks) \<inter> dom (lookup d)))"
    by (simp add: r1_def)
  moreover have "lookup d1 |` (- set ks) = lookup d |` (- set (k # ks))"
    by (auto simp: d1(3) restrict_map_def)
  moreover have "remove_all d (k # ks) r = remove_all d1 ks r1"
    by (simp add: d1(1) r1_def)
  ultimately show ?case using d2 by (intro exI [of _ d2]) (simp only:)
qed

end

interpretation ht: dictionary ht_inv ht_map ht_create ht_add ht_remove
proof
  show "ht_inv ht_create \<and> ht_map ht_create = Map.empty" using ht_create_ok by simp
  show "\<exists>d'. ht_add d k v r = Inr (if k \<in> dom (ht_map d) then 0 else 1, d') \<and> ht_inv d' \<and>
      ht_map d' = (if k \<in> dom (ht_map d) \<and> \<not> r then ht_map d else (ht_map d)(k \<mapsto> v))"
    if "ht_inv d" for d k v r using ht_add_ok [OF that] by blast
  show "\<exists>d'. ht_remove d k = (if k \<in> dom (ht_map d) then 1 else 0, d') \<and> ht_inv d' \<and>
      ht_map d' = (ht_map d)(k := None)" if "ht_inv d" for d k using ht_remove_ok [OF that] by blast
  show "finite (dom (ht_map d))" if "ht_inv d" for d using ht_count_card [OF that] by simp
qed

end
