(* ===== verification/Doubles.thy ===== *)
theory Doubles
  imports Prelude
begin

unbundle bit_operations_syntax

text \<open>
  Scores of sorted sets are C \<open>double\<close>s. A \<open>double\<close> is its IEEE 754 binary64 pattern, a
  64-bit word; \<open><\<close> and \<open>==\<close> are defined on the pattern (sign and magnitude), with every
  comparison that involves a NaN false and the two zeros equal. Entries of a sorted set
  are ordered by score and then by member (\<open>zless\<close>), the comparison that \<open>zsl_insert\<close>,
  \<open>zsl_rank\<close> and \<open>zsl_revrank\<close> of \<open>src/src/core/kvdb.c\<close> write out.
\<close>

type_synonym double = "64 word"

definition dbl_mag :: "double \<Rightarrow> int" where
  "dbl_mag d = uint (d AND 0x7FFFFFFFFFFFFFFF)"

definition dbl_nan :: "double \<Rightarrow> bool" where
  "dbl_nan d \<longleftrightarrow> dbl_mag d > 0x7FF0000000000000"

text \<open>A number that orders the non-NaN patterns; infinities are the extremes.\<close>

definition dbl_key :: "double \<Rightarrow> int" where
  "dbl_key d = (if bit d 63 then - dbl_mag d else dbl_mag d)"

definition dbl_lt :: "double \<Rightarrow> double \<Rightarrow> bool" where
  "dbl_lt a b \<longleftrightarrow> \<not> dbl_nan a \<and> \<not> dbl_nan b \<and> dbl_key a < dbl_key b"

definition dbl_eq :: "double \<Rightarrow> double \<Rightarrow> bool" where
  "dbl_eq a b \<longleftrightarrow> \<not> dbl_nan a \<and> \<not> dbl_nan b \<and> dbl_key a = dbl_key b"

text \<open>Entries of a sorted set.\<close>

type_synonym zentry = "double \<times> string"

definition zless :: "zentry \<Rightarrow> zentry \<Rightarrow> bool" where
  "zless a b \<longleftrightarrow> dbl_lt (fst a) (fst b) \<or> dbl_eq (fst a) (fst b) \<and> strcmp (snd a) (snd b) < 0"

text \<open>
  Entries without a NaN are compared by this key. The key identifies the two zeros, as the
  comparison does, so the order is linear on keys.
\<close>

definition zkey :: "zentry \<Rightarrow> int \<times> string" where
  "zkey a = (dbl_key (fst a), snd a)"

definition zkey_less :: "int \<times> string \<Rightarrow> int \<times> string \<Rightarrow> bool" where
  "zkey_less a b \<longleftrightarrow> fst a < fst b \<or> fst a = fst b \<and> strcmp (snd a) (snd b) < 0"

interpretation zkey_order: strict_linear zkey_less "\<lambda>_. True"
proof
  show "\<not> zkey_less x x" for x by (simp add: zkey_less_def)
  show "zkey_less x z" if "zkey_less x y" "zkey_less y z" for x y z
    using that strcmp_trans by (auto simp: zkey_less_def)
  show "zkey_less x y \<or> zkey_less y x" if "x \<noteq> y" for x y
    using that strcmp_total by (auto simp: zkey_less_def prod_eq_iff)
qed

abbreviation znum :: "zentry \<Rightarrow> bool" where
  "znum a \<equiv> \<not> dbl_nan (fst a)"

lemma zless_zkey: "znum a \<Longrightarrow> znum b \<Longrightarrow> zless a b \<longleftrightarrow> zkey_less (zkey a) (zkey b)"
  by (simp add: zless_def zkey_less_def zkey_def dbl_lt_def dbl_eq_def)

lemma zless_trans: "znum a \<Longrightarrow> znum b \<Longrightarrow> znum c \<Longrightarrow> zless a b \<Longrightarrow> zless b c \<Longrightarrow> zless a c"
  by (simp add: zless_zkey) (rule zkey_order.lt_trans; simp)

lemma zless_irrefl [simp]: "\<not> zless a a"
  by (simp add: zless_def dbl_lt_def)

lemma not_zless_trans:
  "znum a \<Longrightarrow> znum b \<Longrightarrow> znum c \<Longrightarrow> \<not> zless b a \<Longrightarrow> zless b c \<Longrightarrow> zless a c"
  by (simp add: zless_zkey) (rule zkey_order.not_lt_trans; simp)

lemma zless_cases: "znum a \<Longrightarrow> znum b \<Longrightarrow> zless a b \<or> zless b a \<or> zkey a = zkey b"
  using zkey_order.lt_total [of "zkey a" "zkey b"] by (simp add: zless_zkey) blast

text \<open>Concrete patterns: \<open>1.0\<close>, \<open>2.0\<close>, \<open>-1.0\<close>, the zeros, a NaN.\<close>

lemma dbl_examples:
  "dbl_lt 0x3FF0000000000000 0x4000000000000000"
  "dbl_lt 0xBFF0000000000000 0x3FF0000000000000"
  "dbl_eq 0x8000000000000000 0"
  "dbl_nan 0x7FF8000000000000"
  by (simp_all add: dbl_lt_def dbl_eq_def dbl_nan_def dbl_key_def dbl_mag_def bit_iff_odd_drop_bit)

end
