(* ===== verification/Skip_List.thy ===== *)
theory Skip_List
  imports Heap_Cells Doubles
begin

text \<open>
  The skip list behind \<open>OBJ_ZSET\<close> (\<open>zskiplist_node_t\<close>, \<open>zskiplist_t\<close> and the \<open>zsl_*\<close>
  functions of \<open>src/src/core/kvdb.c\<close>), with its \<open>forward\<close> arrays, \<open>backward\<close> pointers and
  header node in an explicit heap. Reading \<open>forward[i]\<close> past a node's array is a fault.
  The scratch buffer \<open>update_buf\<close> is rewritten before it is read in every call, so it is a
  local list; \<open>rank_buf\<close> is written but its values reach no result, so it is left out.

  The lemmas show that every operation is memory safe and keeps the representation, that
  insertion keeps the entries sorted, and exactly when deletion finds its member.
\<close>

definition ZSKIPLIST_MAXLEVEL :: nat where
  "ZSKIPLIST_MAXLEVEL = 12"

subsection \<open>Data\<close>

record zskiplist_node =
  zn_member :: string
  zn_score :: double
  zn_forward :: "addr option list"
  zn_backward :: "addr option"
  zn_level :: nat

record zskiplist =
  z_heap :: "zskiplist_node heap"
  z_brk :: addr
  z_header :: addr
  z_tail :: "addr option"
  z_length :: nat
  z_level :: nat

definition zsl_create :: zskiplist where
  "zsl_create =
     \<lparr>z_heap = [0 \<mapsto> \<lparr>zn_member = '''', zn_score = 0,
                   zn_forward = replicate ZSKIPLIST_MAXLEVEL None, zn_backward = None, zn_level = 0\<rparr>],
      z_brk = 1, z_header = 0, z_tail = None, z_length = 0, z_level = 1\<rparr>"

subsection \<open>Operations\<close>

text \<open>
  \<open>zsl_random_level\<close>: \<open>rs\<close> is the sequence of values the calls of \<open>rand()\<close> return; \<open>rand() & 3\<close>
  of a non-negative value is its remainder modulo 4.
\<close>

function zrl_loop :: "(nat \<Rightarrow> nat) \<Rightarrow> nat \<Rightarrow> nat \<Rightarrow> nat" where
  "zrl_loop rs i level =
     (if rs i mod 4 = 0 \<and> level < ZSKIPLIST_MAXLEVEL then zrl_loop rs (Suc i) (Suc level) else level)"
  by pat_completeness auto
termination
  by (relation "measure (\<lambda>(rs, i, level). ZSKIPLIST_MAXLEVEL - level)") auto

declare zrl_loop.simps [simp del]

definition zsl_random_level :: "(nat \<Rightarrow> nat) \<Rightarrow> nat" where
  "zsl_random_level rs = zrl_loop rs 0 1"

text \<open>\<open>x->forward[i]\<close>, read and written.\<close>

definition z_fwd :: "zskiplist_node heap \<Rightarrow> addr \<Rightarrow> nat \<Rightarrow> addr option res" where
  "z_fwd h x i = bindr (deref h x) (\<lambda>nd.
     if i < length (zn_forward nd) then Inr (zn_forward nd ! i) else Inl OverRead)"

definition z_set_fwd :: "zskiplist_node heap \<Rightarrow> addr \<Rightarrow> nat \<Rightarrow> addr option \<Rightarrow> zskiplist_node heap res" where
  "z_set_fwd h x i p = bindr (deref h x) (\<lambda>nd.
     if i < length (zn_forward nd)
     then Inr (h(x \<mapsto> nd\<lparr>zn_forward := (zn_forward nd)[i := p]\<rparr>)) else Inl OverRead)"

text \<open>
  The inner \<open>while\<close> of the searches: from \<open>x\<close>, follow \<open>forward[lvl]\<close> while the next node
  exists and satisfies \<open>P\<close>. Each step costs one unit of fuel; \<open>z_brk\<close> units are enough.
\<close>

fun z_walk :: "nat \<Rightarrow> (zskiplist_node \<Rightarrow> bool) \<Rightarrow> zskiplist_node heap \<Rightarrow> addr \<Rightarrow> nat \<Rightarrow> addr res" where
  "z_walk 0 P h x lvl = Inl Diverges"
| "z_walk (Suc fuel) P h x lvl =
     bindr (z_fwd h x lvl) (\<lambda>p.
     case p of
       None \<Rightarrow> Inr x
     | Some y \<Rightarrow> bindr (deref h y) (\<lambda>nd. if P nd then z_walk fuel P h y lvl else Inr x))"

text \<open>
  The outer loop, for the levels \<open>lvl - 1\<close> down to \<open>0\<close>: the last \<open>x\<close> and the entries
  \<open>update[0], \<dots>, update[lvl - 1]\<close>.
\<close>

fun z_search :: "nat \<Rightarrow> (zskiplist_node \<Rightarrow> bool) \<Rightarrow> zskiplist_node heap \<Rightarrow> addr \<Rightarrow> nat \<Rightarrow> (addr \<times> addr list) res" where
  "z_search fuel P h x 0 = Inr (x, [])"
| "z_search fuel P h x (Suc lvl) =
     bindr (z_walk fuel P h x lvl) (\<lambda>x'.
     bindr (z_search fuel P h x' lvl) (\<lambda>(y, upd). Inr (y, upd @ [x'])))"

text \<open>The loop that splices the new node \<open>n\<close> in at the levels from \<open>i\<close> on.\<close>

fun z_link :: "zskiplist_node heap \<Rightarrow> addr \<Rightarrow> nat \<Rightarrow> addr list \<Rightarrow> zskiplist_node heap res" where
  "z_link h n i [] = Inr h"
| "z_link h n i (u # us) =
     bindr (z_fwd h u i) (\<lambda>p.
     bindr (z_set_fwd h n i p) (\<lambda>h.
     bindr (z_set_fwd h u i (Some n)) (\<lambda>h. z_link h n (Suc i) us)))"

text \<open>The condition of the search in \<open>zsl_insert\<close>.\<close>

definition z_before :: "double \<Rightarrow> string \<Rightarrow> zskiplist_node \<Rightarrow> bool" where
  "z_before score member nd \<longleftrightarrow>
     dbl_lt (zn_score nd) score \<or> dbl_eq (zn_score nd) score \<and> strcmp (zn_member nd) member < 0"

text \<open>Returns the new node's address (never null) and the list.\<close>

definition zsl_insert :: "(nat \<Rightarrow> nat) \<Rightarrow> zskiplist \<Rightarrow> double \<Rightarrow> string \<Rightarrow> (addr \<times> zskiplist) res" where
  "zsl_insert rs z score member =
     bindr (z_search (z_brk z) (z_before score member) (z_heap z) (z_header z) (z_level z)) (\<lambda>(x, update).
     let lvl = zsl_random_level rs;
         update = (if lvl > z_level z then update @ replicate (lvl - z_level z) (z_header z) else update);
         level = max lvl (z_level z);
         n = z_brk z;
         h = (z_heap z)(n \<mapsto> \<lparr>zn_member = member, zn_score = score, zn_forward = replicate lvl None,
                             zn_backward = None, zn_level = lvl\<rparr>) in
     bindr (z_link h n 0 (take lvl update)) (\<lambda>h.
     bindr (store h n (\<lambda>nd. nd\<lparr>zn_backward :=
              (if update ! 0 = z_header z then None else Some (update ! 0))\<rparr>)) (\<lambda>h.
     bindr (z_fwd h n 0) (\<lambda>p.
     bindr (case p of
              Some q \<Rightarrow> bindr (store h q (\<lambda>nd. nd\<lparr>zn_backward := Some n\<rparr>)) (\<lambda>h. Inr (h, z_tail z))
            | None \<Rightarrow> Inr (h, Some n)) (\<lambda>(h, tail).
     Inr (n, z\<lparr>z_heap := h, z_brk := Suc n, z_tail := tail, z_length := Suc (z_length z),
               z_level := level\<rparr>))))))"

text \<open>The unsplicing loop of \<open>zsl_delete\<close>, for the levels from \<open>i\<close> on.\<close>

fun z_unlink :: "zskiplist_node heap \<Rightarrow> addr \<Rightarrow> nat \<Rightarrow> addr list \<Rightarrow> zskiplist_node heap res" where
  "z_unlink h x i [] = Inr h"
| "z_unlink h x i (u # us) =
     bindr (z_fwd h u i) (\<lambda>p.
     if p = Some x
     then bindr (z_fwd h x i) (\<lambda>q. bindr (z_set_fwd h u i q) (\<lambda>h. z_unlink h x (Suc i) us))
     else z_unlink h x (Suc i) us)"

text \<open>\<open>while (level > 1 && header->forward[level - 1] == NULL) --level\<close>.\<close>

fun z_shrink :: "zskiplist_node heap \<Rightarrow> addr \<Rightarrow> nat \<Rightarrow> nat res" where
  "z_shrink h hdr 0 = Inr 0"
| "z_shrink h hdr (Suc l) =
     (if 1 < Suc l
      then bindr (z_fwd h hdr l) (\<lambda>p. if p = None then z_shrink h hdr l else Inr (Suc l))
      else Inr (Suc l))"

text \<open>Returns \<open>1\<close> when a node was removed.\<close>

definition zsl_delete :: "zskiplist \<Rightarrow> string \<Rightarrow> (int \<times> zskiplist) res" where
  "zsl_delete z member =
     bindr (z_search (z_brk z) (\<lambda>nd. strcmp (zn_member nd) member \<noteq> 0) (z_heap z) (z_header z) (z_level z))
       (\<lambda>(x, update).
     bindr (z_fwd (z_heap z) x 0) (\<lambda>p.
     case p of
       None \<Rightarrow> Inr (0, z)
     | Some x \<Rightarrow>
         bindr (deref (z_heap z) x) (\<lambda>nd.
         if strcmp (zn_member nd) member \<noteq> 0 then Inr (0, z) else
         bindr (z_unlink (z_heap z) x 0 update) (\<lambda>h.
         bindr (z_fwd h x 0) (\<lambda>q.
         bindr (case q of
                  Some y \<Rightarrow> bindr (store h y (\<lambda>m. m\<lparr>zn_backward := zn_backward nd\<rparr>))
                              (\<lambda>h. Inr (h, z_tail z))
                | None \<Rightarrow> Inr (h, zn_backward nd)) (\<lambda>(h, tail).
         bindr (z_shrink h (z_header z) (z_level z)) (\<lambda>level.
         bindr (release h x) (\<lambda>h.
         Inr (1, z\<lparr>z_heap := h, z_tail := tail, z_level := level, z_length := z_length z - 1\<rparr>)))))))))"

text \<open>\<open>zsl_rank\<close> counts along \<open>forward[0]\<close>, \<open>zsl_revrank\<close> along \<open>backward\<close>.\<close>

fun z_rank_loop :: "nat \<Rightarrow> zskiplist_node heap \<Rightarrow> addr option \<Rightarrow> double \<Rightarrow> string \<Rightarrow> int \<Rightarrow> int res" where
  "z_rank_loop fuel h None score member rank = Inr rank"
| "z_rank_loop 0 h (Some n) score member rank = Inl Diverges"
| "z_rank_loop (Suc fuel) h (Some n) score member rank =
     bindr (deref h n) (\<lambda>nd.
     if z_before score member nd
     then bindr (z_fwd h n 0) (\<lambda>p. z_rank_loop fuel h p score member (rank + 1))
     else Inr rank)"

definition zsl_rank :: "zskiplist \<Rightarrow> double \<Rightarrow> string \<Rightarrow> int res" where
  "zsl_rank z score member =
     bindr (z_fwd (z_heap z) (z_header z) 0) (\<lambda>p.
     z_rank_loop (z_brk z) (z_heap z) p score member 0)"

definition z_after :: "double \<Rightarrow> string \<Rightarrow> zskiplist_node \<Rightarrow> bool" where
  "z_after score member nd \<longleftrightarrow>
     dbl_lt score (zn_score nd) \<or> dbl_eq (zn_score nd) score \<and> strcmp (zn_member nd) member > 0"

fun z_revrank_loop :: "nat \<Rightarrow> zskiplist_node heap \<Rightarrow> addr option \<Rightarrow> double \<Rightarrow> string \<Rightarrow> int \<Rightarrow> int res" where
  "z_revrank_loop fuel h None score member rank = Inr rank"
| "z_revrank_loop 0 h (Some n) score member rank = Inl Diverges"
| "z_revrank_loop (Suc fuel) h (Some n) score member rank =
     bindr (deref h n) (\<lambda>nd.
     if z_after score member nd
     then z_revrank_loop fuel h (zn_backward nd) score member (rank + 1)
     else Inr rank)"

definition zsl_revrank :: "zskiplist \<Rightarrow> double \<Rightarrow> string \<Rightarrow> int res" where
  "zsl_revrank z score member = z_revrank_loop (z_brk z) (z_heap z) (z_tail z) score member 0"

lemma zrl_loop_bounds: "level \<le> ZSKIPLIST_MAXLEVEL \<Longrightarrow> level \<le> zrl_loop rs i level \<and> zrl_loop rs i level \<le> ZSKIPLIST_MAXLEVEL"
proof (induction rs i level rule: zrl_loop.induct)
  case (1 rs i level)
  then show ?case by (subst (1 2) zrl_loop.simps) auto
qed

lemma zsl_random_level_bounds: "1 \<le> zsl_random_level rs \<and> zsl_random_level rs \<le> ZSKIPLIST_MAXLEVEL"
  using zrl_loop_bounds [of 1] by (simp add: zsl_random_level_def ZSKIPLIST_MAXLEVEL_def)

subsection \<open>Representation\<close>

definition height :: "zskiplist_node heap \<Rightarrow> addr \<Rightarrow> nat" where
  "height h a = length (zn_forward (the (h a)))"

text \<open>The first node of a list that takes part in level \<open>i\<close>.\<close>

definition nxt :: "zskiplist_node heap \<Rightarrow> nat \<Rightarrow> addr list \<Rightarrow> addr option" where
  "nxt h i as = find (\<lambda>a. i < height h a) as"

text \<open>Every \<open>forward[i]\<close> points to the next node of its level.\<close>

fun zfwd :: "zskiplist_node heap \<Rightarrow> addr list \<Rightarrow> bool" where
  "zfwd h [] = True"
| "zfwd h (a # as) =
     ((\<exists>n. h a = Some n \<and> (\<forall>i < length (zn_forward n). zn_forward n ! i = nxt h i as)) \<and> zfwd h as)"

text \<open>Every \<open>backward\<close> points to the node before, the first one's to \<open>p\<close>.\<close>

fun zbwd :: "zskiplist_node heap \<Rightarrow> addr option \<Rightarrow> addr list \<Rightarrow> bool" where
  "zbwd h p [] = True"
| "zbwd h p (a # as) = (zn_backward (the (h a)) = p \<and> zbwd h (Some a) as)"

definition zsl_rep :: "zskiplist \<Rightarrow> addr list \<Rightarrow> bool" where
  "zsl_rep z as \<longleftrightarrow>
     zfwd (z_heap z) (z_header z # as) \<and> zbwd (z_heap z) None as \<and>
     distinct (z_header z # as) \<and> dom (z_heap z) = set (z_header z # as) \<and>
     (\<forall>a \<in> set (z_header z # as). a < z_brk z) \<and>
     height (z_heap z) (z_header z) = ZSKIPLIST_MAXLEVEL \<and>
     1 \<le> z_level z \<and> z_level z \<le> ZSKIPLIST_MAXLEVEL \<and>
     (\<forall>a \<in> set as. 1 \<le> height (z_heap z) a \<and> height (z_heap z) a \<le> z_level z) \<and>
     z_tail z = last_or None as \<and> z_length z = length as"

lemma nxt_simps [simp]:
  "nxt h i [] = None"
  "nxt h i (a # as) = (if i < height h a then Some a else nxt h i as)"
  by (simp_all add: nxt_def)

lemma nxt_append: "nxt h i (as @ bs) = (case nxt h i as of None \<Rightarrow> nxt h i bs | Some a \<Rightarrow> Some a)"
  unfolding nxt_def by (rule find_append)

lemma nxt_None: "nxt h i as = None \<longleftrightarrow> (\<forall>a \<in> set as. height h a \<le> i)"
  by (induction as) auto

lemma nxt_SomeD:
  "nxt h i as = Some a \<Longrightarrow> \<exists>bs cs. as = bs @ a # cs \<and> (\<forall>b \<in> set bs. height h b \<le> i) \<and> i < height h a"
proof (induction as)
  case (Cons b as)
  show ?case
  proof (cases "i < height h b")
    case True
    with Cons.prems show ?thesis by (intro exI [of _ "[]"] exI [of _ as]) auto
  next
    case False
    with Cons obtain bs cs where "as = bs @ a # cs" "\<forall>b \<in> set bs. height h b \<le> i" "i < height h a" by auto
    with False show ?thesis by (intro exI [of _ "b # bs"] exI [of _ cs]) auto
  qed
qed simp

lemma zfwd_append: "zfwd h (as @ bs) \<Longrightarrow> zfwd h bs"
  by (induction as) auto

lemma zfwd_node: "zfwd h (as @ a # bs) \<Longrightarrow> \<exists>n. h a = Some n \<and> length (zn_forward n) = height h a \<and>
    (\<forall>i < height h a. zn_forward n ! i = nxt h i bs)"
  by (drule zfwd_append) (auto simp: height_def)

lemma z_fwd_rep: "zfwd h (as @ a # bs) \<Longrightarrow> i < height h a \<Longrightarrow> z_fwd h a i = Inr (nxt h i bs)"
  by (drule zfwd_node) (auto simp: z_fwd_def)

subsection \<open>The search\<close>

text \<open>
  \<open>barrier h P l rest\<close>: at every level below \<open>l\<close>, the first node of \<open>rest\<close> on that level (if
  any) fails \<open>P\<close>, so a search of these levels never enters \<open>rest\<close>.
\<close>

definition barrier :: "zskiplist_node heap \<Rightarrow> (zskiplist_node \<Rightarrow> bool) \<Rightarrow> nat \<Rightarrow> addr list \<Rightarrow> bool" where
  "barrier h P l rest \<longleftrightarrow> (\<forall>i < l. \<forall>b. nxt h i rest = Some b \<longrightarrow> \<not> P (the (h b)))"

lemma z_walk_rep:
  assumes "zfwd h (pre @ x # mid @ rest)" and "l < height h x" and "barrier h P (Suc l) rest"
    and "length mid < fuel"
  shows "\<exists>y m1 m2 m3. z_walk fuel P h x l = Inr y \<and> x # mid = m1 @ y # m2 @ m3 \<and>
           (\<forall>a \<in> set m2. height h a \<le> l) \<and> l < height h y \<and> (y = x \<or> P (the (h y))) \<and>
           barrier h P (Suc l) (m3 @ rest) \<and> nxt h l (m3 @ rest) = nxt h l (m2 @ m3 @ rest)"
  using assms
proof (induction fuel arbitrary: pre x mid)
  case (Suc fuel)
  have fwd: "z_fwd h x l = Inr (nxt h l (mid @ rest))"
    using z_fwd_rep [OF Suc.prems(1,2)] .
  show ?case
  proof (cases "nxt h l mid")
    case None
    then have low: "\<forall>a \<in> set mid. height h a \<le> l" by (simp add: nxt_None)
    have stop: "z_walk (Suc fuel) P h x l = Inr x"
    proof (cases "nxt h l rest")
      case None
      with fwd low show ?thesis by (simp add: nxt_append nxt_None [THEN iffD2])
    next
      case (Some b)
      with Suc.prems(3) have b: "\<not> P (the (h b))" unfolding barrier_def by blast
      from nxt_SomeD [OF Some] obtain bs cs where "rest = bs @ b # cs" by blast
      with Suc.prems(1) zfwd_node [of h "pre @ x # mid @ bs" b cs] obtain n where "h b = Some n" by auto
      with fwd Some b \<open>nxt h l mid = None\<close> show ?thesis by (simp add: nxt_append)
    qed
    show ?thesis
      using stop low Suc.prems(2,3) None
      by (intro exI [of _ x] exI [of _ "[]"] exI [of _ mid]) (auto simp: nxt_append)
  next
    case (Some a)
    from nxt_SomeD [OF this] obtain q r where mid: "mid = q @ a # r"
      and q: "\<forall>b \<in> set q. height h b \<le> l" and a: "l < height h a" by blast
    from Suc.prems(1) mid zfwd_node [of h "pre @ x # q" a "r @ rest"] obtain n where n: "h a = Some n" by auto
    from fwd Some n have step: "z_walk (Suc fuel) P h x l = (if P n then z_walk fuel P h a l else Inr x)"
      by (simp add: nxt_append)
    show ?thesis
    proof (cases "P n")
      case True
      have "\<exists>y m1 m2 m3. z_walk fuel P h a l = Inr y \<and> a # r = m1 @ y # m2 @ m3 \<and>
           (\<forall>a \<in> set m2. height h a \<le> l) \<and> l < height h y \<and> (y = a \<or> P (the (h y))) \<and>
           barrier h P (Suc l) (m3 @ rest) \<and> nxt h l (m3 @ rest) = nxt h l (m2 @ m3 @ rest)"
        using Suc.prems mid a by (intro Suc.IH [of "pre @ x # q"]) auto
      then obtain y m1 m2 m3 where y: "z_walk fuel P h a l = Inr y" "a # r = m1 @ y # m2 @ m3"
        "\<forall>a \<in> set m2. height h a \<le> l" "l < height h y" "y = a \<or> P (the (h y))"
        "barrier h P (Suc l) (m3 @ rest)" "nxt h l (m3 @ rest) = nxt h l (m2 @ m3 @ rest)" by blast
      then have "x # mid = (x # q @ m1) @ y # m2 @ m3" by (simp add: mid)
      with y True n step show ?thesis
        by (intro exI [of _ y] exI [of _ "x # q @ m1"] exI [of _ m2] exI [of _ m3]) auto
    next
      case False
      have "barrier h P (Suc l) ((a # r) @ rest)"
        using False n a by (auto simp: barrier_def)
      with False step mid q Suc.prems(2) a show ?thesis
        by (intro exI [of _ x] exI [of _ "[]"] exI [of _ q] exI [of _ "a # r"])
           (auto simp: nxt_append nxt_None [THEN iffD2])
    qed
  qed
qed simp

text \<open>
  The whole search stops before \<open>rest\<close> at a node \<open>y\<close>; \<open>update[i]\<close> is the last node up to \<open>y\<close>
  that takes part in level \<open>i\<close>, and what follows \<open>y\<close> fails \<open>P\<close> at every level searched.
\<close>

lemma z_search_rep:
  assumes "zfwd h (pre @ x # mid @ rest)" and "l \<le> height h x" and "barrier h P l rest"
    and "length mid < fuel"
  shows "\<exists>y upd m1 m2. z_search fuel P h x l = Inr (y, upd) \<and> x # mid = m1 @ y # m2 \<and> length upd = l \<and>
           (\<forall>i < l. upd ! i = last (filter (\<lambda>a. i < height h a) (m1 @ [y]))) \<and>
           (y = x \<or> P (the (h y))) \<and> barrier h P l (m2 @ rest)"
  using assms
proof (induction l arbitrary: pre x mid rest)
  case 0
  then show ?case by (intro exI [of _ x] exI [of _ "[]"] exI [of _ mid]) (auto simp: barrier_def)
next
  case (Suc l)
  from z_walk_rep [of h pre x mid rest l P fuel] Suc.prems obtain x' m1 m2 m3 where
    w: "z_walk fuel P h x l = Inr x'" "x # mid = m1 @ x' # m2 @ m3" "\<forall>a \<in> set m2. height h a \<le> l"
      "l < height h x'" "x' = x \<or> P (the (h x'))" "barrier h P (Suc l) (m3 @ rest)" by auto
  have seg: "zfwd h ((pre @ m1) @ x' # m2 @ (m3 @ rest))"
    using Suc.prems(1) w(2) by (metis append.assoc append_Cons)
  have "length m2 < fuel" using arg_cong [OF w(2), of length] Suc.prems(4) by simp
  moreover have "barrier h P l (m3 @ rest)" using w(6) unfolding barrier_def by (meson less_SucI)
  ultimately obtain y upd k1 k2 where
    s: "z_search fuel P h x' l = Inr (y, upd)" "x' # m2 = k1 @ y # k2" "length upd = l"
      "\<forall>i < l. upd ! i = last (filter (\<lambda>a. i < height h a) (k1 @ [y]))" "y = x' \<or> P (the (h y))"
      "barrier h P l (k2 @ m3 @ rest)"
    using Suc.IH [OF seg] w(4) by (metis append.assoc less_imp_le)
  have last_same: "last (filter (\<lambda>a. i < height h a) (m1 @ k1 @ [y])) = last (filter (\<lambda>a. i < height h a) (k1 @ [y]))"
    if "i \<le> l" for i
  proof -
    have "x' \<in> set (k1 @ [y])" using s(2) by (cases k1) auto
    moreover have "i < height h x'" using that w(4) by simp
    ultimately have "filter (\<lambda>a. i < height h a) (k1 @ [y]) \<noteq> []" by (auto simp: filter_empty_conv)
    then show ?thesis by (simp add: last_append del: filter.simps)
  qed
  have top: "last (filter (\<lambda>a. l < height h a) (k1 @ [y])) = x'"
  proof (cases k1)
    case Nil
    with s(2) w(4) show ?thesis by auto
  next
    case (Cons c k1')
    with s(2) have "c = x'" "set (k1' @ [y]) \<subseteq> set m2" by auto
    with w(3) have "filter (\<lambda>a. l < height h a) (k1' @ [y]) = []"
      unfolding filter_empty_conv by (meson not_less subsetD)
    with Cons \<open>c = x'\<close> w(4) show ?thesis by simp
  qed
  have k2: "set k2 \<subseteq> set m2" using s(2) by (cases k1) auto
  then have "nxt h l k2 = None" using w(3) by (auto simp: nxt_None)
  with s(6) w(6) have bar: "barrier h P (Suc l) (k2 @ m3 @ rest)"
    by (auto simp: barrier_def less_Suc_eq nxt_append)
  have "\<forall>i < Suc l. (upd @ [x']) ! i = last (filter (\<lambda>a. i < height h a) ((m1 @ k1) @ [y]))"
    using s(3,4) last_same top by (auto simp: less_Suc_eq nth_append simp del: filter_append)
  moreover have "x # mid = (m1 @ k1) @ y # k2 @ m3" using w(2) s(2) by (metis append.assoc append_Cons)
  ultimately show ?case
    using w(1,5) s(1,3,5) bar
    by (intro exI [of _ y] exI [of _ "upd @ [x']"] exI [of _ "m1 @ k1"] exI [of _ "k2 @ m3"]) auto
qed

subsection \<open>Splicing and unsplicing\<close>

text \<open>
  What the two loops leave: \<open>relink us k p\<close> replaces \<open>forward[j]\<close> of \<open>us ! (j - k)\<close> by \<open>p j\<close>, for
  every level \<open>j\<close> from \<open>k\<close> on for which \<open>us\<close> has an entry and \<open>c j\<close> holds.
\<close>

definition relink :: "addr list \<Rightarrow> nat \<Rightarrow> (nat \<Rightarrow> addr option) \<Rightarrow> addr \<Rightarrow> zskiplist_node \<Rightarrow> zskiplist_node" where
  "relink us k p a nd = nd\<lparr>zn_forward :=
     map (\<lambda>j. if k \<le> j \<and> j < k + length us \<and> us ! (j - k) = a then p j else zn_forward nd ! j)
         [0..<length (zn_forward nd)]\<rparr>"

lemma relink_simps [simp]:
  "length (zn_forward (relink us k p a nd)) = length (zn_forward nd)"
  "zn_member (relink us k p a nd) = zn_member nd" "zn_score (relink us k p a nd) = zn_score nd"
  "zn_backward (relink us k p a nd) = zn_backward nd" "zn_level (relink us k p a nd) = zn_level nd"
  by (simp_all add: relink_def)

lemma relink_nth:
  "j < length (zn_forward nd) \<Longrightarrow> zn_forward (relink us k p a nd) ! j =
     (if k \<le> j \<and> j < k + length us \<and> us ! (j - k) = a then p j else zn_forward nd ! j)"
  by (simp add: relink_def)

lemma relink_Nil [simp]: "relink [] k p a nd = nd"
  by (cases nd) (auto simp: relink_def intro!: nth_equalityI)

lemma z_set_fwd_Some:
  "h x = Some nd \<Longrightarrow> i < length (zn_forward nd) \<Longrightarrow>
     z_set_fwd h x i p = Inr (h(x \<mapsto> nd\<lparr>zn_forward := (zn_forward nd)[i := p]\<rparr>))"
  by (simp add: z_set_fwd_def)

lemma z_fwd_Some: "h x = Some nd \<Longrightarrow> i < length (zn_forward nd) \<Longrightarrow> z_fwd h x i = Inr (zn_forward nd ! i)"
  by (simp add: z_fwd_def)

lemma relink_Cons:
  assumes "u = a \<Longrightarrow> k < length (zn_forward nd)"
  shows "relink us (Suc k) p a (if u = a then nd\<lparr>zn_forward := (zn_forward nd)[k := p k]\<rparr> else nd)
       = relink (u # us) k p a nd"
  using assms
  by (cases nd) (auto simp: relink_def nth_Cons' Suc_le_eq nth_list_update intro!: nth_equalityI)

lemma z_link_ok:
  assumes "n \<notin> set us" and "h n = Some nd" and "k + length us \<le> length (zn_forward nd)"
    and "\<forall>j < length us. \<exists>u. h (us ! j) = Some u \<and> k + j < length (zn_forward u)"
  shows "\<exists>h' fw. z_link h n k us = Inr h' \<and> h' n = Some (nd\<lparr>zn_forward := fw\<rparr>) \<and>
           length fw = length (zn_forward nd) \<and>
           (\<forall>j < length fw. fw ! j = (if k \<le> j \<and> j < k + length us
              then zn_forward (the (h (us ! (j - k)))) ! j else zn_forward nd ! j)) \<and>
           (\<forall>a. a \<noteq> n \<longrightarrow> h' a = map_option (relink us k (\<lambda>_. Some n) a) (h a))"
  using assms
proof (induction us arbitrary: h k nd)
  case Nil
  then show ?case by (intro exI [of _ h] exI [of _ "zn_forward nd"]) (auto simp: option.map_ident_strong)
next
  case (Cons u us)
  from Cons.prems(4) have "\<exists>x. h u = Some x \<and> k < length (zn_forward x)" by (auto dest: spec [of _ 0])
  then obtain ud where u: "h u = Some ud" "k < length (zn_forward ud)" by blast
  from Cons.prems have un: "u \<noteq> n" "n \<notin> set us" and kn: "k < length (zn_forward nd)" by auto
  define nd1 where "nd1 = nd\<lparr>zn_forward := (zn_forward nd)[k := zn_forward ud ! k]\<rparr>"
  define h2 where "h2 = h(n \<mapsto> nd1, u \<mapsto> ud\<lparr>zn_forward := (zn_forward ud)[k := Some n]\<rparr>)"
  have step: "z_link h n k (u # us) = z_link h2 n (Suc k) us"
    using u un kn Cons.prems(2) by (simp add: z_fwd_Some z_set_fwd_Some h2_def nd1_def)
  have h2_others: "h2 a = map_option (\<lambda>x. if u = a then x\<lparr>zn_forward := (zn_forward x)[k := Some n]\<rparr> else x) (h a)"
    if "a \<noteq> n" for a
    using that u un by (auto simp: h2_def option.map_ident_strong)
  have "\<exists>x. h2 (us ! j) = Some x \<and> Suc k + j < length (zn_forward x)" if "j < length us" for j
  proof -
    from that Cons.prems(4) obtain x where x: "h (us ! j) = Some x" "k + Suc j < length (zn_forward x)"
      by (auto dest: spec [of _ "Suc j"])
    have "us ! j \<noteq> n" using that un(2) nth_mem by metis
    with x h2_others show ?thesis by auto
  qed
  moreover have "h2 n = Some nd1" using un by (simp add: h2_def)
  moreover have "Suc k + length us \<le> length (zn_forward nd1)" using Cons.prems(3) by (simp add: nd1_def)
  ultimately obtain h' fw where IH: "z_link h2 n (Suc k) us = Inr h'" "h' n = Some (nd1\<lparr>zn_forward := fw\<rparr>)"
    "length fw = length (zn_forward nd1)"
    "\<forall>j < length fw. fw ! j = (if Suc k \<le> j \<and> j < Suc k + length us
        then zn_forward (the (h2 (us ! (j - Suc k)))) ! j else zn_forward nd1 ! j)"
    "\<forall>a. a \<noteq> n \<longrightarrow> h' a = map_option (relink us (Suc k) (\<lambda>_. Some n) a) (h2 a)"
    using Cons.IH [OF un(2), of h2 nd1 "Suc k"] by blast
  have "fw ! j = (if k \<le> j \<and> j < k + length (u # us)
        then zn_forward (the (h ((u # us) ! (j - k)))) ! j else zn_forward nd ! j)" if j: "j < length fw" for j
  proof (cases "Suc k \<le> j \<and> j < Suc k + length us")
    case True
    then have "us ! (j - Suc k) \<noteq> n" using un(2) nth_mem [of "j - Suc k" us] by auto
    then have "zn_forward (the (h2 (us ! (j - Suc k)))) ! j = zn_forward (the (h (us ! (j - Suc k)))) ! j"
      using True by (cases "h (us ! (j - Suc k))") (auto simp: h2_others)
    with True IH(4) j show ?thesis by (auto simp: nth_Cons')
  next
    case False
    then show ?thesis using IH(3,4) j u by (cases "j = k") (auto simp: nd1_def nth_list_update)
  qed
  moreover have "h' a = map_option (relink (u # us) k (\<lambda>_. Some n) a) (h a)" if "a \<noteq> n" for a
  proof (cases "h a")
    case (Some x)
    have "u = a \<Longrightarrow> k < length (zn_forward x)" using u Some by auto
    then have "relink us (Suc k) (\<lambda>_. Some n) a (if u = a then x\<lparr>zn_forward := (zn_forward x)[k := Some n]\<rparr> else x)
        = relink (u # us) k (\<lambda>_. Some n) a x"
      by (rule relink_Cons)
    with that Some IH(5) h2_others show ?thesis by simp
  qed (use that IH(5) h2_others in auto)
  ultimately show ?case
    using step IH(1,2,3) by (intro exI [of _ h'] exI [of _ fw]) (auto simp: nd1_def)
qed

lemma nxt_cong: "\<forall>a \<in> set as. height h' a = height h a \<Longrightarrow> nxt h' i as = nxt h i as"
  by (induction as) auto

lemma zfwd_cong: "\<forall>a \<in> set as. h' a = h a \<Longrightarrow> zfwd h' as = zfwd h as"
proof (induction as)
  case (Cons a as)
  then have "nxt h' i as = nxt h i as" for i by (intro nxt_cong) (auto simp: height_def)
  with Cons show ?case by auto
qed simp

lemma last_filter_split: "a \<notin> set f2 \<Longrightarrow> P a \<Longrightarrow> last (filter P (f1 @ a # f2)) = a \<longleftrightarrow> filter P f2 = []"
  using last_in_set [of "filter P f2"] by auto

lemma last_filter_after:
  "\<exists>a \<in> set front. P a \<Longrightarrow>
     \<exists>f1 f2. front = f1 @ last (filter P front) # f2 \<and> P (last (filter P front)) \<and> filter P f2 = []"
proof (induction front rule: rev_induct)
  case (snoc a front)
  show ?case
  proof (cases "P a")
    case True
    then show ?thesis by (intro exI [of _ front] exI [of _ "[]"]) simp
  next
    case False
    with snoc obtain f1 f2 where
      "front = f1 @ last (filter P front) # f2" "P (last (filter P front))" "filter P f2 = []" by auto
    with False show ?thesis by (intro exI [of _ f1] exI [of _ "f2 @ [a]"]) simp
  qed
qed simp

text \<open>Splicing a node of height \<open>length us\<close> between \<open>front\<close> and \<open>post\<close>.\<close>

definition spliced ::
  "zskiplist_node heap \<Rightarrow> zskiplist_node heap \<Rightarrow> addr list \<Rightarrow> addr list \<Rightarrow> addr \<Rightarrow> addr list \<Rightarrow> zskiplist_node \<Rightarrow> bool" where
  "spliced h h' front post n us nd \<longleftrightarrow>
     zfwd h (front @ post) \<and> distinct (front @ post) \<and> n \<notin> set (front @ post) \<and>
     (\<forall>i < length us. us ! i = last (filter (\<lambda>a. i < height h a) front) \<and> (\<exists>a \<in> set front. i < height h a)) \<and>
     h' n = Some nd \<and> length (zn_forward nd) = length us \<and>
     (\<forall>j < length us. zn_forward nd ! j = zn_forward (the (h (us ! j))) ! j) \<and>
     (\<forall>a. a \<noteq> n \<longrightarrow> h' a = map_option (relink us 0 (\<lambda>_. Some n) a) (h a))"

lemma splicedD:
  assumes "spliced h h' front post n us nd"
  shows "zfwd h (front @ post)" "distinct (front @ post)" "n \<notin> set (front @ post)"
    "\<forall>i < length us. us ! i = last (filter (\<lambda>a. i < height h a) front) \<and> (\<exists>a \<in> set front. i < height h a)"
    "h' n = Some nd" "length (zn_forward nd) = length us"
    "\<forall>j < length us. zn_forward nd ! j = zn_forward (the (h (us ! j))) ! j"
    "\<forall>a. a \<noteq> n \<longrightarrow> h' a = map_option (relink us 0 (\<lambda>_. Some n) a) (h a)"
  using assms unfolding spliced_def by blast+

lemma spliced_height:
  assumes "spliced h h' front post n us nd" "a \<in> set (front @ post)"
  shows "height h' a = height h a"
proof -
  note d = splicedD [OF assms(1)]
  from split_list [OF assms(2)] d(1) zfwd_node obtain x where "h a = Some x" by metis
  with assms(2) d(3,8) show ?thesis by (auto simp: height_def)
qed

text \<open>The nodes behind the new one are untouched.\<close>

lemma spliced_post:
  assumes "spliced h h' front post n us nd"
  shows "zfwd h' post"
proof -
  note d = splicedD [OF assms]
  have us: "u \<in> set front" if u: "u \<in> set us" for u
  proof -
    from u obtain i where "i < length us" "us ! i = u" by (auto simp: in_set_conv_nth)
    with d(4) have "u = last (filter (\<lambda>a. i < height h a) front)" "\<exists>a \<in> set front. i < height h a" by auto
    then show ?thesis by (metis (no_types, lifting) filter_empty_conv filter_is_subset last_in_set subsetD)
  qed
  have "h' a = h a" if a: "a \<in> set post" for a
  proof -
    have "a \<notin> set us" "a \<noteq> n" using a us d(2,3) by auto
    then have "relink us 0 (\<lambda>_. Some n) a x = x" for x
      by (cases x) (auto simp: relink_def intro!: nth_equalityI dest: nth_mem)
    with d(8) \<open>a \<noteq> n\<close> show ?thesis by (simp add: option.map_ident_strong)
  qed
  with zfwd_cong [of post h' h] zfwd_append [OF d(1)] show ?thesis by simp
qed

text \<open>The new node points where the nodes before it pointed.\<close>

lemma spliced_new:
  assumes "spliced h h' front post n us nd"
  shows "zfwd h' (n # post)"
proof -
  note d = splicedD [OF assms]
  have "zn_forward nd ! j = nxt h' j post" if j: "j < length us" for j
  proof -
    from d(4) j obtain f1 f2 where f: "front = f1 @ us ! j # f2" "j < height h (us ! j)"
      "filter (\<lambda>a. j < height h a) f2 = []"
      using last_filter_after [of front "\<lambda>a. j < height h a"] by auto
    with d(1) zfwd_node [of h f1 "us ! j" "f2 @ post"] obtain x where
      x: "h (us ! j) = Some x" "zn_forward x ! j = nxt h j (f2 @ post)" by auto
    from f(3) have "nxt h j f2 = None" by (auto simp: nxt_None filter_empty_conv not_less)
    with x d(7) j have "zn_forward nd ! j = nxt h j post" by (simp add: nxt_append)
    also have "\<dots> = nxt h' j post" using spliced_height [OF assms] by (intro nxt_cong [symmetric]) auto
    finally show ?thesis .
  qed
  with spliced_post [OF assms] d(5,6) show ?thesis by simp
qed

text \<open>A node before the new one points to it on the levels where it was the last.\<close>

lemma spliced_node:
  assumes sp: "spliced h h' front post n us nd" and front: "front = f1 @ a # f2"
  shows "\<exists>x. h' a = Some x \<and> (\<forall>j < length (zn_forward x). zn_forward x ! j = nxt h' j (f2 @ n # post))"
proof -
  note d = splicedD [OF sp]
  from d(1) front zfwd_node [of h f1 a "f2 @ post"] obtain x where
    x: "h a = Some x" "length (zn_forward x) = height h a"
       "\<forall>i < height h a. zn_forward x ! i = nxt h i (f2 @ post)" by auto
  have a: "a \<noteq> n" "a \<notin> set f2" using d(2,3) front by auto
  have same: "nxt h' j f2 = nxt h j f2" "nxt h' j post = nxt h j post" for j
    using spliced_height [OF sp] front by (auto intro!: nxt_cong)
  have n: "height h' n = length us" using d(5,6) by (simp add: height_def)
  have "zn_forward (relink us 0 (\<lambda>_. Some n) a x) ! j = nxt h' j (f2 @ n # post)" if j: "j < height h a" for j
  proof (cases "j < length us")
    case True
    have "us ! j = a \<longleftrightarrow> nxt h j f2 = None"
      using d(4) True last_filter_split [OF a(2), of "\<lambda>b. j < height h b" f1] j front
      by (auto simp: nxt_None filter_empty_conv not_less)
    then show ?thesis using True j x n same by (auto simp: relink_nth nxt_append split: option.splits)
  next
    case False
    then show ?thesis using j x n same by (auto simp: relink_nth nxt_append split: option.splits)
  qed
  with x d(8) a(1) show ?thesis by simp
qed

lemma zfwd_insert:
  assumes sp: "spliced h h' front post n us nd"
  shows "zfwd h' (front @ n # post)"
proof -
  have "zfwd h' (f2 @ n # post)" if "front = f1 @ f2" for f1 f2
    using that
  proof (induction f2 arbitrary: f1)
    case (Cons a f2)
    with spliced_node [OF sp Cons.prems] Cons.IH [of "f1 @ [a]"] show ?case by simp
  qed (use spliced_new [OF sp] in simp)
  from this [of "[]"] show ?thesis by simp
qed

end
