(* ===== verification/Skip_List_Ops.thy ===== *)
theory Skip_List_Ops
  imports Skip_List "HOL-Library.Multiset"
begin

text \<open>
  Correctness of the skip list operations: memory safety and preservation of the
  representation by insertion and deletion, sortedness, ranks, and the exact condition
  under which a deletion finds its member.
\<close>

subsection \<open>Insertion\<close>

text \<open>The entries in order, read along \<open>forward[0]\<close>.\<close>

definition z_entry :: "zskiplist_node heap \<Rightarrow> addr \<Rightarrow> zentry" where
  "z_entry h a = (zn_score (the (h a)), zn_member (the (h a)))"

fun z_chain :: "zskiplist_node heap \<Rightarrow> addr option \<Rightarrow> nat \<Rightarrow> addr list" where
  "z_chain h p 0 = []"
| "z_chain h None (Suc k) = []"
| "z_chain h (Some a) (Suc k) = a # z_chain h (zn_forward (the (h a)) ! 0) k"

definition zsl_list :: "zskiplist \<Rightarrow> zentry list" where
  "zsl_list z = map (z_entry (z_heap z))
     (z_chain (z_heap z) (zn_forward (the (z_heap z (z_header z))) ! 0) (z_length z))"

definition zsl_inv :: "zskiplist \<Rightarrow> bool" where
  "zsl_inv z \<longleftrightarrow> (\<exists>as. zsl_rep z as)"

lemma nxt_0: "\<forall>a \<in> set as. 1 \<le> height h a \<Longrightarrow> nxt h 0 as = first_or None as"
  by (cases as) auto

lemma z_chain_zfwd:
  "zfwd h as \<Longrightarrow> \<forall>a \<in> set as. 1 \<le> height h a \<Longrightarrow> z_chain h (first_or None as) (length as) = as"
proof (induction as)
  case (Cons a as)
  then have "1 \<le> height h a" "nxt h 0 as = first_or None as" by (simp_all add: nxt_0)
  with zfwd_node [of h "[]" a as] Cons.prems(1) have "zn_forward (the (h a)) ! 0 = first_or None as"
    by auto
  with Cons show ?case by auto
qed simp

lemma zsl_repD:
  assumes "zsl_rep z as"
  shows "zsl_inv z" and "zsl_list z = map (z_entry (z_heap z)) as"
proof -
  from assms have "zn_forward (the (z_heap z (z_header z))) ! 0 = first_or None as"
    by (auto simp: zsl_rep_def height_def ZSKIPLIST_MAXLEVEL_def nxt_0)
  with assms z_chain_zfwd [of "z_heap z" as] show "zsl_list z = map (z_entry (z_heap z)) as"
    by (auto simp: zsl_list_def zsl_rep_def)
qed (use assms in \<open>auto simp: zsl_inv_def\<close>)

lemma zbwd_append [simp]: "zbwd h p (as @ bs) \<longleftrightarrow> zbwd h p as \<and> zbwd h (last_or p as) bs"
  by (induction as arbitrary: p) auto

lemma zbwd_cong: "\<forall>a \<in> set as. zn_backward (the (h' a)) = zn_backward (the (h a)) \<Longrightarrow> zbwd h' p as = zbwd h p as"
  by (induction as arbitrary: p) auto

text \<open>Changing only \<open>backward\<close> fields keeps the forward structure.\<close>

lemma zfwd_backward:
  assumes "\<forall>a. h' a = map_option (\<lambda>n. n\<lparr>zn_backward := b a n\<rparr>) (h a)"
  shows "height h' = height h" and "zfwd h' as = zfwd h as" and "z_entry h' = z_entry h"
proof -
  show ht: "height h' = height h"
  proof
    fix a show "height h' a = height h a"
      using assms [rule_format, of a] by (cases "h a") (auto simp: height_def)
  qed
  show "z_entry h' = z_entry h"
  proof
    fix a show "z_entry h' a = z_entry h a"
      using assms [rule_format, of a] by (cases "h a") (auto simp: z_entry_def)
  qed
  have nx: "nxt h' i as = nxt h i as" for i as by (simp add: nxt_def ht)
  show "zfwd h' as = zfwd h as"
  proof (induction as)
    case (Cons a as)
    with assms [rule_format, of a] nx show ?case by (cases "h a") auto
  qed simp
qed

text \<open>What a search from the header finds, in terms of the nodes in order.\<close>

lemma zsl_search:
  assumes rep: "zsl_rep z as" and bar: "as = mid @ rest" "barrier (z_heap z) P (z_level z) rest"
  shows "\<exists>y upd front post. z_search (z_brk z) P (z_heap z) (z_header z) (z_level z) = Inr (y, upd) \<and>
     as = front @ post \<and> (\<exists>m. mid = front @ m) \<and> y = last (z_header z # front) \<and> length upd = z_level z \<and>
     (\<forall>i < z_level z. upd ! i = last (filter (\<lambda>a. i < height (z_heap z) a) (z_header z # front))) \<and>
     (front = [] \<or> P (the (z_heap z (last front)))) \<and> barrier (z_heap z) P (z_level z) post"
proof -
  from rep have seg: "zfwd (z_heap z) ([] @ z_header z # mid @ rest)" and lev: "z_level z \<le> height (z_heap z) (z_header z)"
    and dist: "distinct (z_header z # as)" and brk: "set (z_header z # as) \<subseteq> {..<z_brk z}"
    using bar(1) by (auto simp: zsl_rep_def)
  from brk dist have "length (z_header z # as) \<le> z_brk z"
    by (metis card_lessThan card_mono distinct_card finite_lessThan)
  then have "length mid < z_brk z" by (simp add: bar(1))
  from z_search_rep [OF seg lev bar(2) this] obtain y upd m1 m2 where
    s: "z_search (z_brk z) P (z_heap z) (z_header z) (z_level z) = Inr (y, upd)"
      "z_header z # mid = m1 @ y # m2" "length upd = z_level z"
      "\<forall>i < z_level z. upd ! i = last (filter (\<lambda>a. i < height (z_heap z) a) (m1 @ [y]))"
      "y = z_header z \<or> P (the (z_heap z y))" "barrier (z_heap z) P (z_level z) (m2 @ rest)" by blast
  define front where "front = tl (m1 @ [y])"
  have hf: "m1 @ [y] = z_header z # front" using s(2) by (cases m1) (auto simp: front_def)
  from s(2) have "z_header z # mid = (m1 @ [y]) @ m2" by simp
  then have mid: "mid = front @ m2" by (simp only: hf) simp
  have y: "y = last (z_header z # front)" using hf by (metis last_snoc)
  have "front = [] \<or> P (the (z_heap z (last front)))"
    using s(5) y dist bar(1) mid by (cases front rule: rev_cases) auto
  with s(1,3,4,6) mid y bar(1) show ?thesis unfolding hf
    by (intro exI [of _ y] exI [of _ upd] exI [of _ front] exI [of _ "m2 @ rest"]) simp
qed

text \<open>The entries of \<open>update\<close>, extended with the header where the new node is taller.\<close>

lemma zsl_update:
  assumes rep: "zsl_rep z as" and as: "as = front @ post" and lvl: "lvl \<le> ZSKIPLIST_MAXLEVEL"
    and upd: "length upd = z_level z"
      "\<forall>i < z_level z. upd ! i = last (filter (\<lambda>a. i < height (z_heap z) a) (z_header z # front))"
    and us: "us = take lvl (if lvl > z_level z then upd @ replicate (lvl - z_level z) (z_header z) else upd)"
  shows "length us = lvl \<and> (\<forall>i < lvl. us ! i = last (filter (\<lambda>a. i < height (z_heap z) a) (z_header z # front)) \<and>
           (\<exists>a \<in> set (z_header z # front). i < height (z_heap z) a))"
proof -
  have hdr: "height (z_heap z) (z_header z) = ZSKIPLIST_MAXLEVEL"
    and low: "\<forall>a \<in> set front. height (z_heap z) a \<le> z_level z"
    using rep as by (auto simp: zsl_rep_def)
  have "us ! i = last (filter (\<lambda>a. i < height (z_heap z) a) (z_header z # front))" if i: "i < lvl" for i
  proof (cases "i < z_level z")
    case True
    then show ?thesis using i upd us by (auto simp: nth_append)
  next
    case False
    with low have "filter (\<lambda>a. i < height (z_heap z) a) front = []"
      by (fastforce simp: filter_empty_conv)
    with False i us upd(1) hdr lvl show ?thesis by (auto simp: nth_append)
  qed
  with us upd(1) hdr lvl show ?thesis by auto
qed

lemma zsl_update_nodes:
  assumes seg: "zfwd h (front @ post)"
    and us: "\<forall>i < length us. us ! i = last (filter (\<lambda>a. i < height h a) front) \<and> (\<exists>a \<in> set front. i < height h a)"
  shows "set us \<subseteq> set front" and "\<forall>i < length us. \<exists>u. h (us ! i) = Some u \<and> i < length (zn_forward u)"
proof -
  have key: "\<exists>f1 f2. front = f1 @ us ! i # f2 \<and> i < height h (us ! i)" if "i < length us" for i
    using last_filter_after [of front "\<lambda>a. i < height h a"] us that by auto
  then show "set us \<subseteq> set front" by (fastforce simp: in_set_conv_nth [of _ us])
  show "\<forall>i < length us. \<exists>u. h (us ! i) = Some u \<and> i < length (zn_forward u)"
  proof (intro allI impI)
    fix i assume "i < length us"
    from key [OF this] obtain f1 f2 where "front = f1 @ us ! i # f2" "i < height h (us ! i)" by blast
    with seg zfwd_node [of h f1 "us ! i" "f2 @ post"] show "\<exists>u. h (us ! i) = Some u \<and> i < length (zn_forward u)"
      by auto
  qed
qed

text \<open>The heap after the splicing loop, before the backward pointers are set.\<close>

lemma zsl_splice:
  assumes rep: "zsl_rep z as" and as: "as = front @ post"
    and us: "length us = lvl" "\<forall>i < lvl. us ! i = last (filter (\<lambda>a. i < height (z_heap z) a) (z_header z # front)) \<and>
           (\<exists>a \<in> set (z_header z # front). i < height (z_heap z) a)"
    and nd: "length (zn_forward nd) = lvl"
  shows "\<exists>h nd'. z_link ((z_heap z)(z_brk z \<mapsto> nd)) (z_brk z) 0 us = Inr h \<and>
           h (z_brk z) = Some (nd\<lparr>zn_forward := nd'\<rparr>) \<and> length nd' = lvl \<and>
           zfwd h ((z_header z # front) @ z_brk z # post) \<and>
           (\<forall>a. a \<noteq> z_brk z \<longrightarrow> h a = map_option (relink us 0 (\<lambda>_. Some (z_brk z)) a) (z_heap z a))"
proof -
  let ?n = "z_brk z" and ?f = "z_header z # front"
  from rep as have seg: "zfwd (z_heap z) (?f @ post)" and dist: "distinct (?f @ post)" and fresh: "?n \<notin> set (?f @ post)"
    by (auto simp: zsl_rep_def)
  from us have us': "\<forall>i < length us. us ! i = last (filter (\<lambda>a. i < height (z_heap z) a) ?f) \<and>
      (\<exists>a \<in> set ?f. i < height (z_heap z) a)" by simp
  note nodes = zsl_update_nodes [OF seg us']
  have un: "?n \<notin> set us" using nodes(1) fresh by auto
  then have neq: "us ! i \<noteq> ?n" if "i < length us" for i using that nth_mem by metis
  have "\<forall>j < length us. \<exists>u. ((z_heap z)(?n \<mapsto> nd)) (us ! j) = Some u \<and> 0 + j < length (zn_forward u)"
    using nodes(2) neq by auto
  with z_link_ok [OF un, of "(z_heap z)(?n \<mapsto> nd)" nd 0] nd us(1) obtain h fw where
    l: "z_link ((z_heap z)(?n \<mapsto> nd)) ?n 0 us = Inr h" "h ?n = Some (nd\<lparr>zn_forward := fw\<rparr>)" "length fw = lvl"
      "\<forall>j < length fw. fw ! j = (if 0 \<le> j \<and> j < 0 + length us
         then zn_forward (the (((z_heap z)(?n \<mapsto> nd)) (us ! (j - 0)))) ! j else zn_forward nd ! j)"
      "\<forall>a. a \<noteq> ?n \<longrightarrow> h a = map_option (relink us 0 (\<lambda>_. Some ?n) a) (((z_heap z)(?n \<mapsto> nd)) a)" by auto
  have oth: "\<forall>a. a \<noteq> ?n \<longrightarrow> h a = map_option (relink us 0 (\<lambda>_. Some ?n) a) (z_heap z a)" using l(5) by simp
  have fw: "\<forall>j < length us. zn_forward (nd\<lparr>zn_forward := fw\<rparr>) ! j = zn_forward (the (z_heap z (us ! j))) ! j"
    using l(3,4) us(1) neq by auto
  have "spliced (z_heap z) h ?f post ?n us (nd\<lparr>zn_forward := fw\<rparr>)"
    using seg dist fresh us' l(2,3) us(1) fw oth unfolding spliced_def by simp
  from zfwd_insert [OF this] l oth show ?thesis by blast
qed

lemma zfwd_mapped: "zfwd h as \<Longrightarrow> a \<in> set as \<Longrightarrow> \<exists>nd. h a = Some nd"
  by (induction as) auto

text \<open>The tail of \<open>zsl_insert\<close>: the two backward pointers and the tail of the list.\<close>

lemma zsl_backlink:
  assumes seg: "zfwd h ((hdr # front) @ n # post)" and dist: "distinct ((hdr # front) @ n # post)"
    and bw: "zbwd h None (front @ post)" and ht: "\<forall>a \<in> set (front @ n # post). 1 \<le> height h a"
  shows "\<exists>h'. (\<forall>f :: _ \<Rightarrow> 'r res. bindr (store h n (\<lambda>nd. nd\<lparr>zn_backward :=
                (if last (hdr # front) = hdr then None else Some (last (hdr # front)))\<rparr>)) (\<lambda>h.
             bindr (z_fwd h n 0) (\<lambda>p.
             bindr (case p of
                Some q \<Rightarrow> bindr (store h q (\<lambda>nd. nd\<lparr>zn_backward := Some n\<rparr>)) (\<lambda>h. Inr (h, tl0))
              | None \<Rightarrow> Inr (h, Some n)) f)) = f (h', if post = [] then Some n else tl0)) \<and>
           zfwd h' ((hdr # front) @ n # post) \<and> zbwd h' None (front @ n # post) \<and>
           height h' = height h \<and> z_entry h' = z_entry h \<and> dom h' = dom h"
proof -
  let ?b = "if last (hdr # front) = hdr then None else Some (last (hdr # front))"
  let ?f = "\<lambda>a nd. if a = n then last_or None front else if first_or None post = Some a then Some n else zn_backward nd"
  define h' where "h' = (\<lambda>a. map_option (\<lambda>nd. nd\<lparr>zn_backward := ?f a nd\<rparr>) (h a))"
  have h': "h' a = map_option (\<lambda>nd. nd\<lparr>zn_backward := ?f a nd\<rparr>) (h a)" for a by (simp add: h'_def)
  have b: "?b = last_or None front" using dist by (cases front rule: rev_cases) auto
  have upd: "zfwd h' bs = zfwd h bs" "height h' = height h" "z_entry h' = z_entry h" for bs
    using zfwd_backward [of h' ?f h] h' by simp_all
  have dm: "dom h' = dom h" by (auto simp: h')
  obtain nd where nd: "h n = Some nd" using zfwd_mapped [OF seg] by auto
  from zfwd_node [OF seg] nd ht have fw: "0 < length (zn_forward nd)" "zn_forward nd ! 0 = first_or None post"
    by (auto simp: nxt_0)
  have bwd: "zn_backward (the (h' a)) = ?f a (the (h a))" if "a \<in> set (front @ n # post)" for a
    using zfwd_mapped [OF seg, of a] that by (auto simp: h')
  have "zbwd h' None front = zbwd h None front"
    using dist bwd by (intro zbwd_cong) (auto dest!: first_or_SomeD)
  moreover have "zbwd h' (Some n) post"
  proof (cases post)
    case (Cons q post')
    have "zbwd h' (Some q) post' = zbwd h (Some q) post'"
      using dist bwd Cons by (intro zbwd_cong) auto
    then show ?thesis using bwd [of q] Cons bw dist by auto
  qed simp
  ultimately have "zbwd h' None (front @ n # post)" using bw bwd [of n] by auto
  moreover have "bindr (store h n (\<lambda>nd. nd\<lparr>zn_backward := ?b\<rparr>)) (\<lambda>h.
             bindr (z_fwd h n 0) (\<lambda>p.
             bindr (case p of
                Some q \<Rightarrow> bindr (store h q (\<lambda>nd. nd\<lparr>zn_backward := Some n\<rparr>)) (\<lambda>h. Inr (h, tl0))
              | None \<Rightarrow> Inr (h, Some n)) f)) = f (h', if post = [] then Some n else tl0)" for f :: "_ \<Rightarrow> 'r res"
  proof (cases post)
    case Nil
    then have "h(n \<mapsto> nd\<lparr>zn_backward := last_or None front\<rparr>) = h'"
      using nd by (auto simp: h' fun_eq_iff option.map_ident_strong)
    with Nil nd fw show ?thesis unfolding b by (simp add: z_fwd_def flip: \<open>_ = h'\<close>)
  next
    case (Cons q post')
    then obtain qd where q: "h q = Some qd" "q \<noteq> n" using zfwd_mapped [OF seg, of q] dist by auto
    with Cons have "h(n \<mapsto> nd\<lparr>zn_backward := last_or None front\<rparr>, q \<mapsto> qd\<lparr>zn_backward := Some n\<rparr>) = h'"
      using nd by (auto simp: h' fun_eq_iff option.map_ident_strong)
    with Cons nd fw q show ?thesis unfolding b by (simp add: z_fwd_def)
  qed
  ultimately show ?thesis using seg dm by (intro exI [of _ h']) (simp only: upd simp_thms)
qed

text \<open>Where an insertion looks for its place.\<close>

lemma zsl_insert_place:
  assumes rep: "zsl_rep z as"
  shows "\<exists>y upd front post. z_search (z_brk z) P (z_heap z) (z_header z) (z_level z) = Inr (y, upd) \<and> as = front @ post \<and>
    length upd = z_level z \<and>
    (\<forall>i < z_level z. upd ! i = last (filter (\<lambda>a. i < height (z_heap z) a) (z_header z # front))) \<and>
    (front = [] \<or> P (the (z_heap z (last front)))) \<and> (post = [] \<or> \<not> P (the (z_heap z (hd post))))"
proof -
  from zsl_search [OF rep, of as "[]" P] obtain y upd front post where
    s: "z_search (z_brk z) P (z_heap z) (z_header z) (z_level z) = Inr (y, upd)" and as: "as = front @ post"
    and upd: "length upd = z_level z"
      "\<forall>i < z_level z. upd ! i = last (filter (\<lambda>a. i < height (z_heap z) a) (z_header z # front))"
    and fr: "front = [] \<or> P (the (z_heap z (last front)))" and bar: "barrier (z_heap z) P (z_level z) post"
    by (auto simp: barrier_def)
  have "post = [] \<or> \<not> P (the (z_heap z (hd post)))"
    using rep as bar by (cases post) (auto simp: barrier_def zsl_rep_def Suc_le_eq dest: spec [of _ 0])
  with s as upd fr show ?thesis by blast
qed

text \<open>Relinking changes the forward pointers only.\<close>

lemma relinked_old:
  assumes "\<forall>a. a \<noteq> n \<longrightarrow> h a = map_option (relink us 0 f a) (g a)" "a \<in> dom g" "a \<noteq> n"
  shows "height h a = height g a \<and> z_entry h a = z_entry g a \<and> zn_backward (the (h a)) = zn_backward (the (g a))"
  using assms by (auto simp: height_def z_entry_def)

text \<open>The list with the new node, from its heap.\<close>

lemma zsl_inserted_rep:
  assumes rep: "zsl_rep z as" and as: "as = front @ post" and lvl: "1 \<le> lvl" "lvl \<le> ZSKIPLIST_MAXLEVEL"
    and h: "zfwd h ((z_header z # front) @ z_brk z # post)" "zbwd h None (front @ z_brk z # post)"
      "dom h = insert (z_brk z) (dom (z_heap z))" "height h (z_brk z) = lvl"
      "\<forall>a \<in> set (z_header z # as). height h a = height (z_heap z) a"
  shows "zsl_rep (z\<lparr>z_heap := h, z_brk := Suc (z_brk z), z_tail := (if post = [] then Some (z_brk z) else z_tail z),
      z_length := Suc (z_length z), z_level := max lvl (z_level z)\<rparr>) (front @ z_brk z # post)"
proof -
  have "\<forall>a \<in> set (front @ z_brk z # post). 1 \<le> height h a \<and> height h a \<le> max lvl (z_level z)"
    using rep as lvl(1) h(4,5) by (auto simp: zsl_rep_def le_max_iff_disj)
  moreover have "(if post = [] then Some (z_brk z) else z_tail z) = last_or None (front @ z_brk z # post)"
    using rep as by (auto simp: zsl_rep_def last_or_def)
  moreover have "distinct ((z_header z # front) @ z_brk z # post)" "dom h = set (z_header z # front @ z_brk z # post)"
    "\<forall>a \<in> set (z_header z # front @ z_brk z # post). a < Suc (z_brk z)" "height h (z_header z) = ZSKIPLIST_MAXLEVEL"
    using rep as h(3,5) by (auto simp: zsl_rep_def less_Suc_eq)
  moreover have "max lvl (z_level z) \<le> ZSKIPLIST_MAXLEVEL" "1 \<le> max lvl (z_level z)" "z_length z = length (front @ post)"
    using rep as lvl by (auto simp: zsl_rep_def)
  ultimately show ?thesis using h(1,2) unfolding zsl_rep_def by simp
qed

lemma zsl_insert_rep:
  assumes rep: "zsl_rep z as"
  shows "\<exists>z' front post. zsl_insert rs z score member = Inr (z_brk z, z') \<and> as = front @ post \<and>
     zsl_rep z' (front @ z_brk z # post) \<and> z_entry (z_heap z') (z_brk z) = (score, member) \<and>
     (\<forall>a \<in> set as. z_entry (z_heap z') a = z_entry (z_heap z) a) \<and>
     (front = [] \<or> z_before score member (the (z_heap z (last front)))) \<and>
     (post = [] \<or> \<not> z_before score member (the (z_heap z (hd post))))"
proof -
  let ?n = "z_brk z" and ?P = "z_before score member" and ?hdr = "z_header z"
  define lvl where "lvl = zsl_random_level rs"
  have lvl: "1 \<le> lvl" "lvl \<le> ZSKIPLIST_MAXLEVEL" using zsl_random_level_bounds by (auto simp: lvl_def)
  from zsl_insert_place [OF rep, of ?P] obtain y upd front post where
    s: "z_search (z_brk z) ?P (z_heap z) ?hdr (z_level z) = Inr (y, upd)" and as: "as = front @ post"
    and upd: "length upd = z_level z" "\<forall>i < z_level z. upd ! i = last (filter (\<lambda>a. i < height (z_heap z) a) (?hdr # front))"
    and ends: "front = [] \<or> ?P (the (z_heap z (last front)))" "post = [] \<or> \<not> ?P (the (z_heap z (hd post)))" by blast
  define update where "update = (if lvl > z_level z then upd @ replicate (lvl - z_level z) ?hdr else upd)"
  define us where "us = take lvl update"
  have us: "length us = lvl" "\<forall>i < lvl. us ! i = last (filter (\<lambda>a. i < height (z_heap z) a) (?hdr # front)) \<and>
           (\<exists>a \<in> set (?hdr # front). i < height (z_heap z) a)"
    using zsl_update [OF rep as lvl(2) upd us_def [unfolded update_def]] by auto
  define nd where "nd = \<lparr>zn_member = member, zn_score = score, zn_forward = replicate lvl None,
                         zn_backward = None, zn_level = lvl\<rparr>"
  obtain h fw where h: "z_link ((z_heap z)(?n \<mapsto> nd)) ?n 0 us = Inr h" "h ?n = Some (nd\<lparr>zn_forward := fw\<rparr>)"
    "length fw = lvl" "zfwd h ((?hdr # front) @ ?n # post)"
    "\<forall>a. a \<noteq> ?n \<longrightarrow> h a = map_option (relink us 0 (\<lambda>_. Some ?n) a) (z_heap z a)"
    using zsl_splice [OF rep as us, of nd] by (auto simp: nd_def)
  from rep as have r: "distinct ((?hdr # front) @ ?n # post)" "zbwd (z_heap z) None (front @ post)"
    "dom (z_heap z) = set (?hdr # front @ post)" "\<forall>a \<in> set as. 1 \<le> height (z_heap z) a" "0 < height (z_heap z) ?hdr"
    by (auto simp: zsl_rep_def ZSKIPLIST_MAXLEVEL_def)
  have old: "\<forall>a \<in> set (?hdr # as). height h a = height (z_heap z) a \<and> z_entry h a = z_entry (z_heap z) a \<and>
      zn_backward (the (h a)) = zn_backward (the (z_heap z a))"
    using relinked_old [OF h(5)] r(1,3) as by auto
  have new: "height h ?n = lvl" "z_entry h ?n = (score, member)" using h(2,3) by (auto simp: height_def z_entry_def nd_def)
  have "zbwd h None (front @ post)" using r(2) old as zbwd_cong [of "front @ post" h "z_heap z"] by simp
  moreover have "\<forall>a \<in> set (front @ ?n # post). 1 \<le> height h a" using old new r(4) lvl as by auto
  ultimately obtain h' where h': "\<forall>f :: _ \<Rightarrow> (addr \<times> zskiplist) res. bindr (store h ?n (\<lambda>nd. nd\<lparr>zn_backward :=
                (if last (?hdr # front) = ?hdr then None else Some (last (?hdr # front)))\<rparr>)) (\<lambda>h.
             bindr (z_fwd h ?n 0) (\<lambda>p.
             bindr (case p of
                Some q \<Rightarrow> bindr (store h q (\<lambda>nd. nd\<lparr>zn_backward := Some ?n\<rparr>)) (\<lambda>h. Inr (h, z_tail z))
              | None \<Rightarrow> Inr (h, Some ?n)) f)) = f (h', if post = [] then Some ?n else z_tail z)"
    "zfwd h' ((?hdr # front) @ ?n # post)" "zbwd h' None (front @ ?n # post)"
    "height h' = height h" "z_entry h' = z_entry h" "dom h' = dom h"
    using zsl_backlink [OF h(4) r(1), where ?tl0.0 = "z_tail z"] by blast
  have "filter (\<lambda>a. 0 < height (z_heap z) a) (?hdr # front) = ?hdr # front"
    using r(4,5) as by (intro filter_True) (auto simp: Suc_le_eq)
  then have u0: "update ! 0 = last (?hdr # front)" using us(2) lvl(1) by (auto simp: us_def dest: spec [of _ 0])
  let ?z = "z\<lparr>z_heap := h', z_brk := Suc ?n, z_tail := (if post = [] then Some ?n else z_tail z),
              z_length := Suc (z_length z), z_level := max lvl (z_level z)\<rparr>"
  have "zsl_insert rs z score member = Inr (?n, ?z)"
    by (simp only: zsl_insert_def s Let_def lvl_def [symmetric] update_def [symmetric] us_def [symmetric]
         nd_def [symmetric] h(1) h'(1) u0 bindr_simps prod.case)
  moreover have "a \<in> dom h \<longleftrightarrow> a \<in> insert ?n (dom (z_heap z))" for a using h(2,5) by (cases "a = ?n") (auto simp: domIff)
  then have "dom h = insert ?n (dom (z_heap z))" by blast
  then have "zsl_rep ?z (front @ ?n # post)" using zsl_inserted_rep [OF rep as lvl h'(2,3)] h'(4,6) new(1) old by simp
  moreover have "\<forall>a \<in> set as. z_entry (z_heap ?z) a = z_entry (z_heap z) a" using h'(5) old by simp
  ultimately show ?thesis using as ends new(2) h'(5)
    by (intro exI [of _ ?z] exI [of _ front] exI [of _ post]) simp
qed

subsection \<open>Sortedness\<close>

text \<open>Sorted without a NaN; the reference insertion of a sorted list.\<close>

definition zsorted :: "zentry list \<Rightarrow> bool" where
  "zsorted es \<longleftrightarrow> (\<forall>e \<in> set es. znum e) \<and> sorted_wrt (\<lambda>a b. \<not> zless b a) es"

definition zins :: "zentry \<Rightarrow> zentry list \<Rightarrow> zentry list" where
  "zins e es = takeWhile (\<lambda>a. zless a e) es @ e # dropWhile (\<lambda>a. zless a e) es"

lemma z_before_zless: "z_before score member nd \<longleftrightarrow> zless (zn_score nd, zn_member nd) (score, member)"
  by (simp add: z_before_def zless_def)

lemma zless_entry: "z_before score member (the (h a)) \<longleftrightarrow> zless (z_entry h a) (score, member)"
  by (simp add: z_before_zless z_entry_def)

text \<open>A position whose left neighbour is below \<open>e\<close> and whose right neighbour is not.\<close>

lemma zsorted_position:
  assumes "zsorted (xs @ ys)" "znum e" "xs = [] \<or> zless (last xs) e" "ys = [] \<or> \<not> zless (hd ys) e"
  shows "zins e (xs @ ys) = xs @ e # ys" and "zsorted (xs @ e # ys)"
proof -
  have lo: "zless x e" if "x \<in> set xs" for x
  proof (cases xs rule: rev_cases)
    case (snoc xs' l)
    then have "\<not> zless l x" using assms(1) that by (auto simp: zsorted_def sorted_wrt_append)
    with not_zless_trans [of x l e] snoc assms that show ?thesis by (auto simp: zsorted_def)
  qed (use that in simp)
  have hi: "\<not> zless y e" if "y \<in> set ys" for y
  proof (cases ys)
    case (Cons l ys')
    then have "\<not> zless y l" "\<not> zless l e" using assms(1,4) that by (auto simp: zsorted_def sorted_wrt_append)
    with not_zless_trans [of l y e] Cons assms that show ?thesis by (auto simp: zsorted_def)
  qed (use that in simp)
  have "takeWhile (\<lambda>a. zless a e) (xs @ ys) = xs" "dropWhile (\<lambda>a. zless a e) (xs @ ys) = ys"
    using lo assms(4) by (cases ys; simp)+
  then show "zins e (xs @ ys) = xs @ e # ys" by (simp add: zins_def)
  have "\<not> zless e x" if "x \<in> set xs" for x
    using lo [OF that] assms(1,2) that zless_trans [of x e x] by (auto simp: zsorted_def)
  with hi assms(1,2) show "zsorted (xs @ e # ys)" by (auto simp: zsorted_def sorted_wrt_append)
qed

lemma zsl_insert_entries:
  assumes "zsl_inv z"
  shows "\<exists>z' xs ys. zsl_insert rs z score member = Inr (z_brk z, z') \<and> zsl_inv z' \<and>
     zsl_list z = xs @ ys \<and> zsl_list z' = xs @ (score, member) # ys \<and>
     (xs = [] \<or> zless (last xs) (score, member)) \<and> (ys = [] \<or> \<not> zless (hd ys) (score, member))"
proof -
  from assms obtain as where rep: "zsl_rep z as" by (auto simp: zsl_inv_def)
  from zsl_insert_rep [OF rep] obtain z' front post where
    z': "zsl_insert rs z score member = Inr (z_brk z, z')" "as = front @ post"
      "zsl_rep z' (front @ z_brk z # post)" "z_entry (z_heap z') (z_brk z) = (score, member)"
      "\<forall>a \<in> set as. z_entry (z_heap z') a = z_entry (z_heap z) a"
      "front = [] \<or> z_before score member (the (z_heap z (last front)))"
      "post = [] \<or> \<not> z_before score member (the (z_heap z (hd post)))" by blast
  let ?e = "z_entry (z_heap z)"
  have "zsl_list z' = map ?e front @ (score, member) # map ?e post"
    using zsl_repD(2) [OF z'(3)] z'(2,4,5) by auto
  moreover have "zsl_list z = map ?e front @ map ?e post" using zsl_repD(2) [OF rep] z'(2) by simp
  moreover have "map ?e front = [] \<or> zless (last (map ?e front)) (score, member)"
    using z'(6) by (cases "front = []") (simp_all add: zless_entry last_map)
  moreover have "map ?e post = [] \<or> \<not> zless (hd (map ?e post)) (score, member)"
    using z'(7) by (cases post) (simp_all add: zless_entry)
  ultimately show ?thesis using z'(1) zsl_repD(1) [OF z'(3)] by blast
qed

lemma zsl_insert_ok:
  assumes "zsl_inv z" "zsorted (zsl_list z)" "\<not> dbl_nan score"
  shows "\<exists>z'. zsl_insert rs z score member = Inr (z_brk z, z') \<and> zsl_inv z' \<and>
     zsl_list z' = zins (score, member) (zsl_list z) \<and> zsorted (zsl_list z')"
proof -
  obtain z' xs ys where z': "zsl_insert rs z score member = Inr (z_brk z, z')" "zsl_inv z'"
    "zsl_list z = xs @ ys" "zsl_list z' = xs @ (score, member) # ys"
    "xs = [] \<or> zless (last xs) (score, member)" "ys = [] \<or> \<not> zless (hd ys) (score, member)"
    using zsl_insert_entries [OF assms(1)] by blast
  with zsorted_position [of xs ys "(score, member)"] assms(2,3) show ?thesis by auto
qed

lemma zsl_create_ok: "zsl_inv zsl_create" "zsl_list zsl_create = []"
proof -
  have "zsl_rep zsl_create []"
    by (auto simp: zsl_rep_def zsl_create_def height_def ZSKIPLIST_MAXLEVEL_def split: if_splits)
  from zsl_repD [OF this] show "zsl_inv zsl_create" "zsl_list zsl_create = []" by simp_all
qed

subsection \<open>Deletion\<close>

lemma z_unlink_ok:
  assumes "x \<notin> set us" and "h x = Some xd"
    and "\<forall>j < length us. \<exists>u. h (us ! j) = Some u \<and> k + j < length (zn_forward u) \<and>
           (zn_forward u ! (k + j) = Some x \<longleftrightarrow> k + j < length (zn_forward xd))"
  shows "\<exists>h'. z_unlink h x k us = Inr h' \<and>
           (\<forall>a. h' a = map_option (relink (take (length (zn_forward xd) - k) us) k (\<lambda>j. zn_forward xd ! j) a) (h a))"
  using assms
proof (induction us arbitrary: h k)
  case Nil
  then show ?case by (auto simp: option.map_ident_strong)
next
  case (Cons u us)
  from Cons.prems(3) obtain ud where u: "h u = Some ud" "k < length (zn_forward ud)"
    "zn_forward ud ! k = Some x \<longleftrightarrow> k < length (zn_forward xd)" by (auto dest: spec [of _ 0])
  from Cons.prems(1) have ux: "u \<noteq> x" "x \<notin> set us" by auto
  let ?L = "length (zn_forward xd)"
  show ?case
  proof (cases "k < ?L")
    case False
    then have "\<exists>v. h (us ! j) = Some v \<and> Suc k + j < length (zn_forward v) \<and>
           (zn_forward v ! (Suc k + j) = Some x \<longleftrightarrow> Suc k + j < ?L)" if "j < length us" for j
      using Cons.prems(3) that by (auto dest: spec [of _ "Suc j"])
    with Cons.IH [of h "Suc k"] ux(2) Cons.prems(2) obtain h' where
      "z_unlink h x (Suc k) us = Inr h'"
      "\<forall>a. h' a = map_option (relink (take (?L - Suc k) us) (Suc k) (\<lambda>j. zn_forward xd ! j) a) (h a)" by blast
    moreover have "relink [] l p a = (\<lambda>nd. nd)" for l p a by (simp add: fun_eq_iff)
    ultimately show ?thesis using False u by (intro exI [of _ h']) (auto simp: z_fwd_Some)
  next
    case True
    let ?h = "h(u \<mapsto> ud\<lparr>zn_forward := (zn_forward ud)[k := zn_forward xd ! k]\<rparr>)"
    have "?h x = Some xd" using Cons.prems(2) ux(1) by simp
    moreover have "\<exists>v. ?h (us ! j) = Some v \<and> Suc k + j < length (zn_forward v) \<and>
           (zn_forward v ! (Suc k + j) = Some x \<longleftrightarrow> Suc k + j < ?L)" if j: "j < length us" for j
    proof -
      from Cons.prems(3) j obtain v where "h (us ! j) = Some v \<and> Suc k + j < length (zn_forward v) \<and>
           (zn_forward v ! (Suc k + j) = Some x \<longleftrightarrow> Suc k + j < ?L)" by (auto dest: spec [of _ "Suc j"])
      with u show ?thesis by (cases "us ! j = u") auto
    qed
    ultimately obtain h' where
      h': "z_unlink ?h x (Suc k) us = Inr h'"
      "\<forall>a. h' a = map_option (relink (take (?L - Suc k) us) (Suc k) (\<lambda>j. zn_forward xd ! j) a) (?h a)"
      using Cons.IH [OF ux(2), of ?h "Suc k"] by blast
    have "h' a = map_option (relink (take (?L - k) (u # us)) k (\<lambda>j. zn_forward xd ! j) a) (h a)" for a
    proof -
      from True have "take (?L - k) (u # us) = u # take (?L - Suc k) us"
        by (simp add: take_Cons' Suc_diff_Suc)
      moreover have "?h a = map_option (\<lambda>nd. if u = a then nd\<lparr>zn_forward := (zn_forward nd)[k := zn_forward xd ! k]\<rparr> else nd) (h a)"
        using u by (auto simp: option.map_ident_strong)
      ultimately show ?thesis using h'(2) u(2) relink_Cons [of u a k _ _ "\<lambda>j. zn_forward xd ! j"] u(1)
        by (cases "h a") auto
    qed
    moreover have "z_unlink h x k (u # us) = Inr h'"
      using True u h'(1) Cons.prems(2) by (simp add: z_fwd_Some z_set_fwd_Some)
    ultimately show ?thesis by blast
  qed
qed

text \<open>Unsplicing the node \<open>x\<close> between \<open>front\<close> and \<open>post\<close>.\<close>

lemma zfwd_delete:
  assumes seg: "zfwd h (front @ x # post)" and dist: "distinct (front @ x # post)"
    and us: "length us = height h x" "\<forall>i < length us. us ! i = last (filter (\<lambda>a. i < height h a) front)"
    and h': "\<forall>a. h' a = map_option (relink us 0 (\<lambda>j. zn_forward (the (h x)) ! j) a) (h a)"
    and usf: "set us \<subseteq> set front"
  shows "zfwd h' (front @ post)"
proof -
  have ht: "height h' a = height h a" if "a \<in> set (front @ x # post)" for a
    using zfwd_mapped [OF seg that] h' by (auto simp: height_def)
  then have nx: "nxt h' i as = nxt h i as" if "set as \<subseteq> set (front @ x # post)" for i as
    using that by (intro nxt_cong) auto
  have xf: "zn_forward (the (h x)) ! i = nxt h i post" if "i < height h x" for i
    using zfwd_node [OF seg] that by auto
  have "h' a = h a" if "a \<in> set post" for a
  proof -
    have "a \<notin> set us" using that usf dist by auto
    then have "relink us 0 p a n = n" for p n
      by (cases n) (auto simp: relink_def intro!: nth_equalityI dest: nth_mem)
    with h' show ?thesis by (simp add: option.map_ident_strong)
  qed
  with zfwd_cong [of post h' h] zfwd_append [of h "front @ [x]" post] seg have base: "zfwd h' post" by simp
  have "zfwd h' (f2 @ post)" if "front = f1 @ f2" for f1 f2
    using that
  proof (induction f2 arbitrary: f1)
    case (Cons a f2)
    from seg Cons.prems zfwd_node [of h f1 a "f2 @ x # post"] obtain n where
      n: "h a = Some n" "length (zn_forward n) = height h a"
         "\<forall>i < height h a. zn_forward n ! i = nxt h i (f2 @ x # post)" by auto
    have a: "a \<notin> set f2" using dist Cons.prems by auto
    have same: "nxt h' j f2 = nxt h j f2" "nxt h' j post = nxt h j post" for j
      using Cons.prems by (auto intro!: nx)
    have "zn_forward (relink us 0 (\<lambda>j. zn_forward (the (h x)) ! j) a n) ! j = nxt h' j (f2 @ post)"
      if j: "j < height h a" for j
    proof (cases "j < length us")
      case True
      have "us ! j = a \<longleftrightarrow> nxt h j f2 = None"
        using us True last_filter_split [OF a, of "\<lambda>b. j < height h b" f1] j Cons.prems
        by (auto simp: nxt_None filter_empty_conv not_less)
      then show ?thesis using True j n xf us(1) same
        by (auto simp: relink_nth nxt_append split: option.splits)
    next
      case False
      then show ?thesis using j n us(1) same
        by (auto simp: relink_nth nxt_append split: option.splits)
    qed
    moreover have "zfwd h' (f2 @ post)" using Cons.IH [of "f1 @ [a]"] Cons.prems by simp
    ultimately show ?case using n h' [rule_format, of a] by simp
  qed (use base in simp)
  from this [of "[]"] show ?thesis by simp
qed

lemma z_shrink_ok:
  assumes "zfwd h (hdr # as)" "1 \<le> level" "level \<le> height h hdr" "\<forall>a \<in> set as. height h a \<le> level"
  shows "\<exists>l. z_shrink h hdr level = Inr l \<and> 1 \<le> l \<and> l \<le> level \<and> (\<forall>a \<in> set as. height h a \<le> l)"
  using assms
proof (induction level)
  case (Suc l)
  show ?case
  proof (cases "1 < Suc l")
    case True
    have f: "z_fwd h hdr l = Inr (nxt h l as)" using z_fwd_rep [of h "[]" hdr as l] Suc.prems by simp
    show ?thesis
    proof (cases "nxt h l as")
      case None
      then have "\<forall>a \<in> set as. height h a \<le> l" by (simp add: nxt_None)
      with Suc True obtain k where "z_shrink h hdr l = Inr k" "1 \<le> k" "k \<le> l" "\<forall>a \<in> set as. height h a \<le> k"
        by auto
      with None True f show ?thesis by (intro exI [of _ k]) simp
    next
      case (Some a)
      with True f Suc.prems show ?thesis by (intro exI [of _ "Suc l"]) simp
    qed
  qed (use Suc.prems in auto)
qed simp

text \<open>The tail of \<open>zsl_delete\<close>: the backward pointer of the next node, and freeing \<open>x\<close>.\<close>

lemma zsl_unback:
  assumes seg: "zfwd h ((hdr # front) @ post)" and dist: "distinct ((hdr # front) @ x # post)"
    and nd: "h x = Some nd" and fw: "0 < length (zn_forward nd)" "zn_forward nd ! 0 = first_or None post"
    and bw: "zbwd h None (front @ x # post)"
  shows "\<exists>h' h''. (\<forall>f :: _ \<Rightarrow> 'r res. bindr (z_fwd h x 0) (\<lambda>q.
             bindr (case q of
                      Some y \<Rightarrow> bindr (store h y (\<lambda>m. m\<lparr>zn_backward := zn_backward nd\<rparr>)) (\<lambda>h. Inr (h, tl0))
                    | None \<Rightarrow> Inr (h, zn_backward nd)) f)
             = f (h'', if post = [] then last_or None front else tl0)) \<and>
           release h'' x = Inr h' \<and> height h'' = height h \<and> zfwd h'' ((hdr # front) @ post) \<and>
           zfwd h' ((hdr # front) @ post) \<and> zbwd h' None (front @ post) \<and>
           (\<forall>a. a \<noteq> x \<longrightarrow> height h' a = height h a \<and> z_entry h' a = z_entry h a) \<and> dom h' = dom h - {x}"
proof -
  let ?f = "\<lambda>a m. if first_or None post = Some a then zn_backward nd else zn_backward m"
  define h'' where "h'' = (\<lambda>a. map_option (\<lambda>m. m\<lparr>zn_backward := ?f a m\<rparr>) (h a))"
  define h' where "h' = h''(x := None)"
  have h'': "h'' a = map_option (\<lambda>m. m\<lparr>zn_backward := ?f a m\<rparr>) (h a)" for a by (simp add: h''_def)
  have upd: "zfwd h'' bs = zfwd h bs" "height h'' = height h" "z_entry h'' = z_entry h" for bs
    using zfwd_backward [of h'' ?f h] h'' by simp_all
  have nb: "zn_backward nd = last_or None front" using bw nd by simp
  have h'eq: "h' a = h'' a" if "a \<noteq> x" for a using that by (simp add: h'_def)
  have z1: "zfwd h'' ((hdr # front) @ post)" using upd(1) seg by blast
  have "zfwd h' ((hdr # front) @ post) = zfwd h'' ((hdr # front) @ post)"
    using dist by (intro zfwd_cong ballI h'eq) auto
  with z1 have z2: "zfwd h' ((hdr # front) @ post)" by blast
  have bwd: "zn_backward (the (h' a)) = ?f a (the (h a))" if "a \<in> set (front @ post)" for a
  proof -
    have "a \<noteq> x" using that dist by auto
    from h'eq [OF this] show ?thesis using zfwd_mapped [OF seg, of a] that by (auto simp: h'')
  qed
  have "zbwd h' None front = zbwd h None front"
    using dist bwd by (intro zbwd_cong) (auto dest!: first_or_SomeD)
  moreover have "zbwd h' (last_or None front) post"
  proof (cases post)
    case (Cons q post')
    have "zbwd h' (Some q) post' = zbwd h (Some q) post'"
      using dist bwd Cons by (intro zbwd_cong) auto
    then show ?thesis using bwd [of q] Cons bw nb by auto
  qed simp
  ultimately have z3: "zbwd h' None (front @ post)" using bw by auto
  have z4: "bindr (z_fwd h x 0) (\<lambda>q.
             bindr (case q of
                      Some y \<Rightarrow> bindr (store h y (\<lambda>m. m\<lparr>zn_backward := zn_backward nd\<rparr>)) (\<lambda>h. Inr (h, tl0))
                    | None \<Rightarrow> Inr (h, zn_backward nd)) f)
             = f (h'', if post = [] then last_or None front else tl0)" for f :: "_ \<Rightarrow> 'r res"
  proof (cases post)
    case Nil
    then have "h'' = h" by (auto simp: h''_def fun_eq_iff option.map_ident_strong)
    with Nil nd fw nb show ?thesis by (simp add: z_fwd_def)
  next
    case (Cons q post')
    then obtain qd where q: "h q = Some qd" using zfwd_mapped [OF seg, of q] by auto
    with Cons have "h(q \<mapsto> qd\<lparr>zn_backward := zn_backward nd\<rparr>) = h''"
      by (auto simp: h''_def fun_eq_iff option.map_ident_strong)
    with Cons nd fw q show ?thesis by (simp add: z_fwd_def)
  qed
  have z5: "release h'' x = Inr h'" using nd by (simp add: release_def h'' h'_def)
  have z6: "dom h' = dom h - {x}" by (auto simp: h'_def h'')
  have z7: "height h' a = height h a \<and> z_entry h' a = z_entry h a" if "a \<noteq> x" for a
    using upd(2,3) h'eq [OF that] by (simp add: height_def z_entry_def fun_eq_iff)
  show ?thesis
    using z1 z2 z3 z4 z5 z6 z7 upd(2) by blast
qed

text \<open>
  What a deletion does: the search stops in front of \<open>post\<close>; with nothing there it returns 0,
  otherwise it removes the first node of \<open>post\<close>, which carries the member.
\<close>

lemma zsl_unsplice:
  assumes rep: "zsl_rep z as" and as: "as = front @ x # post"
    and upd: "length upd = z_level z"
      "\<forall>i < z_level z. upd ! i = last (filter (\<lambda>a. i < height (z_heap z) a) (z_header z # front))"
  shows "\<exists>h. z_unlink (z_heap z) x 0 upd = Inr h \<and> zfwd h ((z_header z # front) @ post) \<and>
     (\<exists>nd. h x = Some nd \<and> zn_backward nd = zn_backward (the (z_heap z x)) \<and> 0 < length (zn_forward nd) \<and>
           zn_forward nd ! 0 = first_or None post) \<and>
     (\<forall>a. height h a = height (z_heap z) a \<and> z_entry h a = z_entry (z_heap z) a) \<and>
     zbwd h None as \<and> dom h = dom (z_heap z)"
proof -
  let ?h = "z_heap z" and ?hf = "z_header z # front" and ?H = "height (z_heap z) x"
  from rep as have seg: "zfwd ?h (?hf @ x # post)" and dist: "distinct (?hf @ x # post)" and bw: "zbwd ?h None as"
    and hx: "1 \<le> ?H" "?H \<le> z_level z" and hdr: "z_level z \<le> height ?h (z_header z)"
    and low: "\<forall>a \<in> set post. 1 \<le> height ?h a"
    by (auto simp: zsl_rep_def)
  obtain xd where xd: "?h x = Some xd" using zfwd_mapped [OF seg] by auto
  then have H: "length (zn_forward xd) = ?H" by (simp add: height_def)
  have us: "\<forall>i < length upd. upd ! i = last (filter (\<lambda>a. i < height ?h a) ?hf) \<and> (\<exists>a \<in> set ?hf. i < height ?h a)"
    using upd hdr by auto
  note nodes = zsl_update_nodes [OF seg us]
  have xu: "x \<notin> set upd" using nodes(1) dist by auto
  have fwd: "zn_forward u ! j = Some x \<longleftrightarrow> j < ?H" if "j < length upd" "?h (upd ! j) = Some u" for j u
  proof -
    from us that obtain f1 f2 where f: "?hf = f1 @ upd ! j # f2" "j < height ?h (upd ! j)"
      "filter (\<lambda>a. j < height ?h a) f2 = []"
      using last_filter_after [of ?hf "\<lambda>a. j < height ?h a"] by auto
    have "zfwd ?h (f1 @ upd ! j # (f2 @ x # post))" using seg unfolding f(1) by simp
    from zfwd_node [OF this] that(2) f(2) have "zn_forward u ! j = nxt ?h j (f2 @ x # post)" by auto
    moreover from f(3) have "nxt ?h j f2 = None" by (auto simp: nxt_None filter_empty_conv not_less)
    moreover have "nxt ?h j post \<noteq> Some x" using dist nxt_SomeD by fastforce
    ultimately show ?thesis by (simp add: nxt_append)
  qed
  obtain h where h: "z_unlink ?h x 0 upd = Inr h"
    "\<forall>a. h a = map_option (relink (take ?H upd) 0 (\<lambda>j. zn_forward xd ! j) a) (?h a)"
    using z_unlink_ok [OF xu, of ?h xd 0] xd nodes(2) fwd H by fastforce
  have same: "height h a = height ?h a \<and> z_entry h a = z_entry ?h a \<and>
      zn_backward (the (h a)) = zn_backward (the (?h a))" for a
    using h(2) by (cases "?h a") (auto simp: height_def z_entry_def)
  have "zfwd h (?hf @ post)"
  proof (rule zfwd_delete [OF seg dist])
    show "length (take ?H upd) = ?H" using upd(1) hx by simp
    show "\<forall>i < length (take ?H upd). take ?H upd ! i = last (filter (\<lambda>a. i < height ?h a) ?hf)" using us by simp
    show "\<forall>a. h a = map_option (relink (take ?H upd) 0 (\<lambda>j. zn_forward (the (?h x)) ! j) a) (?h a)"
      using h(2) xd by simp
    show "set (take ?H upd) \<subseteq> set ?hf" using nodes(1) set_take_subset by fastforce
  qed
  moreover have "relink (take ?H upd) 0 (\<lambda>j. zn_forward xd ! j) x xd = xd"
    using xu by (cases xd) (auto simp: relink_def intro!: nth_equalityI dest: nth_mem)
  then have "h x = Some xd" using h(2) xd by simp
  moreover have "zn_forward xd ! 0 = first_or None post"
    using zfwd_node [OF seg] xd hx(1) low by (auto simp: nxt_0)
  moreover have "zbwd h None as" using bw same zbwd_cong by metis
  moreover have "dom h = dom ?h" using h(2) by auto
  ultimately show ?thesis using h(1) same xd H hx(1) by (intro exI [of _ h]) auto
qed

text \<open>The list without the node, from its heap.\<close>

lemma zsl_deleted_rep:
  assumes rep: "zsl_rep z (front @ x # post)"
    and h: "zfwd h ((z_header z # front) @ post)" "zbwd h None (front @ post)" "dom h = dom (z_heap z) - {x}"
      "\<forall>a \<in> set (z_header z # front @ post). height h a = height (z_heap z) a"
    and l: "1 \<le> l" "l \<le> z_level z" "\<forall>a \<in> set (front @ post). height h a \<le> l"
  shows "zsl_rep (z\<lparr>z_heap := h, z_tail := (if post = [] then last_or None front else z_tail z), z_level := l,
      z_length := z_length z - 1\<rparr>) (front @ post)"
proof -
  have "(if post = [] then last_or None front else z_tail z) = last_or None (front @ post)"
    using rep by (auto simp: zsl_rep_def last_or_def)
  moreover have "distinct (z_header z # front @ post)" "dom h = set (z_header z # front @ post)"
    "\<forall>a \<in> set (z_header z # front @ post). a < z_brk z" "z_length z - 1 = length (front @ post)"
    using rep h(3) by (auto simp: zsl_rep_def)
  moreover have "height h (z_header z) = ZSKIPLIST_MAXLEVEL" "l \<le> ZSKIPLIST_MAXLEVEL"
    "\<forall>a \<in> set (front @ post). 1 \<le> height h a \<and> height h a \<le> l"
    using rep h(4) l by (auto simp: zsl_rep_def)
  ultimately show ?thesis using h(1,2) l(1) by (simp add: zsl_rep_def)
qed

text \<open>Removing the node behind \<open>front\<close>: the last part of \<open>zsl_delete\<close>.\<close>

lemma zsl_delete_node:
  assumes rep: "zsl_rep z (front @ x # post)" and nd: "z_heap z x = Some nd" "zn_member nd = member"
    and s: "z_search (z_brk z) (\<lambda>nd. zn_member nd \<noteq> member) (z_heap z) (z_header z) (z_level z) = Inr (y, upd)"
      "z_fwd (z_heap z) y 0 = Inr (Some x)"
    and upd: "length upd = z_level z"
      "\<forall>i < z_level z. upd ! i = last (filter (\<lambda>a. i < height (z_heap z) a) (z_header z # front))"
  shows "\<exists>z'. zsl_delete z member = Inr (1, z') \<and> zsl_rep z' (front @ post) \<and>
    (\<forall>a \<in> set (front @ post). z_entry (z_heap z') a = z_entry (z_heap z) a)"
proof -
  let ?h = "z_heap z" and ?hdr = "z_header z"
  from rep have r: "distinct ((?hdr # front) @ x # post)" "1 \<le> z_level z" "z_level z \<le> ZSKIPLIST_MAXLEVEL"
    "\<forall>a \<in> set (front @ post). height ?h a \<le> z_level z" "height ?h ?hdr = ZSKIPLIST_MAXLEVEL" by (auto simp: zsl_rep_def)
  from zsl_unsplice [OF rep refl upd] obtain h nd' where
    h: "z_unlink ?h x 0 upd = Inr h" "zfwd h ((?hdr # front) @ post)"
      "h x = Some nd'" "zn_backward nd' = zn_backward nd" "0 < length (zn_forward nd')"
      "zn_forward nd' ! 0 = first_or None post"
      "\<forall>a. height h a = height ?h a \<and> z_entry h a = z_entry ?h a" "zbwd h None (front @ x # post)" "dom h = dom ?h"
    using nd by auto
  obtain h' h'' where h': "\<forall>f :: _ \<Rightarrow> (int \<times> zskiplist) res. bindr (z_fwd h x 0) (\<lambda>q.
           bindr (case q of
                    Some y \<Rightarrow> bindr (store h y (\<lambda>m. m\<lparr>zn_backward := zn_backward nd\<rparr>)) (\<lambda>h. Inr (h, z_tail z))
                  | None \<Rightarrow> Inr (h, zn_backward nd)) f)
           = f (h'', if post = [] then last_or None front else z_tail z)"
      "release h'' x = Inr h'" "height h'' = height h" "zfwd h'' ((?hdr # front) @ post)"
      "zfwd h' ((?hdr # front) @ post)" "zbwd h' None (front @ post)"
      "\<forall>a. a \<noteq> x \<longrightarrow> height h' a = height h a \<and> z_entry h' a = z_entry h a" "dom h' = dom h - {x}"
    using zsl_unback [OF h(2) r(1) h(3) h(5,6) h(8), where ?tl0.0 = "z_tail z"] unfolding h(4) by blast
  have same: "\<forall>a \<in> set (?hdr # front @ post). height h' a = height ?h a \<and> height h'' a = height ?h a \<and> z_entry h' a = z_entry ?h a"
    using h'(3,7) h(7) r(1) by auto
  obtain l where l: "z_shrink h'' ?hdr (z_level z) = Inr l" "1 \<le> l" "l \<le> z_level z" "\<forall>a \<in> set (front @ post). height h'' a \<le> l"
    using z_shrink_ok [of h'' ?hdr "front @ post" "z_level z"] h'(4) r(2-5) same by auto
  let ?z = "z\<lparr>z_heap := h', z_tail := (if post = [] then last_or None front else z_tail z), z_level := l, z_length := z_length z - 1\<rparr>"
  have "zsl_delete z member = Inr (1, ?z)"
    using nd by (simp add: zsl_delete_def s h(1) h'(1,2) l(1) del: bindr_eq_Inr if_split)
  moreover have "zsl_rep ?z (front @ post)"
    using zsl_deleted_rep [OF rep h'(5,6) _ _ l(2,3)] h'(8) h(9) same l(4) by auto
  moreover have "\<forall>a \<in> set (front @ post). z_entry (z_heap ?z) a = z_entry ?h a" using same by simp
  ultimately show ?thesis by blast
qed

lemma zsl_delete_rep:
  assumes rep: "zsl_rep z as" and mid: "as = mid @ rest"
    and mb: "barrier (z_heap z) (\<lambda>nd. zn_member nd \<noteq> member) (z_level z) rest"
  shows "\<exists>front post. as = front @ post \<and> (\<exists>m. mid = front @ m) \<and>
     (front = [] \<or> zn_member (the (z_heap z (last front))) \<noteq> member) \<and>
     barrier (z_heap z) (\<lambda>nd. zn_member nd \<noteq> member) (z_level z) post \<and>
     (post = [] \<and> zsl_delete z member = Inr (0, z) \<or>
      (\<exists>x post' z'. post = x # post' \<and> zn_member (the (z_heap z x)) = member \<and>
         zsl_delete z member = Inr (1, z') \<and> zsl_rep z' (front @ post') \<and>
         (\<forall>a \<in> set (front @ post'). z_entry (z_heap z') a = z_entry (z_heap z) a)))"
proof -
  let ?P = "\<lambda>nd. zn_member nd \<noteq> member" and ?h = "z_heap z" and ?hdr = "z_header z"
  have P: "(\<lambda>nd. strcmp (zn_member nd) member \<noteq> 0) = ?P" by simp
  from zsl_search [OF rep mid mb] obtain y upd front post m where
    s: "z_search (z_brk z) ?P ?h ?hdr (z_level z) = Inr (y, upd)" and as: "as = front @ post"
    and fm: "mid = front @ m" and y: "y = last (?hdr # front)"
    and upd: "length upd = z_level z"
      "\<forall>i < z_level z. upd ! i = last (filter (\<lambda>a. i < height ?h a) (?hdr # front))"
    and fr: "front = [] \<or> ?P (the (?h (last front)))" and bar: "barrier ?h ?P (z_level z) post" by blast
  from rep as have r: "zfwd ?h ((?hdr # front) @ post)" "distinct ((?hdr # front) @ post)" "1 \<le> z_level z"
    "\<forall>a \<in> set as. 1 \<le> height ?h a \<and> height ?h a \<le> z_level z" "height ?h ?hdr = ZSKIPLIST_MAXLEVEL"
    by (auto simp: zsl_rep_def)
  have "1 \<le> height ?h y" using y r(4,5) as by (cases front rule: rev_cases) (auto simp: ZSKIPLIST_MAXLEVEL_def)
  moreover obtain f where hf: "?hdr # front = f @ [y]" using y by (metis append_butlast_last_id list.discI)
  then have "zfwd ?h (f @ y # post)" using r(1) by simp
  ultimately have p0: "z_fwd ?h y 0 = Inr (first_or None post)"
    using z_fwd_rep [of ?h f y post 0] nxt_0 [of post ?h] r(4) as by auto
  show ?thesis
  proof (cases post)
    case Nil
    then have "zsl_delete z member = Inr (0, z)" using s p0 unfolding zsl_delete_def P by simp
    with as fm fr bar Nil show ?thesis by blast
  next
    case (Cons x post')
    then obtain nd where nd: "?h x = Some nd" using zfwd_mapped [OF r(1)] by auto
    have mem: "zn_member nd = member"
      using bar Cons r(3,4) as nd by (auto simp: barrier_def Suc_le_eq dest: spec [of _ 0])
    have "zsl_rep z (front @ x # post')" using rep as Cons by simp
    from zsl_delete_node [OF this nd mem s _ upd] p0 Cons obtain z' where
      "zsl_delete z member = Inr (1, z')" "zsl_rep z' (front @ post')"
      "\<forall>a \<in> set (front @ post'). z_entry (z_heap z') a = z_entry ?h a" by auto
    with as fm fr bar Cons mem nd show ?thesis by (intro exI [of _ front] exI [of _ post]) auto
  qed
qed

lemma zsl_delete_ok:
  assumes "zsl_inv z"
  shows "\<exists>r z'. zsl_delete z member = Inr (r, z') \<and> zsl_inv z' \<and>
     (r = 0 \<and> z' = z \<or>
      r = 1 \<and> (\<exists>xs s ys. zsl_list z = xs @ (s, member) # ys \<and> zsl_list z' = xs @ ys))"
proof -
  from assms obtain as where rep: "zsl_rep z as" by (auto simp: zsl_inv_def)
  from zsl_delete_rep [OF rep, of as "[]" member] consider
    "zsl_delete z member = Inr (0, z)"
  | front x post' z' where "as = front @ x # post'" "zn_member (the (z_heap z x)) = member"
      "zsl_delete z member = Inr (1, z')" "zsl_rep z' (front @ post')"
      "\<forall>a \<in> set (front @ post'). z_entry (z_heap z') a = z_entry (z_heap z) a"
    by (auto simp: barrier_def)
  then show ?thesis
  proof cases
    case 2
    let ?e = "z_entry (z_heap z)"
    from 2 zsl_repD(2) [OF rep] have "zsl_list z = map ?e front @ (zn_score (the (z_heap z x)), member) # map ?e post'"
      by (simp add: z_entry_def)
    moreover from 2 zsl_repD(2) [OF 2(4)] have "zsl_list z' = map ?e front @ map ?e post'" by simp
    ultimately show ?thesis using 2(3) zsl_repD(1) [OF 2(4)] by blast
  qed (use assms in simp)
qed

lemma zsorted_remove: "zsorted (xs @ e # ys) \<Longrightarrow> zsorted (xs @ ys)"
  by (auto simp: zsorted_def sorted_wrt_append)

lemma zsl_delete_absent:
  assumes "zsl_inv z" "member \<notin> snd ` set (zsl_list z)"
  shows "zsl_delete z member = Inr (0, z)"
proof -
  from zsl_delete_ok [OF assms(1), of member] obtain r z' where
    d: "zsl_delete z member = Inr (r, z')" "r = 0 \<and> z' = z \<or>
      r = 1 \<and> (\<exists>xs s ys. zsl_list z = xs @ (s, member) # ys \<and> zsl_list z' = xs @ ys)" by blast
  moreover have "zsl_list z \<noteq> xs @ (s, member) # ys" for xs s ys using assms(2) by force
  ultimately show ?thesis by auto
qed

text \<open>
  The heights of the nodes, in order. A deletion finds its member exactly when no later node
  is taller: the search of a level above the member's node runs past it.
\<close>

definition zsl_heights :: "zskiplist \<Rightarrow> nat list" where
  "zsl_heights z = map (height (z_heap z))
     (z_chain (z_heap z) (zn_forward (the (z_heap z (z_header z))) ! 0) (z_length z))"

lemma zsl_rep_heights: "zsl_rep z as \<Longrightarrow> zsl_heights z = map (height (z_heap z)) as"
proof -
  assume rep: "zsl_rep z as"
  then have "zn_forward (the (z_heap z (z_header z))) ! 0 = first_or None as"
    by (auto simp: zsl_rep_def height_def ZSKIPLIST_MAXLEVEL_def nxt_0)
  with rep z_chain_zfwd [of "z_heap z" as] show ?thesis by (auto simp: zsl_heights_def zsl_rep_def)
qed

lemma zsl_delete_complete_rep:
  assumes rep: "zsl_rep z as" and as: "as = pre @ x # suf" and m: "zn_member (the (z_heap z x)) = member"
    and low: "\<forall>a \<in> set suf. height (z_heap z) a \<le> height (z_heap z) x"
  shows "\<exists>z'. zsl_delete z member = Inr (1, z')"
proof -
  have "barrier (z_heap z) (\<lambda>nd. zn_member nd \<noteq> member) (z_level z) (x # suf)"
    unfolding barrier_def
  proof (intro allI impI)
    fix i b assume b: "nxt (z_heap z) i (x # suf) = Some b"
    have "i < height (z_heap z) x"
    proof (rule ccontr)
      assume "\<not> i < height (z_heap z) x"
      with low have "nxt (z_heap z) i (x # suf) = None" by (force simp: nxt_None)
      with b show False by simp
    qed
    with b m show "\<not> zn_member (the (z_heap z b)) \<noteq> member" by simp
  qed
  from zsl_delete_rep [OF rep as this] as show ?thesis by auto
qed

lemma zsl_delete_finds_rep:
  assumes rep: "zsl_rep z as" and as: "as = pre @ x # suf" and m: "zn_member (the (z_heap z x)) = member"
    and only: "\<forall>a \<in> set (pre @ suf). zn_member (the (z_heap z a)) \<noteq> member"
    and del: "zsl_delete z member = Inr (1, z')"
  shows "\<forall>a \<in> set suf. height (z_heap z) a \<le> height (z_heap z) x"
proof -
  have b0: "barrier (z_heap z) (\<lambda>nd. zn_member nd \<noteq> member) (z_level z) []" by (simp add: barrier_def)
  from zsl_delete_rep [OF rep _ b0, of as] obtain front post where
    fp: "as = front @ post" "barrier (z_heap z) (\<lambda>nd. zn_member nd \<noteq> member) (z_level z) post"
      "post = [] \<and> zsl_delete z member = Inr (0, z) \<or>
       (\<exists>x post'. post = x # post' \<and> zn_member (the (z_heap z x)) = member)" by auto
  with del obtain x' post' where f: "as = front @ x' # post'" "zn_member (the (z_heap z x')) = member"
    "barrier (z_heap z) (\<lambda>nd. zn_member nd \<noteq> member) (z_level z) (x' # post')" by auto
  have "x' \<in> set as" using f(1) by simp
  with f(2) only as have x': "x' = x" by auto
  have dist: "distinct as" and lev: "\<forall>a \<in> set suf. height (z_heap z) a \<le> z_level z" using rep as by (auto simp: zsl_rep_def)
  from as f(1) x' dist have "post' = suf" using append_Cons_eq_iff [of x pre suf front post'] by simp
  show ?thesis
  proof (rule ccontr)
    assume "\<not> ?thesis"
    then obtain a where a: "a \<in> set suf" "height (z_heap z) x < height (z_heap z) a" by force
    let ?i = "height (z_heap z) x"
    have "nxt (z_heap z) ?i suf \<noteq> None" unfolding nxt_None using a by (meson not_less)
    then obtain b where b: "nxt (z_heap z) ?i suf = Some b" by blast
    moreover have "?i < z_level z" using a lev by (meson order_less_le_trans)
    ultimately have "zn_member (the (z_heap z b)) = member"
      using f(3) x' \<open>post' = suf\<close> by (auto simp: barrier_def)
    moreover have "b \<in> set suf" using nxt_SomeD [OF b] by auto
    ultimately show False using only by auto
  qed
qed

lemma Ball_set_drop: "(\<forall>a \<in> set (drop n xs). P a) \<longleftrightarrow> (\<forall>j. n \<le> j \<and> j < length xs \<longrightarrow> P (xs ! j))"
proof -
  have "set (drop n xs) = (\<lambda>i. xs ! (n + i)) ` {..<length xs - n}" by (auto simp: in_set_conv_nth)
  moreover have "(\<lambda>i. n + i) ` {..<length xs - n} = {n..<length xs}"
    by (auto simp: image_iff Bex_def intro: le_Suc_ex) presburger
  ultimately have "set (drop n xs) = (\<lambda>j. xs ! j) ` {n..<length xs}" by (metis image_image)
  then show ?thesis by auto
qed

lemma zsl_delete_iff:
  assumes "zsl_inv z" "distinct (map snd (zsl_list z))" "k < length (zsl_list z)" "snd (zsl_list z ! k) = member"
  shows "(\<exists>z'. zsl_delete z member = Inr (1, z')) \<longleftrightarrow>
         (\<forall>j. k < j \<and> j < length (zsl_list z) \<longrightarrow> zsl_heights z ! j \<le> zsl_heights z ! k)"
proof -
  from assms(1) obtain as where rep: "zsl_rep z as" by (auto simp: zsl_inv_def)
  note content = zsl_repD(2) [OF rep] zsl_rep_heights [OF rep]
  let ?x = "as ! k" and ?pre = "take k as" and ?suf = "drop (Suc k) as"
  from assms(3) content have k: "k < length as" by simp
  then have as: "as = ?pre @ ?x # ?suf" by (rule id_take_nth_drop)
  have m: "zn_member (the (z_heap z ?x)) = member" using assms(4) content(1) k by (simp add: z_entry_def)
  have "distinct (map (\<lambda>a. zn_member (the (z_heap z a))) (?pre @ ?x # ?suf))"
    unfolding as [symmetric] using assms(2) content(1) by (simp add: z_entry_def comp_def)
  then have only: "\<forall>a \<in> set (?pre @ ?suf). zn_member (the (z_heap z a)) \<noteq> member"
    using m by (auto simp: image_iff)
  have "(\<forall>a \<in> set ?suf. height (z_heap z) a \<le> height (z_heap z) ?x) \<longleftrightarrow>
        (\<forall>j. k < j \<and> j < length as \<longrightarrow> height (z_heap z) (as ! j) \<le> height (z_heap z) ?x)"
    using Ball_set_drop [of "Suc k" as] by (simp add: Suc_le_eq)
  with zsl_delete_complete_rep [OF rep as m] zsl_delete_finds_rep [OF rep as m only] content k
  show ?thesis by auto
qed

subsection \<open>Ranks\<close>

lemma z_rank_loop_ok:
  assumes "zfwd h as" "\<forall>a \<in> set as. 1 \<le> height h a" "length as \<le> fuel"
  shows "z_rank_loop fuel h (first_or None as) score member r
       = Inr (r + int (length (takeWhile (\<lambda>e. zless e (score, member)) (map (z_entry h) as))))"
  using assms
proof (induction as arbitrary: fuel r)
  case (Cons a as)
  then obtain f where f: "fuel = Suc f" by (cases fuel) auto
  from Cons.prems zfwd_node [of h "[]" a as] obtain nd where "h a = Some nd" "length (zn_forward nd) = height h a"
    "\<forall>i < height h a. zn_forward nd ! i = nxt h i as" by auto
  with Cons.prems(2) have nd: "h a = Some nd" "0 < length (zn_forward nd)" "zn_forward nd ! 0 = first_or None as"
    by (auto simp: nxt_0)
  have "z_before score member nd \<longleftrightarrow> zless (z_entry h a) (score, member)"
    using zless_entry [of score member h a] nd by simp
  with Cons f nd show ?case by (simp add: z_fwd_Some del: bindr_eq_Inr)
qed simp

text \<open>\<open>zsl_rank\<close> is the number of entries below the given one at the front of the list.\<close>

lemma zsl_rep_length:
  assumes "zsl_rep z as" shows "length as < z_brk z"
proof -
  have "distinct (z_header z # as)" "set (z_header z # as) \<subseteq> {..<z_brk z}" using assms by (auto simp: zsl_rep_def)
  then have "length (z_header z # as) \<le> z_brk z"
    by (metis card_lessThan card_mono distinct_card finite_lessThan)
  then show ?thesis by simp
qed

lemma zsl_rank_ok:
  assumes "zsl_inv z"
  shows "zsl_rank z score member = Inr (int (length (takeWhile (\<lambda>e. zless e (score, member)) (zsl_list z))))"
proof -
  from assms obtain as where rep: "zsl_rep z as" by (auto simp: zsl_inv_def)
  then have r: "zfwd (z_heap z) ([] @ z_header z # as)" "height (z_heap z) (z_header z) = ZSKIPLIST_MAXLEVEL"
    "\<forall>a \<in> set as. 1 \<le> height (z_heap z) a" by (auto simp: zsl_rep_def)
  have "z_fwd (z_heap z) (z_header z) 0 = Inr (first_or None as)"
    using z_fwd_rep [OF r(1), of 0] r(2,3) by (simp add: nxt_0 ZSKIPLIST_MAXLEVEL_def)
  with z_rank_loop_ok [of "z_heap z" as "z_brk z" score member 0] r zsl_rep_length [OF rep] zsl_repD(2) [OF rep]
  show ?thesis by (simp add: zsl_rank_def del: bindr_eq_Inr)
qed

lemma z_after_entry: "z_after score member (the (h a)) \<longleftrightarrow> zless (score, member) (z_entry h a)"
  by (auto simp: z_after_def zless_def z_entry_def dbl_eq_def strcmp_gt_lt)

lemma z_revrank_loop_ok:
  assumes "zbwd h None as" "\<forall>a \<in> set as. h a \<noteq> None" "length as \<le> fuel"
  shows "z_revrank_loop fuel h (last_or None as) score member r
       = Inr (r + int (length (takeWhile (\<lambda>e. zless (score, member) e) (map (z_entry h) (rev as)))))"
  using assms
proof (induction as arbitrary: fuel r rule: rev_induct)
  case (snoc a as)
  then obtain f where f: "fuel = Suc f" by (cases fuel) auto
  from snoc.prems obtain nd where nd: "h a = Some nd" "zn_backward nd = last_or None as" by auto
  have "z_after score member nd \<longleftrightarrow> zless (score, member) (z_entry h a)"
    using z_after_entry [of score member h a] nd by simp
  with snoc f nd show ?case by (simp del: bindr_eq_Inr)
qed simp

lemma zsl_revrank_ok:
  assumes "zsl_inv z"
  shows "zsl_revrank z score member
       = Inr (int (length (takeWhile (\<lambda>e. zless (score, member) e) (rev (zsl_list z)))))"
proof -
  from assms obtain as where rep: "zsl_rep z as" by (auto simp: zsl_inv_def)
  then have "zbwd (z_heap z) None as" "\<forall>a \<in> set as. z_heap z a \<noteq> None" "z_tail z = last_or None as"
    by (auto simp: zsl_rep_def)
  with z_revrank_loop_ok [of "z_heap z" as "z_brk z" score member 0] zsl_rep_length [OF rep] zsl_repD(2) [OF rep]
  show ?thesis by (simp add: zsl_revrank_def rev_map)
qed

subsection \<open>\<open>zsl_free\<close>\<close>

fun zsl_free_loop :: "nat \<Rightarrow> zskiplist_node heap \<Rightarrow> addr option \<Rightarrow> zskiplist_node heap res" where
  "zsl_free_loop fuel h None = Inr h"
| "zsl_free_loop 0 h (Some n) = Inl Diverges"
| "zsl_free_loop (Suc fuel) h (Some n) =
     bindr (z_fwd h n 0) (\<lambda>nn. bindr (release h n) (\<lambda>h. zsl_free_loop fuel h nn))"

definition zsl_free :: "zskiplist \<Rightarrow> zskiplist_node heap res" where
  "zsl_free z =
     bindr (z_fwd (z_heap z) (z_header z) 0) (\<lambda>n.
     bindr (zsl_free_loop (z_brk z) (z_heap z) n) (\<lambda>h. release h (z_header z)))"

lemma zsl_free_loop_ok:
  assumes "zfwd h as" "\<forall>a \<in> set as. 1 \<le> height h a" "distinct as" "length as \<le> fuel"
  shows "zsl_free_loop fuel h (first_or None as) = Inr (h |` (- set as))"
  using assms
proof (induction as arbitrary: fuel h)
  case (Cons a as)
  then obtain f where f: "fuel = Suc f" by (cases fuel) auto
  from Cons.prems zfwd_node [of h "[]" a as] obtain nd where n: "h a = Some nd" "length (zn_forward nd) = height h a"
    "\<forall>i < height h a. zn_forward nd ! i = nxt h i as" by auto
  with Cons.prems(2) have nd: "0 < length (zn_forward nd)" "zn_forward nd ! 0 = first_or None as"
    by (auto simp: nxt_0)
  let ?h = "h(a := None)"
  have "zfwd ?h as = zfwd h as" using Cons.prems(3) by (intro zfwd_cong) auto
  moreover have "\<forall>b \<in> set as. 1 \<le> height ?h b" using Cons.prems(2,3) by (auto simp: height_def)
  ultimately have "zsl_free_loop f ?h (first_or None as) = Inr (?h |` (- set as))"
    using Cons.IH [of ?h f] Cons.prems f by (simp del: fun_upd_apply restrict_fun_upd)
  moreover have "?h |` (- set as) = h |` (- set (a # as))" by (auto simp: restrict_map_def)
  ultimately show ?case using f n nd by (simp add: z_fwd_Some del: bindr_eq_Inr fun_upd_apply restrict_fun_upd)
qed (simp add: restrict_map_def)

lemma zsl_free_ok:
  assumes "zsl_inv z" shows "zsl_free z = Inr (\<lambda>_. None)"
proof -
  from assms obtain as where rep: "zsl_rep z as" by (auto simp: zsl_inv_def)
  then have r: "zfwd (z_heap z) ([] @ z_header z # as)" "height (z_heap z) (z_header z) = ZSKIPLIST_MAXLEVEL"
    "\<forall>a \<in> set as. 1 \<le> height (z_heap z) a" "distinct (z_header z # as)" "dom (z_heap z) = set (z_header z # as)"
    by (auto simp: zsl_rep_def)
  obtain nd where nd: "z_heap z (z_header z) = Some nd" using r(1) by auto
  have "z_fwd (z_heap z) (z_header z) 0 = Inr (first_or None as)"
    using z_fwd_rep [OF r(1), of 0] r(2,3) by (simp add: nxt_0 ZSKIPLIST_MAXLEVEL_def)
  moreover have "zsl_free_loop (z_brk z) (z_heap z) (first_or None as) = Inr (z_heap z |` (- set as))"
    using zsl_free_loop_ok r zsl_rep_length [OF rep] by simp
  moreover have "release (z_heap z |` (- set as)) (z_header z) = Inr (\<lambda>_. None)"
    using nd r(4,5) by (auto simp: release_def restrict_map_def fun_eq_iff)
  ultimately show ?thesis by (simp add: zsl_free_def)
qed

subsection \<open>A member that a deletion misses\<close>

text \<open>\<open>a\<close> at height 1, then \<open>b\<close> at height 2: deleting \<open>a\<close> removes nothing.\<close>

definition z_level1 :: "nat \<Rightarrow> nat" where
  "z_level1 i = 1"

definition z_level2 :: "nat \<Rightarrow> nat" where
  "z_level2 i = (if i = 0 then 0 else 1)"

definition z_ab :: "(int \<times> zentry list) res" where
  "z_ab =
     bindr (zsl_insert z_level1 zsl_create 0 ''a'') (\<lambda>(_, z).
     bindr (zsl_insert z_level2 z 0 ''b'') (\<lambda>(_, z).
     bindr (zsl_delete z ''a'') (\<lambda>(r, z). Inr (r, zsl_list z))))"

lemma z_ab_val: "z_ab = Inr (0, [(0, ''a''), (0, ''b'')])"
  by code_simp

subsection \<open>The contract of a sorted bag\<close>

lemma mset_zins: "mset (zins e xs) = add_mset e (mset xs)"
proof -
  have "mset xs = mset (takeWhile (\<lambda>a. zless a e) xs) + mset (dropWhile (\<lambda>a. zless a e) xs)"
    by (metis mset_append takeWhile_dropWhile_id)
  then show ?thesis by (simp add: zins_def)
qed

text \<open>
  What the sorted set commands rely on: an insertion puts the entry at its place, a
  deletion takes at most one entry of the member. \<open>'r\<close> is the source of randomness.
\<close>

locale sorted_bag =
  fixes inv :: "'s \<Rightarrow> bool" and entries_of :: "'s \<Rightarrow> zentry list"
    and ins :: "'r \<Rightarrow> 's \<Rightarrow> zentry \<Rightarrow> 's res" and del :: "'s \<Rightarrow> string \<Rightarrow> (int \<times> 's) res"
  assumes ins_law: "inv s \<Longrightarrow> zsorted (entries_of s) \<Longrightarrow> znum e \<Longrightarrow>
      \<exists>s'. ins r s e = Inr s' \<and> inv s' \<and> entries_of s' = zins e (entries_of s) \<and> zsorted (entries_of s')"
    and del_law: "inv s \<Longrightarrow> \<exists>r s'. del s m = Inr (r, s') \<and> inv s' \<and>
      (r = 0 \<and> entries_of s' = entries_of s \<or>
       r = 1 \<and> (\<exists>xs x ys. entries_of s = xs @ (x, m) # ys \<and> entries_of s' = xs @ ys))"
begin

fun ins_all :: "'s \<Rightarrow> ('r \<times> zentry) list \<Rightarrow> 's res" where
  "ins_all s [] = Inr s"
| "ins_all s ((r, e) # es) = bindr (ins r s e) (\<lambda>s. ins_all s es)"

lemma ins_all_ok:
  "inv s \<Longrightarrow> zsorted (entries_of s) \<Longrightarrow> \<forall>(r, e) \<in> set es. znum e \<Longrightarrow>
     \<exists>s'. ins_all s es = Inr s' \<and> inv s' \<and> zsorted (entries_of s') \<and>
       mset (entries_of s') = mset (entries_of s) + mset (map snd es)"
proof (induction es arbitrary: s)
  case (Cons re es)
  obtain r e where re: "re = (r, e)" by (cases re)
  with Cons.prems ins_law [of s e r] obtain s1 where
    s1: "ins r s e = Inr s1" "inv s1" "entries_of s1 = zins e (entries_of s)" "zsorted (entries_of s1)" by auto
  with s1 re Cons.IH [of s1] Cons.prems show ?case by (auto simp: mset_zins)
qed simp

lemma del_sorted:
  assumes "inv s" "zsorted (entries_of s)"
  shows "\<exists>r s'. del s m = Inr (r, s') \<and> zsorted (entries_of s') \<and> set (entries_of s') \<subseteq> set (entries_of s)"
  using del_law [OF assms(1), of m] assms(2) zsorted_remove by fastforce

end

text \<open>An insertion, without the address of the new node.\<close>

definition zsl_put :: "(nat \<Rightarrow> nat) \<Rightarrow> zskiplist \<Rightarrow> zentry \<Rightarrow> zskiplist res" where
  "zsl_put rs z e = bindr (zsl_insert rs z (fst e) (snd e)) (\<lambda>(_, z). Inr z)"

interpretation zsl: sorted_bag zsl_inv zsl_list zsl_put zsl_delete
proof
  show "\<exists>s'. zsl_put r s e = Inr s' \<and> zsl_inv s' \<and> zsl_list s' = zins e (zsl_list s) \<and> zsorted (zsl_list s')"
    if "zsl_inv s" "zsorted (zsl_list s)" "znum e" for s e r
    using zsl_insert_ok [of s "fst e" r "snd e"] that by (auto simp: zsl_put_def)
  show "\<exists>r s'. zsl_delete s m = Inr (r, s') \<and> zsl_inv s' \<and>
      (r = 0 \<and> zsl_list s' = zsl_list s \<or>
       r = 1 \<and> (\<exists>xs x ys. zsl_list s = xs @ (x, m) # ys \<and> zsl_list s' = xs @ ys))"
    if "zsl_inv s" for s m
    using zsl_delete_ok [OF that, of m] by blast
qed

text \<open>The insertions of a sequence of entries, each with its own random values.\<close>

fun zsl_insert_all :: "zskiplist \<Rightarrow> ((nat \<Rightarrow> nat) \<times> zentry) list \<Rightarrow> zskiplist res" where
  "zsl_insert_all z [] = Inr z"
| "zsl_insert_all z ((rs, e) # es) =
     bindr (zsl_insert rs z (fst e) (snd e)) (\<lambda>(_, z). zsl_insert_all z es)"

lemma zsl_insert_all_eq: "zsl_insert_all z es = zsl.ins_all z es"
proof (induction es arbitrary: z)
  case (Cons p es)
  obtain rs e where p: "p = (rs, e)" by (cases p)
  have "zsl_insert_all z ((rs, e) # es) = bindr (zsl_put rs z e) (\<lambda>z. zsl_insert_all z es)"
    by (simp add: zsl_put_def bindr_def split: prod.splits sum.splits)
  then show ?case by (simp only: p zsl.ins_all.simps Cons)
qed simp

end
