(* ===== verification/Key_Space.thy ===== *)
theory Key_Space
  imports Probe_Table Linked_List Chained_Table Skip_List_Ops
begin

text \<open>
  The key space (\<open>kv_table\<close>, \<open>db_object_t\<close>, \<open>kv_meta_t\<close> and the generic operations of
  \<open>src/src/core/kvdb.c\<close>): objects with their metadata, storing, looking up, deleting and
  listing keys, versions and expiry. The null checks on \<open>db\<close>, \<open>key\<close> and the output pointers
  are discharged by the types. A pointer to an object is the slot that holds it. \<open>mem n\<close>
  says whether \<open>calloc\<close> finds room for an array of \<open>n\<close> slots; the small allocations are
  taken to succeed.

  The lemmas show that every operation is memory safe and keeps the invariant, and what each
  does to the finite map of keys to objects.
\<close>

subsection \<open>Objects\<close>

datatype obj_val =
    OBJ_STRING string
  | OBJ_LIST dlist
  | OBJ_SET simple_ht
  | OBJ_HASH simple_ht
  | OBJ_ZSET zskiplist

record db_object =
  o_val :: obj_val
  o_ttl :: int
  o_version :: u64
  o_wallclock :: u64
  o_origin :: string

record kv_meta =
  m_version :: u64
  m_wallclock :: u64
  m_origin :: string

definition obj_create_string :: "u64 \<Rightarrow> string \<Rightarrow> db_object" where
  "obj_create_string now s =
     \<lparr>o_val = OBJ_STRING s, o_ttl = -1, o_version = 0, o_wallclock = now, o_origin = ''''\<rparr>"

definition obj_create_list :: db_object where
  "obj_create_list =
     \<lparr>o_val = OBJ_LIST dlist_new, o_ttl = -1, o_version = 0, o_wallclock = 0, o_origin = ''''\<rparr>"

definition obj_create_set :: db_object where
  "obj_create_set =
     \<lparr>o_val = OBJ_SET ht_create, o_ttl = -1, o_version = 0, o_wallclock = 0, o_origin = ''''\<rparr>"

definition obj_create_hash :: db_object where
  "obj_create_hash =
     \<lparr>o_val = OBJ_HASH ht_create, o_ttl = -1, o_version = 0, o_wallclock = 0, o_origin = ''''\<rparr>"

definition obj_create_zset :: db_object where
  "obj_create_zset =
     \<lparr>o_val = OBJ_ZSET zsl_create, o_ttl = -1, o_version = 0, o_wallclock = 0, o_origin = ''''\<rparr>"

text \<open>The chains of a hash table are values here, so freeing them is no step of the model.\<close>

definition obj_free :: "db_object \<Rightarrow> unit res" where
  "obj_free obj = (case o_val obj of
       OBJ_STRING _ \<Rightarrow> Inr ()
     | OBJ_LIST l \<Rightarrow> bindr (dlist_free l) (\<lambda>_. Inr ())
     | OBJ_SET _ \<Rightarrow> Inr ()
     | OBJ_HASH _ \<Rightarrow> Inr ()
     | OBJ_ZSET z \<Rightarrow> bindr (zsl_free z) (\<lambda>_. Inr ()))"

subsection \<open>The table\<close>

record kv_table =
  t_entries :: "db_object kv_entry list"
  t_capacity :: nat
  t_count :: nat
  t_path :: "string option"
  t_version :: u64

definition INITIAL_CAPACITY :: nat where
  "INITIAL_CAPACITY = 32"

text \<open>The table \<open>kv_open\<close> starts from, before it reads the file.\<close>

definition kv_init :: "string option \<Rightarrow> kv_table" where
  "kv_init path = \<lparr>t_entries = replicate INITIAL_CAPACITY E_EMPTY, t_capacity = INITIAL_CAPACITY,
                   t_count = 0, t_path = path, t_version = 0\<rparr>"

text \<open>\<open>calloc\<close> of 24-byte slots fails when the size in bytes is no \<open>size_t\<close>.\<close>

definition resize :: "(nat \<Rightarrow> bool) \<Rightarrow> kv_table \<Rightarrow> int \<times> kv_table" where
  "resize mem db =
     (let cap = 2 * t_capacity db in
      if mem cap \<and> cap * 24 < 2 ^ 64
      then (let (es, count) = resize_loop (t_entries db) (replicate cap E_EMPTY) 0 in
            (0, db\<lparr>t_entries := es, t_capacity := cap, t_count := count\<rparr>))
      else (-1, db))"

text \<open>\<open>1\<close> when \<open>a\<close> is the later write.\<close>

definition meta_gt :: "kv_meta \<Rightarrow> kv_meta \<Rightarrow> bool" where
  "meta_gt a b =
     (if m_version a \<noteq> m_version b then m_version a > m_version b
      else if m_wallclock a \<noteq> m_wallclock b then m_wallclock a > m_wallclock b
      else strcmp (m_origin a) (m_origin b) > 0)"

definition kv_next_version :: "kv_table \<Rightarrow> u64 \<times> kv_table" where
  "kv_next_version db = (let v = t_version db + 1 in (v, db\<lparr>t_version := v\<rparr>))"

definition kv_db_version :: "kv_table \<Rightarrow> u64" where
  "kv_db_version db = t_version db"

text \<open>
  An origin is a C string in a 16-byte array; \<open>memcpy\<close> of 15 bytes and a terminating NUL
  keep its first 15 characters.
\<close>

definition stamp :: "kv_meta \<Rightarrow> db_object \<Rightarrow> db_object" where
  "stamp m obj = obj\<lparr>o_version := m_version m, o_wallclock := m_wallclock m, o_origin := take 15 (m_origin m)\<rparr>"

definition bump :: "kv_meta \<Rightarrow> kv_table \<Rightarrow> kv_table" where
  "bump m db = (if m_version m > t_version db then db\<lparr>t_version := m_version m\<rparr> else db)"

text \<open>The slot and the object a probe finds.\<close>

fun entry_obj :: "'o kv_entry \<Rightarrow> 'o option" where
  "entry_obj (E_OCCUPIED k v) = Some v"
| "entry_obj e = None"

definition kv_find :: "kv_table \<Rightarrow> string \<Rightarrow> (nat \<times> db_object) option" where
  "kv_find db key =
     (let (idx, found) = probe (t_entries db) key in
      if found then map_option (Pair idx) (entry_obj (t_entries db ! idx)) else None)"

text \<open>Writing through a pointer to the object in a slot.\<close>

fun entry_put :: "'o \<Rightarrow> 'o kv_entry \<Rightarrow> 'o kv_entry" where
  "entry_put v (E_OCCUPIED k w) = E_OCCUPIED k v"
| "entry_put v e = e"

definition put_obj :: "nat \<Rightarrow> db_object \<Rightarrow> kv_table \<Rightarrow> kv_table" where
  "put_obj idx obj db = db\<lparr>t_entries := (t_entries db)[idx := entry_put obj (t_entries db ! idx)]\<rparr>"

text \<open>Freeing the key and the object of an occupied slot.\<close>

definition drop_slot :: "nat \<Rightarrow> db_object \<Rightarrow> kv_table \<Rightarrow> kv_table res" where
  "drop_slot idx obj db =
     bindr (obj_free obj) (\<lambda>_.
     Inr (db\<lparr>t_entries := (t_entries db)[idx := E_DELETED], t_count := t_count db - 1\<rparr>))"

subsection \<open>Operations\<close>

text \<open>
  \<open>(double)(count + 1) / capacity > 0.75\<close>: the quotient by a power of two is exact, so the
  test is \<open>4 (count + 1) > 3 capacity\<close>.
\<close>

definition overfull :: "kv_table \<Rightarrow> bool" where
  "overfull db \<longleftrightarrow> 4 * (t_count db + 1) > 3 * t_capacity db"

definition kv_set_object ::
  "(nat \<Rightarrow> bool) \<Rightarrow> kv_table \<Rightarrow> string \<Rightarrow> db_object \<Rightarrow> kv_meta option \<Rightarrow> (int \<times> kv_table) res" where
  "kv_set_object mem db key obj meta =
     (let (r, db) = (if overfull db then resize mem db else (0, db)) in
      if r \<noteq> 0 then Inr (-1, db) else
      let (idx, found) = probe (t_entries db) key;
          obj = (case meta of None \<Rightarrow> obj | Some m \<Rightarrow> stamp m obj) in
      bindr (if found
             then bindr (case entry_obj (t_entries db ! idx) of Some old \<Rightarrow> obj_free old | None \<Rightarrow> Inr ())
                    (\<lambda>_. Inr (put_obj idx obj db))
             else Inr (db\<lparr>t_entries := (t_entries db)[idx := E_OCCUPIED key obj], t_count := Suc (t_count db)\<rparr>))
        (\<lambda>db. Inr (0, case meta of None \<Rightarrow> db | Some m \<Rightarrow> bump m db)))"

text \<open>Returns the pointer: slot and object.\<close>

definition kv_get_object :: "kv_table \<Rightarrow> string \<Rightarrow> (nat \<times> db_object) option" where
  "kv_get_object db key = kv_find db key"

definition kv_del :: "kv_table \<Rightarrow> string \<Rightarrow> (int \<times> kv_table) res" where
  "kv_del db key = (case kv_find db key of
       None \<Rightarrow> Inr (-1, db)
     | Some (idx, obj) \<Rightarrow> bindr (drop_slot idx obj db) (\<lambda>db. Inr (0, db)))"

definition kv_del_meta :: "kv_table \<Rightarrow> string \<Rightarrow> kv_meta \<Rightarrow> (int \<times> kv_table) res" where
  "kv_del_meta db key meta = (case kv_find db key of
       None \<Rightarrow> Inr (-1, bump meta db)
     | Some (idx, obj) \<Rightarrow>
         (let cur = \<lparr>m_version = o_version obj, m_wallclock = o_wallclock obj, m_origin = take 15 (o_origin obj)\<rparr> in
          if meta_gt cur meta then Inr (0, db)
          else bindr (drop_slot idx obj db) (\<lambda>db. Inr (0, bump meta db))))"

definition kv_set_meta ::
  "(nat \<Rightarrow> bool) \<Rightarrow> u64 \<Rightarrow> kv_table \<Rightarrow> string \<Rightarrow> string \<Rightarrow> kv_meta \<Rightarrow> (int \<times> kv_table) res" where
  "kv_set_meta mem now db key value meta =
     kv_set_object mem db key (stamp meta (obj_create_string now value)) (Some meta)"

definition kv_set :: "(nat \<Rightarrow> bool) \<Rightarrow> u64 \<Rightarrow> kv_table \<Rightarrow> string \<Rightarrow> string \<Rightarrow> (int \<times> kv_table) res" where
  "kv_set mem now db key value =
     (let (ver, db) = kv_next_version db;
          m = \<lparr>m_version = ver, m_wallclock = now, m_origin = ''''\<rparr> in
      kv_set_meta mem now db key value m)"

definition kv_get :: "kv_table \<Rightarrow> string \<Rightarrow> string option" where
  "kv_get db key = (case kv_get_object db key of
       None \<Rightarrow> None
     | Some (_, obj) \<Rightarrow> (case o_val obj of OBJ_STRING s \<Rightarrow> Some s | _ \<Rightarrow> None))"

definition kv_get_meta :: "kv_table \<Rightarrow> string \<Rightarrow> (string \<times> kv_meta) option" where
  "kv_get_meta db key = (case kv_find db key of
       None \<Rightarrow> None
     | Some (_, obj) \<Rightarrow> (case o_val obj of
           OBJ_STRING s \<Rightarrow> Some (s, \<lparr>m_version = o_version obj, m_wallclock = o_wallclock obj,
                                   m_origin = take 15 (o_origin obj)\<rparr>)
         | _ \<Rightarrow> None))"

definition kv_exists :: "kv_table \<Rightarrow> string \<Rightarrow> bool" where
  "kv_exists db key = snd (probe (t_entries db) key)"

text \<open>The loop of \<open>kv_keys\<close>, which stops after \<open>n = count\<close> keys.\<close>

fun keys_loop :: "nat \<Rightarrow> 'o kv_entry list \<Rightarrow> string list" where
  "keys_loop 0 es = []"
| "keys_loop (Suc n) [] = []"
| "keys_loop (Suc n) (E_OCCUPIED k v # es) = k # keys_loop n es"
| "keys_loop (Suc n) (e # es) = keys_loop (Suc n) es"

definition kv_keys :: "kv_table \<Rightarrow> int \<times> string list" where
  "kv_keys db = (0, keys_loop (t_count db) (t_entries db))"

definition kv_ttl_ms :: "kv_table \<Rightarrow> string \<Rightarrow> int" where
  "kv_ttl_ms db key = (case kv_find db key of
       None \<Rightarrow> -2
     | Some (_, obj) \<Rightarrow> if o_ttl obj < 0 then -1 else o_ttl obj)"

definition kv_set_ttl :: "kv_table \<Rightarrow> string \<Rightarrow> int \<Rightarrow> int \<times> kv_table" where
  "kv_set_ttl db key ttl = (case kv_find db key of
       None \<Rightarrow> (-1, db)
     | Some (idx, obj) \<Rightarrow> (0, put_obj idx (obj\<lparr>o_ttl := ttl\<rparr>) db))"

text \<open>\<open>now\<close> is \<open>now_msec()\<close>; the sum is a signed 64-bit addition.\<close>

definition kv_expire :: "int \<Rightarrow> kv_table \<Rightarrow> string \<Rightarrow> int \<Rightarrow> (int \<times> kv_table) res" where
  "kv_expire now db key msec = bindr (i64 (now + msec)) (\<lambda>ttl. Inr (kv_set_ttl db key ttl))"

definition kv_persist :: "kv_table \<Rightarrow> string \<Rightarrow> int \<times> kv_table" where
  "kv_persist db key = kv_set_ttl db key (-1)"

text \<open>
  One round of the sampling loop of \<open>kv_active_expire\<close>, and the loop with \<open>k\<close> rounds left and
  \<open>s\<close> done: \<open>rs\<close> is the sequence of values of \<open>rand_r\<close>.
\<close>

definition expire_sample :: "int \<Rightarrow> nat \<Rightarrow> kv_table \<Rightarrow> nat \<Rightarrow> (nat \<times> kv_table) res" where
  "expire_sample now idx db expired = (case t_entries db ! idx of
       E_OCCUPIED _ obj \<Rightarrow>
         if o_ttl obj \<ge> 0 \<and> now \<ge> o_ttl obj
         then bindr (drop_slot idx obj db) (\<lambda>db. Inr (Suc expired, db))
         else Inr (expired, db)
     | _ \<Rightarrow> Inr (expired, db))"

fun expire_loop :: "(nat \<Rightarrow> nat) \<Rightarrow> int \<Rightarrow> nat \<Rightarrow> nat \<Rightarrow> nat \<Rightarrow> kv_table \<Rightarrow> nat \<Rightarrow> (nat \<times> kv_table) res" where
  "expire_loop rs now max_samples s 0 db expired = Inr (expired, db)"
| "expire_loop rs now max_samples s (Suc k) db expired =
     bindr (expire_sample now (rs s mod t_capacity db) db expired) (\<lambda>(expired, db).
     if expired \<ge> max_samples div 4 then Inr (expired, db)
     else expire_loop rs now max_samples (Suc s) k db expired)"

definition kv_active_expire :: "(nat \<Rightarrow> nat) \<Rightarrow> kv_table \<Rightarrow> nat \<Rightarrow> int \<Rightarrow> (nat \<times> kv_table) res" where
  "kv_active_expire rs db max_samples now =
     expire_loop rs now max_samples 0 (min max_samples (t_capacity db)) db 0"

subsection \<open>Invariant and abstract map\<close>

definition obj_inv :: "db_object \<Rightarrow> bool" where
  "obj_inv obj = (case o_val obj of
       OBJ_STRING _ \<Rightarrow> True
     | OBJ_LIST l \<Rightarrow> dlist_inv l
     | OBJ_SET h \<Rightarrow> ht_inv h
     | OBJ_HASH h \<Rightarrow> ht_inv h
     | OBJ_ZSET z \<Rightarrow> zsl_inv z)"

definition kv_inv :: "kv_table \<Rightarrow> bool" where
  "kv_inv db \<longleftrightarrow> t_capacity db = length (t_entries db) \<and> tbl_wf (t_entries db) \<and>
     length (occs (t_entries db)) \<le> t_count db \<and> 4 * t_count db \<le> 3 * t_capacity db \<and>
     (\<forall>(k, v) \<in> set (occs (t_entries db)). obj_inv v)"

definition kv_map :: "kv_table \<Rightarrow> string \<rightharpoonup> db_object" where
  "kv_map db = tbl_map (t_entries db)"

lemma obj_inv_update [simp]:
  "obj_inv (obj\<lparr>o_ttl := t\<rparr>) = obj_inv obj" "obj_inv (obj\<lparr>o_version := v\<rparr>) = obj_inv obj"
  "obj_inv (obj\<lparr>o_wallclock := v\<rparr>) = obj_inv obj" "obj_inv (obj\<lparr>o_origin := s\<rparr>) = obj_inv obj"
  by (simp_all add: obj_inv_def)

lemma stamp_simps [simp]: "o_val (stamp m obj) = o_val obj" "o_ttl (stamp m obj) = o_ttl obj" "obj_inv (stamp m obj) = obj_inv obj"
  by (simp_all add: stamp_def)

lemma bump_simps [simp]:
  "t_entries (bump m db) = t_entries db" "t_capacity (bump m db) = t_capacity db" "t_count (bump m db) = t_count db"
  "t_path (bump m db) = t_path db"
  by (simp_all add: bump_def)

lemma bump_version: "t_version (bump m db) = max (t_version db) (m_version m)"
  by (cases "t_version db < m_version m") (auto simp: bump_def max_def)

lemma kv_inv_cong:
  "t_entries db' = t_entries db \<Longrightarrow> t_capacity db' = t_capacity db \<Longrightarrow> t_count db' = t_count db \<Longrightarrow> kv_inv db' = kv_inv db"
  by (simp add: kv_inv_def)

lemma kv_inv_version [simp]: "kv_inv (db\<lparr>t_version := v\<rparr>) = kv_inv db" "kv_inv (bump m db) = kv_inv db"
  by (rule kv_inv_cong; simp)+

lemma kv_map_version [simp]: "kv_map (db\<lparr>t_version := v\<rparr>) = kv_map db" "kv_map (bump m db) = kv_map db"
  by (simp_all add: kv_map_def)

lemma obj_free_ok: "obj_inv obj \<Longrightarrow> obj_free obj = Inr ()"
  by (auto simp: obj_free_def obj_inv_def dlist_inv_def free_rep zsl_free_ok split: obj_val.splits)

lemma obj_create_inv [simp]:
  "obj_inv (obj_create_string now s)" "obj_inv obj_create_list" "obj_inv obj_create_set"
  "obj_inv obj_create_hash" "obj_inv obj_create_zset"
  using dlist_new_ok ht_create_ok zsl_create_ok
  by (simp_all add: obj_inv_def obj_create_string_def obj_create_list_def obj_create_set_def obj_create_hash_def
        obj_create_zset_def)

lemma tbl_map_set_occs: "tbl_wf es \<Longrightarrow> tbl_map es k = Some v \<longleftrightarrow> (k, v) \<in> set (occs es)"
  by (simp add: tbl_map_iff occs_iff)

lemma kv_invD:
  assumes "kv_inv db"
  shows "tbl_wf (t_entries db)" "t_capacity db = length (t_entries db)" "kv_map db k = Some v \<Longrightarrow> obj_inv v"
  using assms by (auto simp: kv_inv_def kv_map_def tbl_map_set_occs)

lemma kv_init_inv: "kv_inv (kv_init path)"
proof -
  have cap: "cap_ok 32" unfolding cap_ok_def by (intro exI [of _ 5]) simp
  have "occs (replicate n E_EMPTY :: db_object kv_entry list) = []" for n by (induction n) (simp_all add: occs_def)
  with tbl_empty(1) [OF cap] show ?thesis
    by (simp add: kv_inv_def kv_init_def INITIAL_CAPACITY_def)
qed

lemma kv_init_map: "kv_map (kv_init path) = Map.empty"
proof -
  have cap: "cap_ok 32" unfolding cap_ok_def by (intro exI [of _ 5]) simp
  from tbl_empty(2) [OF cap] show ?thesis by (simp add: kv_map_def kv_init_def INITIAL_CAPACITY_def)
qed

lemma kv_find_None: "kv_inv db \<Longrightarrow> kv_find db k = None \<longleftrightarrow> kv_map db k = None"
  using probe_ok [OF kv_invD(1), of db k] unfolding kv_find_def kv_map_def
  by (cases "probe (t_entries db) k") auto

lemma kv_find_Some:
  assumes "kv_inv db" "kv_find db k = Some (idx, obj)"
  shows "kv_map db k = Some obj" "idx < length (t_entries db)" "t_entries db ! idx = E_OCCUPIED k obj"
    "obj_inv obj" "probe (t_entries db) k = (idx, True)"
proof -
  obtain i f where p: "probe (t_entries db) k = (i, f)" by fastforce
  with assms(2) have f: "f" "i = idx" by (auto simp: kv_find_def split: if_splits)
  note ok = probe_ok [OF kv_invD(1) [OF assms(1)] p]
  show "idx < length (t_entries db)" "probe (t_entries db) k = (idx, True)" using ok p f by auto
  from ok f have e: "t_entries db ! idx = E_OCCUPIED k (the (kv_map db k))" by (simp add: kv_map_def)
  with assms(2) p f have o: "the (kv_map db k) = obj" by (simp add: kv_find_def)
  with e show "t_entries db ! idx = E_OCCUPIED k obj" by simp
  from ok(2) f o show "kv_map db k = Some obj" by (auto simp: kv_map_def)
  with kv_invD(3) [OF assms(1)] show "obj_inv obj" .
qed

lemma kv_find_map: "kv_inv db \<Longrightarrow> kv_map db k = Some obj \<Longrightarrow> \<exists>idx. kv_find db k = Some (idx, obj)"
  using kv_find_None [of db k] kv_find_Some(1) [of db k] by (cases "kv_find db k") fastforce+

lemma kv_exists_ok: "kv_inv db \<Longrightarrow> kv_exists db k \<longleftrightarrow> k \<in> dom (kv_map db)"
  using probe_ok(2) [OF kv_invD(1), of db k] by (cases "probe (t_entries db) k") (auto simp: kv_exists_def kv_map_def)

lemma kv_get_ok:
  "kv_inv db \<Longrightarrow> kv_get db k = (case kv_map db k of
     Some obj \<Rightarrow> (case o_val obj of OBJ_STRING s \<Rightarrow> Some s | _ \<Rightarrow> None) | None \<Rightarrow> None)"
  using kv_find_None [of db k] kv_find_map [of db k] unfolding kv_get_def kv_get_object_def
  by (cases "kv_map db k") auto

subsection \<open>Writing and deleting\<close>

lemma length_occs: "length (occs es) = length (filter (\<lambda>e. occ e \<noteq> []) es)"
proof (induction es)
  case (Cons e es)
  then show ?case by (cases e) auto
qed simp

lemma length_occs_update:
  "idx < length es \<Longrightarrow>
     length (occs (es[idx := e])) + length (occ (es ! idx)) = length (occs es) + length (occ e)"
  using filter_nth_update_length [of idx es "\<lambda>e. occ e \<noteq> []" e]
  by (cases e; cases "es ! idx") (simp_all add: length_occs)

lemma occs_update_inv:
  assumes "\<forall>(k, v) \<in> set (occs es). P v" "\<forall>(k, v) \<in> set (occ e). P v"
  shows "\<forall>(k, v) \<in> set (occs (es[idx := e])). P v"
  using assms unfolding occs_def by (auto dest!: set_update_subset_insert [THEN subsetD])

lemma put_obj_ok:
  assumes inv: "kv_inv db" and find: "kv_find db k = Some (idx, obj)" and o: "obj_inv obj'"
  shows "kv_inv (put_obj idx obj' db)" and "kv_map (put_obj idx obj' db) = (kv_map db)(k \<mapsto> obj')"
proof -
  note f = kv_find_Some [OF inv find]
  let ?es = "t_entries db" and ?es' = "(t_entries db)[idx := E_OCCUPIED k obj']"
  have es: "t_entries (put_obj idx obj' db) = ?es'" by (simp add: put_obj_def f(3))
  have s: "tbl_wf ?es'" "tbl_map ?es' = (tbl_map ?es |` (- {k'. \<exists>v'. ?es ! idx = E_OCCUPIED k' v'}))(k \<mapsto> obj')"
    using tbl_store [OF kv_invD(1) [OF inv] f(5)] by blast+
  have "(tbl_map ?es |` (- {k'. \<exists>v'. ?es ! idx = E_OCCUPIED k' v'}))(k \<mapsto> obj') = (tbl_map ?es)(k \<mapsto> obj')"
    using f(3) by (auto simp: fun_eq_iff restrict_map_def)
  with s(2) show "kv_map (put_obj idx obj' db) = (kv_map db)(k \<mapsto> obj')" by (simp add: kv_map_def es)
  have "length (occs ?es') = length (occs ?es)" using length_occs_update [OF f(2), of "E_OCCUPIED k obj'"] f(3) by simp
  moreover have "\<forall>(k, v) \<in> set (occs ?es'). obj_inv v"
    using inv o by (intro occs_update_inv) (auto simp: kv_inv_def)
  ultimately show "kv_inv (put_obj idx obj' db)" using inv s(1) by (simp add: kv_inv_def es) (simp add: put_obj_def)
qed

lemma drop_slot_ok:
  assumes inv: "kv_inv db" and e: "idx < length (t_entries db)" "t_entries db ! idx = E_OCCUPIED k obj"
  shows "\<exists>db'. drop_slot idx obj db = Inr db' \<and> kv_inv db' \<and> kv_map db' = (kv_map db)(k := None) \<and>
           t_count db' = t_count db - 1 \<and> t_version db' = t_version db \<and> t_capacity db' = t_capacity db \<and>
           length (t_entries db') = length (t_entries db)"
proof -
  let ?es = "(t_entries db)[idx := E_DELETED]"
  let ?db = "db\<lparr>t_entries := ?es, t_count := t_count db - 1\<rparr>"
  have "(k, obj) \<in> set (occs (t_entries db))" using e by (auto simp: occs_iff)
  then have "obj_inv obj" using inv by (auto simp: kv_inv_def)
  then have d: "drop_slot idx obj db = Inr ?db" by (simp add: drop_slot_def obj_free_ok)
  note t = tbl_delete [OF kv_invD(1) [OF inv] e]
  have "length (occs ?es) + 1 = length (occs (t_entries db))" using length_occs_update [OF e(1), of E_DELETED] e(2) by simp
  moreover have "\<forall>(k, v) \<in> set (occs ?es). obj_inv v" using inv by (intro occs_update_inv) (auto simp: kv_inv_def)
  ultimately have "kv_inv ?db" using inv t(1) by (auto simp: kv_inv_def)
  with d t(2) show ?thesis by (simp add: kv_map_def)
qed

lemma kv_del_ok:
  assumes "kv_inv db"
  shows "\<exists>db'. kv_del db k = Inr (if k \<in> dom (kv_map db) then 0 else -1, db') \<and> kv_inv db' \<and>
           kv_map db' = (kv_map db)(k := None)"
proof (cases "kv_find db k")
  case None
  then have "kv_map db k = None" using kv_find_None [OF assms] by simp
  with None assms show ?thesis by (auto simp: kv_del_def)
next
  case (Some io)
  then obtain idx obj where io: "kv_find db k = Some (idx, obj)" by (cases io) auto
  note f = kv_find_Some [OF assms io]
  from drop_slot_ok [OF assms f(2,3)] io f(1) show ?thesis by (auto simp: kv_del_def)
qed

subsection \<open>Storing\<close>

lemma cap_ok_double: "cap_ok cap \<Longrightarrow> 2 * cap * 24 < 2 ^ 64 \<Longrightarrow> cap_ok (2 * cap)"
proof -
  assume "cap_ok cap" and lim: "2 * cap * 24 < 2 ^ 64"
  then obtain k where k: "5 \<le> k" "cap = 2 ^ k" by (auto simp: cap_ok_def)
  have "k < 59"
  proof (rule ccontr)
    assume "\<not> k < 59"
    then have "(2::nat) ^ 59 \<le> 2 ^ k" by (intro power_increasing) auto
    with lim k show False by simp
  qed
  with k show ?thesis by (auto simp: cap_ok_def intro!: exI [of _ "Suc k"])
qed

text \<open>A resize keeps every key and leaves at most 3/8 of the slots in use.\<close>

lemma resize_ok:
  assumes inv: "kv_inv db" and mem: "mem (2 * t_capacity db)" "2 * t_capacity db * 24 < 2 ^ 64"
  shows "\<exists>db'. resize mem db = (0, db') \<and> kv_inv db' \<and> kv_map db' = kv_map db \<and> t_version db' = t_version db \<and>
           t_capacity db' = 2 * t_capacity db \<and> t_count db' \<le> t_count db \<and> 8 * used (t_entries db') \<le> 3 * t_capacity db' \<and>
           4 * (t_count db' + 1) \<le> 3 * t_capacity db'"
proof -
  let ?es = "t_entries db" and ?cap = "2 * t_capacity db"
  let ?new = "replicate ?cap E_EMPTY :: db_object kv_entry list"
  have wf: "tbl_wf ?es" and cap: "t_capacity db = length ?es" using kv_invD [OF inv] by auto
  have ok: "cap_ok ?cap" using cap_ok_double [of "t_capacity db"] tbl_wf_cap [OF wf] cap mem(2) by simp
  have occ: "4 * length (occs ?es) \<le> 3 * length ?es" using inv by (simp add: kv_inv_def)
  have pos: "32 \<le> length ?es"
  proof -
    from tbl_wf_cap [OF wf] obtain k where "5 \<le> k" "length ?es = 2 ^ k" by (auto simp: cap_ok_def)
    with power_increasing [of 5 k "2::nat"] show ?thesis by simp
  qed
  have "2 * (used ?new + length (occs ?es)) < length ?new" using occ cap pos by simp
  moreover have em: "tbl_map ?new = Map.empty" by (rule tbl_empty(2) [OF ok])
  ultimately obtain es' where
    es': "resize_loop ?es ?new 0 = (es', length (occs ?es))" "tbl_wf es'" "length es' = ?cap"
      "tbl_map es' = map_of (occs ?es)" "used es' = length (occs ?es)"
    using resize_loop_ok [OF tbl_empty(1) [OF ok] _ tbl_wf_distinct [OF wf], of 0] by auto
  let ?db = "db\<lparr>t_entries := es', t_capacity := ?cap, t_count := length (occs ?es)\<rparr>"
  have m: "tbl_map es' = tbl_map ?es" using es'(4) by (simp add: tbl_map_def)
  have objs: "\<forall>(k, v) \<in> set (occs es'). obj_inv v"
  proof clarify
    fix k v assume "(k, v) \<in> set (occs es')"
    then have "kv_map db k = Some v" using m tbl_map_set_occs [OF es'(2)] by (simp add: kv_map_def)
    then show "obj_inv v" by (rule kv_invD(3) [OF inv])
  qed
  have "length (occs es') \<le> used es'"
    unfolding length_occs used_def length_filter_conv_card by (intro card_mono) auto
  then have "kv_inv ?db" using es' objs occ cap by (simp add: kv_inv_def)
  moreover have "resize mem db = (0, ?db)" using mem es'(1) by (simp add: resize_def Let_def)
  moreover have "length (occs ?es) \<le> t_count db" using inv by (simp add: kv_inv_def)
  moreover have "8 * length (occs ?es) \<le> 3 * ?cap" using occ cap by simp
  moreover have "4 * (length (occs ?es) + 1) \<le> 3 * ?cap" using occ cap pos by simp
  ultimately show ?thesis using m es'(5) by (simp add: kv_map_def)
qed

lemma resize_fail: "\<not> (mem (2 * t_capacity db) \<and> 2 * t_capacity db * 24 < 2 ^ 64) \<Longrightarrow> resize mem db = (-1, db)"
  by (auto simp: resize_def Let_def)

text \<open>
  A store into a table that needs no resize: the key is bound to the object; when the probe
  finds neither the key nor an empty slot, the key of the last slot probed is lost.
\<close>

definition victims :: "kv_table \<Rightarrow> string \<Rightarrow> string set" where
  "victims db k = {k'. \<exists>v. t_entries db ! fst (probe (t_entries db) k) = E_OCCUPIED k' v} - {k}"

definition stamped :: "kv_meta option \<Rightarrow> db_object \<Rightarrow> db_object" where
  "stamped meta obj = (case meta of None \<Rightarrow> obj | Some m \<Rightarrow> stamp m obj)"

lemma stamped_inv [simp]: "obj_inv (stamped meta obj) = obj_inv obj"
  by (simp add: stamped_def split: option.splits)

lemma store_step:
  assumes inv: "kv_inv db" and room: "\<not> overfull db" and o: "obj_inv obj"
  shows "\<exists>db'. kv_set_object mem db k obj meta = Inr (0, db') \<and> kv_inv db' \<and>
           kv_map db' = (kv_map db |` (- victims db k))(k \<mapsto> stamped meta obj) \<and> t_capacity db' = t_capacity db"
proof -
  obtain idx f where p: "probe (t_entries db) k = (idx, f)" by fastforce
  note ok = probe_ok [OF kv_invD(1) [OF inv] p]
  let ?obj = "stamped meta obj" and ?b = "\<lambda>db. case meta of None \<Rightarrow> db | Some m \<Rightarrow> bump m db"
  have b: "kv_inv (?b d) = kv_inv d" "kv_map (?b d) = kv_map d" "t_capacity (?b d) = t_capacity d" for d
    by (simp_all split: option.splits)
  show ?thesis
  proof (cases f)
    case True
    then obtain old where old: "kv_find db k = Some (idx, old)" "t_entries db ! idx = E_OCCUPIED k old"
      using ok(3) p by (auto simp: kv_find_def)
    note put = put_obj_ok [OF inv old(1), of ?obj]
    have "kv_set_object mem db k obj meta = Inr (0, ?b (put_obj idx ?obj db))"
      using room p True old kv_find_Some(4) [OF inv old(1)]
      by (cases meta) (simp_all add: kv_set_object_def Let_def obj_free_ok stamped_def)
    moreover have "kv_map db |` (- victims db k) = kv_map db"
      using p old(2) by (auto simp: victims_def restrict_map_def)
    moreover have "t_capacity (put_obj idx ?obj db) = t_capacity db" by (simp add: put_obj_def)
    ultimately show ?thesis using put o b by simp
  next
    case False
    let ?es = "(t_entries db)[idx := E_OCCUPIED k ?obj]"
    let ?db = "db\<lparr>t_entries := ?es, t_count := Suc (t_count db)\<rparr>"
    have "kv_set_object mem db k obj meta = Inr (0, ?b ?db)"
      using room p False by (cases meta) (simp_all add: kv_set_object_def Let_def stamped_def)
    moreover have "kv_inv ?db"
    proof -
      have "length (occs ?es) \<le> Suc (length (occs (t_entries db)))"
        using length_occs_update [OF ok(1), of "E_OCCUPIED k ?obj"] by simp
      moreover have "\<forall>(k, v) \<in> set (occs ?es). obj_inv v"
        using inv o by (intro occs_update_inv) (auto simp: kv_inv_def)
      ultimately show ?thesis
        using inv room tbl_store(1) [OF kv_invD(1) [OF inv] p, of ?obj] by (auto simp: kv_inv_def overfull_def)
    qed
    moreover have "kv_map ?db = (kv_map db |` (- victims db k))(k \<mapsto> ?obj)"
      using tbl_store(2) [OF kv_invD(1) [OF inv] p, of ?obj] p
      by (auto simp: kv_map_def victims_def fun_eq_iff restrict_map_def)
    ultimately show ?thesis using b by simp
  qed
qed

text \<open>The table a store works on, after a resize where one is due.\<close>

definition grown :: "(nat \<Rightarrow> bool) \<Rightarrow> kv_table \<Rightarrow> kv_table" where
  "grown mem db = (if overfull db then snd (resize mem db) else db)"

definition can_grow :: "(nat \<Rightarrow> bool) \<Rightarrow> kv_table \<Rightarrow> bool" where
  "can_grow mem db \<longleftrightarrow> (overfull db \<longrightarrow> mem (2 * t_capacity db) \<and> 2 * t_capacity db * 24 < 2 ^ 64)"

lemma grown_ok:
  assumes "kv_inv db" "can_grow mem db"
  shows "kv_inv (grown mem db)" "kv_map (grown mem db) = kv_map db" "\<not> overfull (grown mem db)"
    "kv_set_object mem db k obj meta = kv_set_object mem (grown mem db) k obj meta"
    "overfull db \<Longrightarrow> 2 * used (t_entries (grown mem db)) < t_capacity (grown mem db)"
proof -
  have "kv_inv (grown mem db) \<and> kv_map (grown mem db) = kv_map db \<and> \<not> overfull (grown mem db) \<and>
    kv_set_object mem db k obj meta = kv_set_object mem (grown mem db) k obj meta \<and>
    (overfull db \<longrightarrow> 2 * used (t_entries (grown mem db)) < t_capacity (grown mem db))"
  proof (cases "overfull db")
    case True
    with assms(2) have mem: "mem (2 * t_capacity db)" "2 * t_capacity db * 24 < 2 ^ 64" by (auto simp: can_grow_def)
    from resize_ok [of db mem, OF assms(1) mem] obtain db' where
      d: "resize mem db = (0, db')" "kv_inv db'" "kv_map db' = kv_map db" "8 * used (t_entries db') \<le> 3 * t_capacity db'"
        "4 * (t_count db' + 1) \<le> 3 * t_capacity db'" by blast
    have "\<not> overfull db'" using d(5) by (simp add: overfull_def)
    moreover have "0 < t_capacity db'" using kv_invD [OF d(2)] cap_ok_pos tbl_wf_cap by metis
    ultimately show ?thesis using True d by (auto simp: grown_def kv_set_object_def)
  qed (use assms in \<open>simp add: grown_def\<close>)
  then show "kv_inv (grown mem db)" "kv_map (grown mem db) = kv_map db" "\<not> overfull (grown mem db)"
    "kv_set_object mem db k obj meta = kv_set_object mem (grown mem db) k obj meta"
    "overfull db \<Longrightarrow> 2 * used (t_entries (grown mem db)) < t_capacity (grown mem db)" by auto
qed

lemma kv_set_object_ok:
  assumes inv: "kv_inv db" and o: "obj_inv obj"
  shows "\<exists>db'. kv_set_object mem db k obj meta = Inr (if can_grow mem db then 0 else -1, db') \<and> kv_inv db' \<and>
    kv_map db' = (if can_grow mem db
      then (kv_map db |` (- victims (grown mem db) k))(k \<mapsto> stamped meta obj) else kv_map db)"
proof (cases "can_grow mem db")
  case True
  note g = grown_ok [OF inv True]
  from store_step [OF g(1,3) o] g(2,4) True show ?thesis by metis
next
  case False
  then have "kv_set_object mem db k obj meta = Inr (-1, db)"
    by (simp add: can_grow_def kv_set_object_def resize_fail)
  with False inv show ?thesis by simp
qed

text \<open>No key is lost while fewer than half of the slots are in use, nor by a store that resizes.\<close>

lemma no_victims:
  assumes inv: "kv_inv db" and grow: "can_grow mem db" and half: "overfull db \<or> 2 * used (t_entries db) < t_capacity db"
  shows "victims (grown mem db) k = {}"
proof -
  let ?d = "grown mem db"
  note g = grown_ok [OF inv grow]
  have h: "2 * used (t_entries ?d) < length (t_entries ?d)"
    using half g(1,5) kv_invD(2) [OF g(1)] by (auto simp: grown_def split: if_splits)
  obtain idx f where p: "probe (t_entries ?d) k = (idx, f)" by fastforce
  from probe_not_full [OF kv_invD(1) [OF g(1)] h p] probe_ok(3) [OF kv_invD(1) [OF g(1)] p] p
  show ?thesis by (auto simp: victims_def)
qed

lemma victims_card: "card (victims db k) \<le> 1 \<and> finite (victims db k)"
proof -
  have "\<exists>x. victims db k \<subseteq> {x}" unfolding victims_def by (cases "t_entries db ! fst (probe (t_entries db) k)") auto
  then obtain x where x: "victims db k \<subseteq> {x}" ..
  then have "finite (victims db k)" by (rule finite_subset) simp
  moreover have "card (victims db k) \<le> card {x}" using x by (intro card_mono) auto
  ultimately show ?thesis by simp
qed

subsection \<open>Versions\<close>

interpretation meta_order: strict_linear "\<lambda>a b. meta_gt b a" "\<lambda>_. True"
proof
  show "\<not> meta_gt x x" for x by (simp add: meta_gt_def)
  show "meta_gt z x" if "meta_gt y x" "meta_gt z y" for x y z
    using that strcmp_trans [of "m_origin x" "m_origin y" "m_origin z"]
    by (auto simp: meta_gt_def strcmp_gt_lt split: if_splits)
  show "meta_gt y x \<or> meta_gt x y" if "x \<noteq> y" for x y :: kv_meta
    using that strcmp_total [of "m_origin x" "m_origin y"]
    by (cases x; cases y) (auto simp: meta_gt_def strcmp_gt_lt)
qed

definition obj_meta :: "db_object \<Rightarrow> kv_meta" where
  "obj_meta obj = \<lparr>m_version = o_version obj, m_wallclock = o_wallclock obj, m_origin = take 15 (o_origin obj)\<rparr>"

text \<open>A versioned deletion removes the key unless the stored write is the later one.\<close>

lemma kv_del_meta_ok:
  assumes inv: "kv_inv db"
  shows "\<exists>db'. kv_del_meta db k meta = Inr (if k \<in> dom (kv_map db) then 0 else -1, db') \<and> kv_inv db' \<and>
     (case kv_map db k of
        None \<Rightarrow> kv_map db' = kv_map db \<and> t_version db' = max (t_version db) (m_version meta)
      | Some obj \<Rightarrow> if meta_gt (obj_meta obj) meta then db' = db
                    else kv_map db' = (kv_map db)(k := None) \<and> t_version db' = max (t_version db) (m_version meta))"
proof (cases "kv_find db k")
  case None
  with kv_find_None [OF inv] have "kv_map db k = None" by simp
  with None inv show ?thesis by (auto simp: kv_del_meta_def bump_version)
next
  case (Some io)
  then obtain idx obj where io: "kv_find db k = Some (idx, obj)" by (cases io) auto
  note f = kv_find_Some [OF inv io]
  from drop_slot_ok [OF inv f(2,3)] obtain db' where d: "drop_slot idx obj db = Inr db'" "kv_inv db'"
    "kv_map db' = (kv_map db)(k := None)" "t_version db' = t_version db" by blast
  show ?thesis
  proof (cases "meta_gt (obj_meta obj) meta")
    case True
    with io f(1) inv show ?thesis by (auto simp: kv_del_meta_def obj_meta_def)
  next
    case False
    with io d have "kv_del_meta db k meta = Inr (0, bump meta db')" by (simp add: kv_del_meta_def obj_meta_def)
    moreover have "t_version (bump meta db') = max (t_version db) (m_version meta)" using d(4) by (simp add: bump_version)
    moreover have "kv_map (bump meta db') = (kv_map db)(k := None)" using d(3) by simp
    ultimately show ?thesis using False f(1) d(2) by (intro exI [of _ "bump meta db'"]) (auto simp del: fun_upd_apply)
  qed
qed

lemma kv_next_version_ok [simp]:
  "kv_inv (snd (kv_next_version db)) = kv_inv db" "kv_map (snd (kv_next_version db)) = kv_map db"
  "fst (kv_next_version db) = t_version db + 1" "t_version (snd (kv_next_version db)) = t_version db + 1"
  by (simp_all add: kv_next_version_def Let_def)

lemma grown_version: "grown mem (db\<lparr>t_version := v\<rparr>) = (grown mem db)\<lparr>t_version := v\<rparr>"
  by (auto simp: grown_def overfull_def resize_def Let_def split: prod.splits)

lemma can_grow_version [simp]: "can_grow mem (db\<lparr>t_version := v\<rparr>) = can_grow mem db"
  by (simp add: can_grow_def overfull_def)

lemma kv_set_ok:
  assumes inv: "kv_inv db"
  shows "\<exists>db'. kv_set mem now db k s = Inr (if can_grow mem db then 0 else -1, db') \<and> kv_inv db' \<and>
    kv_map db' = (if can_grow mem db
      then (kv_map db |` (- victims (grown mem db) k))(k \<mapsto>
             \<lparr>o_val = OBJ_STRING s, o_ttl = -1, o_version = t_version db + 1, o_wallclock = now, o_origin = ''''\<rparr>)
      else kv_map db)"
proof -
  let ?m = "\<lparr>m_version = t_version db + 1, m_wallclock = now, m_origin = ''''\<rparr>"
  let ?db = "db\<lparr>t_version := t_version db + 1\<rparr>"
  have e1: "kv_set mem now db k s = kv_set_object mem ?db k (stamp ?m (obj_create_string now s)) (Some ?m)"
    by (simp add: kv_set_def kv_set_meta_def kv_next_version_def Let_def)
  have e2: "stamped (Some ?m) (stamp ?m (obj_create_string now s)) =
      \<lparr>o_val = OBJ_STRING s, o_ttl = -1, o_version = t_version db + 1, o_wallclock = now, o_origin = ''''\<rparr>"
    by (simp add: stamped_def stamp_def obj_create_string_def)
  have e3: "victims (grown mem ?db) k = victims (grown mem db) k" by (simp add: grown_version victims_def)
  have "kv_inv ?db" "obj_inv (stamp ?m (obj_create_string now s))" using inv by simp_all
  from kv_set_object_ok [OF this, of mem k "Some ?m"] show ?thesis
    unfolding e1 e2 e3 can_grow_version kv_map_version .
qed

subsection \<open>Listing and expiry\<close>

lemma keys_loop_take: "keys_loop n es = take n (map fst (occs es))"
  by (induction n es rule: keys_loop.induct) auto

lemma kv_keys_ok:
  assumes "kv_inv db"
  shows "\<exists>ks. kv_keys db = (0, ks) \<and> distinct ks \<and> set ks = dom (kv_map db)"
proof -
  have "keys_loop (t_count db) (t_entries db) = map fst (occs (t_entries db))"
    using assms by (simp add: keys_loop_take kv_inv_def)
  moreover have "dom (kv_map db) = fst ` set (occs (t_entries db))"
    by (simp add: kv_map_def tbl_map_def dom_map_of_conv_image_fst)
  ultimately show ?thesis
    using tbl_wf_distinct [OF kv_invD(1) [OF assms]] by (simp add: kv_keys_def)
qed

lemma kv_set_ttl_ok:
  assumes "kv_inv db"
  shows "\<exists>db'. kv_set_ttl db k ttl = (if k \<in> dom (kv_map db) then 0 else -1, db') \<and> kv_inv db' \<and>
    kv_map db' = (case kv_map db k of None \<Rightarrow> kv_map db | Some obj \<Rightarrow> (kv_map db)(k \<mapsto> obj\<lparr>o_ttl := ttl\<rparr>))"
proof (cases "kv_map db k")
  case None
  then show ?thesis using kv_find_None [OF assms, of k] assms by (auto simp: kv_set_ttl_def)
next
  case (Some obj)
  with kv_find_map [OF assms] obtain idx where f: "kv_find db k = Some (idx, obj)" by blast
  have "obj_inv (obj\<lparr>o_ttl := ttl\<rparr>)" using kv_find_Some(4) [OF assms f] by simp
  from put_obj_ok [OF assms f this] Some f show ?thesis
    by (auto simp: kv_set_ttl_def simp del: fun_upd_apply)
qed

lemma kv_ttl_ms_ok:
  "kv_inv db \<Longrightarrow> kv_ttl_ms db k = (case kv_map db k of None \<Rightarrow> -2 | Some obj \<Rightarrow> if o_ttl obj < 0 then -1 else o_ttl obj)"
  using kv_find_None [of db k] kv_find_map [of db k] by (cases "kv_map db k") (auto simp: kv_ttl_ms_def)

definition expired_at :: "int \<Rightarrow> db_object \<Rightarrow> bool" where
  "expired_at now obj \<longleftrightarrow> 0 \<le> o_ttl obj \<and> o_ttl obj \<le> now"

text \<open>\<open>reaps now ks db db'\<close>: exactly the keys \<open>ks\<close>, all of them expired, have been removed.\<close>

definition reaps :: "int \<Rightarrow> string set \<Rightarrow> kv_table \<Rightarrow> kv_table \<Rightarrow> bool" where
  "reaps now ks db db' \<longleftrightarrow> finite ks \<and> kv_inv db' \<and> ks \<subseteq> dom (kv_map db) \<and>
     (\<forall>k \<in> ks. expired_at now (the (kv_map db k))) \<and> kv_map db' = kv_map db |` (- ks)"

lemma reaps_refl: "kv_inv db \<Longrightarrow> reaps now {} db db"
  by (simp add: reaps_def restrict_map_def)

lemma reaps_trans:
  assumes "reaps now ks db d" "reaps now ls d db'"
  shows "reaps now (ks \<union> ls) db db'" and "card (ks \<union> ls) = card ks + card ls"
proof -
  have ls: "ls \<subseteq> dom (kv_map db) - ks" using assms by (auto simp: reaps_def)
  have "expired_at now (the (kv_map db k))" if "k \<in> ls" for k
  proof -
    have "k \<notin> ks" using ls that by auto
    then have "kv_map d k = kv_map db k" using assms(1) by (simp add: reaps_def)
    moreover have "expired_at now (the (kv_map d k))" using assms(2) that by (simp add: reaps_def)
    ultimately show ?thesis by simp
  qed
  with assms ls show "reaps now (ks \<union> ls) db db'" by (auto simp: reaps_def restrict_map_def)
  show "card (ks \<union> ls) = card ks + card ls"
    using assms ls by (intro card_Un_disjoint) (auto simp: reaps_def)
qed

lemma expire_sample_ok:
  assumes inv: "kv_inv db" and idx: "idx < length (t_entries db)"
  shows "\<exists>ks d. expire_sample now idx db e = Inr (e + card ks, d) \<and> reaps now ks db d"
proof (cases "\<exists>k obj. t_entries db ! idx = E_OCCUPIED k obj \<and> expired_at now obj")
  case True
  then obtain k obj where k: "t_entries db ! idx = E_OCCUPIED k obj" "expired_at now obj" by blast
  from drop_slot_ok [OF inv idx k(1)] obtain d where
    d: "drop_slot idx obj db = Inr d" "kv_inv d" "kv_map d = (kv_map db)(k := None)" by blast
  have "kv_map db k = Some obj"
    using idx k(1) tbl_map_iff [OF kv_invD(1) [OF inv]] by (auto simp: kv_map_def)
  with d(2,3) k(2) have "reaps now {k} db d" by (auto simp: reaps_def restrict_map_def)
  with d(1) k show ?thesis
    by (intro exI [of _ "{k}"] exI [of _ d]) (simp add: expire_sample_def expired_at_def)
next
  case False
  then have "expire_sample now idx db e = Inr (e, db)"
    by (auto simp: expire_sample_def expired_at_def split: kv_entry.splits)
  with reaps_refl [OF inv] show ?thesis by (metis add.right_neutral card.empty)
qed

lemma expire_loop_ok:
  "kv_inv db \<Longrightarrow> \<exists>ks d. expire_loop rs now mx s n db e = Inr (e + card ks, d) \<and> reaps now ks db d"
proof (induction n arbitrary: s db e)
  case 0
  then show ?case using reaps_refl by (metis add.right_neutral card.empty expire_loop.simps(1))
next
  case (Suc n)
  let ?idx = "rs s mod t_capacity db"
  have "0 < length (t_entries db)" using kv_invD(1) [OF Suc.prems] by (intro cap_ok_pos tbl_wf_cap)
  then have "?idx < length (t_entries db)" using kv_invD(2) [OF Suc.prems] by simp
  from expire_sample_ok [OF Suc.prems this] obtain ks d where
    d: "expire_sample now ?idx db e = Inr (e + card ks, d)" "reaps now ks db d" by blast
  show ?case
  proof (cases "mx div 4 \<le> e + card ks")
    case True
    with d show ?thesis by auto
  next
    case False
    from Suc.IH [of d "Suc s" "e + card ks"] d(2) obtain ls db' where
      l: "expire_loop rs now mx (Suc s) n d (e + card ks) = Inr (e + card ks + card ls, db')" "reaps now ls d db'"
      by (auto simp: reaps_def)
    from reaps_trans [OF d(2) l(2)] d(1) l(1) False show ?thesis
      by (intro exI [of _ "ks \<union> ls"] exI [of _ db']) (simp add: add.assoc)
  qed
qed

subsection \<open>A key lost without any deletion\<close>

fun set_all :: "kv_table \<Rightarrow> string list \<Rightarrow> kv_table res" where
  "set_all db [] = Inr db"
| "set_all db (k # ks) = bindr (kv_set (\<lambda>_. True) 0 db k ''v'') (\<lambda>(_, db). set_all db ks)"

text \<open>Storing a key whose first slot is empty.\<close>

lemma kv_set_home:
  assumes inv: "kv_inv db" and room: "\<not> overfull db"
    and home: "t_entries db ! hash_slot k (length (t_entries db)) = E_EMPTY"
  shows "\<exists>db' obj. kv_set mem now db k s = Inr (0, db') \<and> kv_inv db' \<and> t_capacity db' = t_capacity db \<and>
     t_count db' = Suc (t_count db) \<and>
     t_entries db' = (t_entries db)[hash_slot k (length (t_entries db)) := E_OCCUPIED k obj]"
proof -
  let ?m = "\<lparr>m_version = t_version db + 1, m_wallclock = now, m_origin = ''''\<rparr>"
  let ?obj = "stamp ?m (stamp ?m (obj_create_string now s))"
  let ?i = "hash_slot k (length (t_entries db))"
  have "probe (t_entries db) k = (?i, False)" using home by (simp add: probe_def probe_loop.simps)
  with room have e: "kv_set mem now db k s = Inr (0, bump ?m (db\<lparr>t_version := t_version db + 1,
      t_entries := (t_entries db)[?i := E_OCCUPIED k ?obj], t_count := Suc (t_count db)\<rparr>))"
    by (simp add: kv_set_def kv_set_meta_def kv_next_version_def kv_set_object_def Let_def overfull_def)
  obtain r db' where r: "kv_set mem now db k s = Inr (r, db')" "kv_inv db'" using kv_set_ok [OF inv] by blast
  with e have "db' = bump ?m (db\<lparr>t_version := t_version db + 1,
      t_entries := (t_entries db)[?i := E_OCCUPIED k ?obj], t_count := Suc (t_count db)\<rparr>)" by simp
  with r e show ?thesis by (intro exI [of _ db'] exI [of _ ?obj]) simp
qed

definition home32 :: "string \<Rightarrow> nat" where
  "home32 k = hash_slot k 32"

lemma fill_homes:
  assumes "kv_inv db" "t_capacity db = 32" "t_count db + length ks \<le> 24" "distinct (map home32 ks)"
    "\<forall>k \<in> set ks. t_entries db ! home32 k = E_EMPTY"
  shows "\<exists>db'. set_all db ks = Inr db' \<and> kv_inv db' \<and> t_capacity db' = 32 \<and> t_count db' = t_count db + length ks \<and>
     (\<forall>k \<in> set ks. \<exists>v. t_entries db' ! home32 k = E_OCCUPIED k v) \<and>
     (\<forall>i. i \<notin> home32 ` set ks \<longrightarrow> t_entries db' ! i = t_entries db ! i)"
  using assms
proof (induction ks arbitrary: db)
  case (Cons k ks)
  have len: "length (t_entries db) = 32" using kv_invD(2) [OF Cons.prems(1)] Cons.prems(2) by simp
  have "\<not> overfull db" using Cons.prems(2,3) by (simp add: overfull_def)
  with kv_set_home [OF Cons.prems(1), of k "\<lambda>_. True" 0 "''v''"] Cons.prems(5) len obtain d obj where
    d: "kv_set (\<lambda>_. True) 0 db k ''v'' = Inr (0, d)" "kv_inv d" "t_capacity d = 32" "t_count d = Suc (t_count db)"
      "t_entries d = (t_entries db)[home32 k := E_OCCUPIED k obj]"
    using Cons.prems(2) by (auto simp: home32_def)
  have lt: "home32 k < 32" by (simp add: home32_def)
  have ne: "home32 k' \<noteq> home32 k" if "k' \<in> set ks" for k'
    using Cons.prems(4) that by (auto simp: image_iff)
  have "\<forall>k \<in> set ks. t_entries d ! home32 k = E_EMPTY"
  proof
    fix k' assume k': "k' \<in> set ks"
    from ne [OF this] Cons.prems(5) k' show "t_entries d ! home32 k' = E_EMPTY" unfolding d(5) by simp
  qed
  from Cons.IH [OF d(2,3) _ _ this] d(4) Cons.prems obtain db' where
    r: "set_all d ks = Inr db'" "kv_inv db'" "t_capacity db' = 32" "t_count db' = t_count d + length ks"
      "\<forall>k \<in> set ks. \<exists>v. t_entries db' ! home32 k = E_OCCUPIED k v"
      "\<forall>i. i \<notin> home32 ` set ks \<longrightarrow> t_entries db' ! i = t_entries d ! i" by auto
  have "t_entries db' ! home32 k = E_OCCUPIED k obj"
    using r(6) d(5) lt len Cons.prems(4) by auto
  with r d show ?case by (intro exI [of _ db']) auto
qed auto

definition lossy_keys :: "string list" where
  "lossy_keys =
     [''e'', ''aw'', ''b'', ''av'', ''o'', ''h'', ''au'', ''a'', ''j'', ''ar'', ''k'', ''d'',
      ''m'', ''f'', ''g'', ''w'', ''p'', ''i'', ''r'', ''c'', ''s'', ''l'', ''u'']"

lemma lossy_homes:
  "map home32 lossy_keys = [0, 1, 5, 14, 30, 23, 27, 12, 29, 26, 10, 19, 24, 25, 6, 22, 15, 4, 21, 18, 2, 11, 16]"
  by (simp add: lossy_keys_def home32_def hash_slot_def fnv1a_def byte_of_def)

lemma al_home: "hash_slot ''al'' 32 = 0"
  by (simp add: hash_slot_def fnv1a_def byte_of_def)

text \<open>The slots that the probe of \<open>al\<close> visits are exactly the first slots of these keys.\<close>

lemma probe_pos_numeral:
  "probe_pos cap h (numeral v) = probe_next cap (probe_pos cap h (pred_numeral v)) (numeral v)"
  by (simp add: numeral_eq_Suc)

lemma al_slots: "map (probe_pos 32 0) [0..<32] =
  [0, 1, 5, 14, 30, 23, 27, 12, 12, 29, 1, 26, 10, 19, 23, 24, 24, 25, 29, 6, 22, 15, 19, 4, 4, 21, 25, 18, 2, 11, 15, 16]"
  by (simp add: probe_next_def probe_pos_numeral upt_rec [of 0] upt_rec [of "Suc 0"] flip: numeral_2_eq_2)

lemma lossy_run:
  "\<exists>db. set_all (kv_init None) (lossy_keys @ [''al'']) = Inr db \<and> kv_inv db \<and> kv_map db ''u'' = None"
proof -
  have set_all_append: "set_all db (xs @ ys) = bindr (set_all db xs) (\<lambda>db. set_all db ys)" for db xs ys
    by (induction xs arbitrary: db) (auto simp: bindr_def split: sum.splits)
  have init: "kv_inv (kv_init None)" by (rule kv_init_inv)
  have homes: "home32 ` set lossy_keys = set (map home32 lossy_keys)" by simp
  have "\<forall>k \<in> set lossy_keys. t_entries (kv_init None) ! home32 k = E_EMPTY"
    by (simp add: kv_init_def INITIAL_CAPACITY_def home32_def)
  moreover have "length lossy_keys = 23" by (simp add: lossy_keys_def)
  moreover have "distinct (map home32 lossy_keys)" unfolding lossy_homes by simp
  ultimately obtain d where d: "set_all (kv_init None) lossy_keys = Inr d" "kv_inv d" "t_capacity d = 32" "t_count d = 23"
      "\<forall>k \<in> set lossy_keys. \<exists>v. t_entries d ! home32 k = E_OCCUPIED k v"
    using fill_homes [OF init, of lossy_keys] by (auto simp: kv_init_def INITIAL_CAPACITY_def)
  have len: "length (t_entries d) = 32" using kv_invD(2) [OF d(2)] d(3) by simp
  have al: "''al'' \<notin> set lossy_keys" by (simp add: lossy_keys_def)
  have occ: "\<exists>k v. k \<noteq> ''al'' \<and> t_entries d ! slots (t_entries d) ''al'' n = E_OCCUPIED k v" if "n < 32" for n
  proof -
    have "slots (t_entries d) ''al'' n \<in> set (map (probe_pos 32 0) [0..<32])"
      using that by (simp add: slots_def len al_home)
    also have "\<dots> \<subseteq> set (map home32 lossy_keys)" unfolding al_slots lossy_homes by simp
    finally obtain k where "k \<in> set lossy_keys" "slots (t_entries d) ''al'' n = home32 k" by auto
    with d(5) al show ?thesis by metis
  qed
  have "\<not> stops (t_entries d) ''al'' (slots (t_entries d) ''al'' n)" if "n < 32" for n
    using occ [OF that] by (auto simp: stops_def)
  with probe_full [OF tbl_wf_cap [OF kv_invD(1) [OF d(2)]], of "''al''"] len
  have "fst (probe (t_entries d) ''al'') = slots (t_entries d) ''al'' 31" by simp
  also have "\<dots> = map (probe_pos 32 0) [0..<32] ! 31" by (simp add: slots_def len al_home)
  also have "\<dots> = home32 ''u''"
    unfolding al_slots by (simp add: home32_def hash_slot_def fnv1a_def byte_of_def)
  finally have "t_entries d ! fst (probe (t_entries d) ''al'') = t_entries d ! home32 ''u''" by simp
  moreover have "''u'' \<in> set lossy_keys" by (simp add: lossy_keys_def)
  with d(5) have "\<exists>v. t_entries d ! home32 ''u'' = E_OCCUPIED ''u'' v" by blast
  ultimately have vic: "''u'' \<in> victims d ''al''" by (auto simp: victims_def)
  have room: "\<not> overfull d" using d(3,4) by (simp add: overfull_def)
  then have "can_grow (\<lambda>_. True) d" "grown (\<lambda>_. True) d = d" by (simp_all add: can_grow_def grown_def)
  with kv_set_ok [OF d(2), of "\<lambda>_. True" 0 "''al''" "''v''"] vic obtain db where
    "kv_set (\<lambda>_. True) 0 d ''al'' ''v'' = Inr (0, db)" "kv_inv db" "kv_map db ''u'' = None"
    by (auto simp: restrict_map_def)
  with d(1) show ?thesis by (simp add: set_all_append)
qed

lemma victims_one: "\<exists>x. victims db k \<subseteq> {x}"
  unfolding victims_def by (cases "t_entries db ! fst (probe (t_entries db) k)") auto

lemma kv_init_can_grow: "can_grow (\<lambda>_. True) (kv_init path)" "\<not> overfull (kv_init path)"
  by (simp_all add: can_grow_def overfull_def kv_init_def INITIAL_CAPACITY_def)

lemma kv_init_used: "2 * used (t_entries (kv_init path)) < t_capacity (kv_init path)"
  by (simp add: kv_init_def INITIAL_CAPACITY_def)

text \<open>A store that does not double the array takes at most one more slot.\<close>

lemma kv_set_object_size:
  assumes "\<not> overfull db" "kv_set_object mem db k obj meta = Inr (r, db')"
  shows "t_capacity db' = t_capacity db" "t_count db' \<le> Suc (t_count db)" "used (t_entries db') \<le> Suc (used (t_entries db))"
proof -
  have "t_capacity db' = t_capacity db \<and> t_count db' \<le> Suc (t_count db) \<and> used (t_entries db') \<le> Suc (used (t_entries db))"
    using assms used_update [of "t_entries db"]
    by (auto simp: kv_set_object_def put_obj_def Let_def split: prod.splits option.splits if_splits)
  then show "t_capacity db' = t_capacity db" "t_count db' \<le> Suc (t_count db)" "used (t_entries db') \<le> Suc (used (t_entries db))"
    by blast+
qed

end
