(* ===== verification/Store_Properties.thy ===== *)
theory Store_Properties
  imports Key_Space
begin

text \<open>
  The properties of the data structures and of the key space, each resting on the lemmas of
  its component, with a concrete instance of every conditional one.
\<close>

subsection \<open>Lists\<close>

text \<open>Each operation on an end of a well-formed list returns without a memory error, keeps
  the list well formed and acts on its sequence of values as on a double-ended queue.\<close>

theorem dlist_ends_refine:
  assumes "dlist_inv l"
  shows "(\<exists>l'. dlist_push_left l v = Inr l' \<and> dlist_inv l' \<and> dlist_list l' = v # dlist_list l) \<and>
    (\<exists>l'. dlist_push_right l v = Inr l' \<and> dlist_inv l' \<and> dlist_list l' = dlist_list l @ [v]) \<and>
    (\<exists>l'. dlist_pop_left l = Inr (if dlist_list l = [] then None else Some (hd (dlist_list l)), l') \<and>
       dlist_inv l' \<and> dlist_list l' = tl (dlist_list l)) \<and>
    (\<exists>l'. dlist_pop_right l = Inr (if dlist_list l = [] then None else Some (last (dlist_list l)), l') \<and>
       dlist_inv l' \<and> dlist_list l' = butlast (dlist_list l))"
  using dl.push_left_law [OF assms] dl.push_right_law [OF assms] dl.pop_left_law [OF assms] dl.pop_right_law [OF assms]
  by blast

theorem dlist_ends_refine_witness:
  "\<exists>l'. dlist_push_left dlist_new ''a'' = Inr l' \<and> dlist_list l' = [''a'']"
  using dlist_ends_refine [of dlist_new "''a''"] dlist_new_ok by auto

text \<open>Reading and writing by index: an index counts from the head, a negative one from the
  tail; out of range, a read gives nothing and a write returns -1 and changes nothing.\<close>

theorem dlist_index_ok:
  assumes "dlist_inv l"
  shows "dlist_get l idx = Inr (let n = int (length (dlist_list l)); i = (if idx < 0 then idx + n else idx) in
       if 0 \<le> i \<and> i < n then Some (dlist_list l ! nat i) else None) \<and>
    (\<exists>r l'. dlist_set l idx v = Inr (r, l') \<and> dlist_inv l' \<and>
       (let n = int (length (dlist_list l)); i = (if idx < 0 then idx + n else idx) in
        if 0 \<le> i \<and> i < n then r = 0 \<and> dlist_list l' = (dlist_list l)[nat i := v]
        else r = -1 \<and> dlist_list l' = dlist_list l))"
  using dlist_get_ok [OF assms, of idx] dlist_set_ok [OF assms, of idx v] dlist_len_ok [OF assms]
  by (auto simp: dl_index_def Let_def split: if_splits)

theorem dlist_index_ok_witness:
  "dlist_get dlist_new (-1) = Inr None"
  using dlist_index_ok [of dlist_new "-1"] dlist_new_ok by simp

text \<open>\<open>LREM\<close> on a well-formed list: with a positive count the first so many occurrences go,
  otherwise all of them; the result is the number removed and the list stays well formed.\<close>

theorem dlist_rem_removes:
  assumes "dlist_inv l"
  shows "\<exists>r l'. dlist_rem l cnt val = Inr (r, l') \<and> dlist_inv l' \<and>
    r = (if cnt > 0 then min cnt (int (count_list (dlist_list l) val)) else int (count_list (dlist_list l) val)) \<and>
    (cnt \<le> 0 \<longrightarrow> dlist_list l' = filter (\<lambda>x. x \<noteq> val) (dlist_list l)) \<and>
    (cnt > 0 \<longrightarrow> (\<exists>xs ys. dlist_list l = xs @ ys \<and> dlist_list l' = filter (\<lambda>x. x \<noteq> val) xs @ ys \<and>
        int (count_list xs val) = r))"
proof -
  from dlist_rem_ok [OF assms, of cnt val] obtain l' where
    l': "dlist_rem l cnt val = Inr (rem_count cnt val (dlist_list l), l')" "dlist_inv l'"
      "dlist_list l' = rem_list cnt val (dlist_list l)" by blast
  with rem_list_split [of cnt "dlist_list l" val] rem_list_nonpos [of cnt val "dlist_list l"] show ?thesis
    by (intro exI [of _ "rem_count cnt val (dlist_list l)"] exI [of _ l']) (auto simp: rem_count_def)
qed

theorem dlist_rem_removes_witness:
  "\<exists>l'. dlist_rem dlist_new (-2) ''a'' = Inr (0, l')"
  using dlist_rem_removes [of dlist_new "-2" "''a''"] dlist_new_ok by auto

subsection \<open>Hash tables\<close>

text \<open>C22. The chained hash table is a finite map through every rehashing: insertion, with and
  without replacing, removal and lookup do on the map what they say, and the entry count is
  its size.\<close>

theorem ht_refines_map:
  assumes "ht_inv ht"
  shows "(\<exists>ht'. ht_add ht k v r = Inr (if k \<in> dom (ht_map ht) then 0 else 1, ht') \<and> ht_inv ht' \<and>
       ht_map ht' = (if k \<in> dom (ht_map ht) \<and> \<not> r then ht_map ht else (ht_map ht)(k \<mapsto> v))) \<and>
    (\<exists>ht'. ht_remove ht k = (if k \<in> dom (ht_map ht) then 1 else 0, ht') \<and> ht_inv ht' \<and>
       ht_map ht' = (ht_map ht)(k := None)) \<and>
    ht_exists ht k = (if k \<in> dom (ht_map ht) then 1 else 0) \<and>
    ht_get ht k = Option.bind (ht_map ht k) id \<and>
    ht_count ht = card (dom (ht_map ht))"
  using ht.add_law [OF assms] ht.remove_law [OF assms] ht_exists_ok ht_get_ok ht_count_card [OF assms] by blast

theorem ht_refines_map_witness:
  "\<exists>ht'. ht_add ht_create ''f'' (Some ''v'') True = Inr (1, ht') \<and> ht_map ht' = [''f'' \<mapsto> Some ''v'']"
  using ht_refines_map [of ht_create "''f''" "Some ''v''" True] ht_create_ok by auto

text \<open>Listing a hash table gives every key once, and the values in the same order.\<close>

theorem ht_listing:
  assumes "ht_inv ht"
  shows "distinct (ht_keys ht) \<and> set (ht_keys ht) = dom (ht_map ht) \<and>
    ht_items ht = map (\<lambda>k. case ht_get ht k of None \<Rightarrow> '''' | Some v \<Rightarrow> v) (ht_keys ht)"
  using ht_keys_ok [OF assms] ht_items_ok [OF assms] by simp

theorem ht_listing_witness: "set (ht_keys ht_create) = {}"
  using ht_listing [of ht_create] ht_create_ok by simp

subsection \<open>Sorted sets\<close>

text \<open>C17. Inserting any entries without NaN scores into an empty skip list, whatever the random
  levels, gives a well-formed skip list that holds exactly these entries in order.\<close>

theorem zsl_insert_all_sorted:
  assumes "\<forall>(rs, e) \<in> set es. znum e"
  shows "\<exists>z. zsl_insert_all zsl_create es = Inr z \<and> zsl_inv z \<and> zsorted (zsl_list z) \<and>
    mset (zsl_list z) = mset (map snd es)"
  using zsl.ins_all_ok [of zsl_create es] zsl_create_ok assms
  by (simp add: zsl_insert_all_eq zsorted_def)

theorem zsl_insert_all_sorted_witness:
  "\<exists>z. zsl_insert_all zsl_create [(z_level1, (0, ''b'')), (z_level2, (0, ''a''))] = Inr z \<and> zsorted (zsl_list z)"
  using zsl_insert_all_sorted [of "[(z_level1, (0, ''b'')), (z_level2, (0, ''a''))]"]
  by (auto simp: dbl_nan_def dbl_mag_def)

text \<open>An insertion into a sorted skip list puts the entry before the first entry that is not
  below it.\<close>

theorem zsl_insert_position:
  assumes "zsl_inv z" "zsorted (zsl_list z)" "\<not> dbl_nan score"
  shows "\<exists>n z'. zsl_insert rs z score member = Inr (n, z') \<and> zsl_inv z' \<and>
    zsl_list z' = takeWhile (\<lambda>e. zless e (score, member)) (zsl_list z) @ (score, member) #
                  dropWhile (\<lambda>e. zless e (score, member)) (zsl_list z)"
  using zsl_insert_ok [OF assms, of rs member] unfolding zins_def by blast

theorem zsl_insert_position_witness:
  "\<exists>n z'. zsl_insert z_level1 zsl_create 0 ''a'' = Inr (n, z') \<and> zsl_list z' = [(0, ''a'')]"
  using zsl_insert_position [of zsl_create 0 z_level1 "''a''"] zsl_create_ok
  by (auto simp: zsorted_def dbl_nan_def dbl_mag_def)

text \<open>C16. A deletion on a well-formed skip list is memory safe and keeps it well formed: it
  either returns 0 and changes nothing, or returns 1 and takes out one entry of the member.\<close>

theorem zsl_delete_safe:
  assumes "zsl_inv z"
  shows "\<exists>r z'. zsl_delete z member = Inr (r, z') \<and> zsl_inv z' \<and>
    (r = 0 \<and> z' = z \<or> r = 1 \<and> (\<exists>xs s ys. zsl_list z = xs @ (s, member) # ys \<and> zsl_list z' = xs @ ys))"
  using zsl_delete_ok [OF assms] .

theorem zsl_delete_safe_witness:
  "\<exists>r z'. zsl_delete zsl_create ''a'' = Inr (r, z') \<and> zsl_inv z'"
  using zsl_delete_safe [of zsl_create "''a''"] zsl_create_ok by blast

text \<open>C24. Where the members are distinct, a deletion finds the member exactly when no later node
  is taller than the member's node.\<close>

theorem zsl_delete_finds:
  assumes "zsl_inv z" "distinct (map snd (zsl_list z))" "k < length (zsl_list z)"
  shows "(\<exists>z'. zsl_delete z (snd (zsl_list z ! k)) = Inr (1, z')) \<longleftrightarrow>
    (\<forall>j. k < j \<and> j < length (zsl_list z) \<longrightarrow> zsl_heights z ! j \<le> zsl_heights z ! k)"
  using zsl_delete_iff [OF assms refl] .

theorem zsl_delete_finds_witness:
  "\<exists>n z z'. zsl_insert z_level1 zsl_create 0 ''a'' = Inr (n, z) \<and> zsl_delete z ''a'' = Inr (1, z')"
proof -
  obtain z where z: "zsl_insert z_level1 zsl_create 0 ''a'' = Inr (z_brk zsl_create, z)" "zsl_inv z" "zsl_list z = [(0, ''a'')]"
    using zsl_insert_ok [of zsl_create 0 z_level1 "''a''"] zsl_create_ok
    by (auto simp: zsorted_def dbl_nan_def dbl_mag_def zins_def)
  with zsl_delete_finds [of z 0] show ?thesis by auto
qed

text \<open>A sorted set built by two insertions in which deleting a present member returns 0 and
  removes nothing.\<close>

theorem zsl_delete_misses:
  "bindr (zsl_insert z_level1 zsl_create 0 ''a'') (\<lambda>(_, z).
   bindr (zsl_insert z_level2 z 0 ''b'') (\<lambda>(_, z).
   bindr (zsl_delete z ''a'') (\<lambda>(r, z). Inr (r, zsl_list z)))) = Inr (0, [(0, ''a''), (0, ''b'')])"
  using z_ab_val by (simp only: z_ab_def)

text \<open>On a well-formed skip list the rank counts the leading entries below the given one and
  the reverse rank the trailing entries above it.\<close>

theorem zsl_ranks:
  assumes "zsl_inv z"
  shows "zsl_rank z score member = Inr (int (length (takeWhile (\<lambda>e. zless e (score, member)) (zsl_list z)))) \<and>
    zsl_revrank z score member = Inr (int (length (takeWhile (\<lambda>e. zless (score, member) e) (rev (zsl_list z)))))"
  using zsl_rank_ok [OF assms] zsl_revrank_ok [OF assms] by simp

theorem zsl_ranks_witness: "zsl_rank zsl_create 0 ''a'' = Inr 0"
  using zsl_ranks [of zsl_create] zsl_create_ok by simp

subsection \<open>The key space\<close>

text \<open>C5. Storing an object under a key, in any state the invariant allows: the call returns 0
  (or -1, changing nothing, when the array cannot be doubled), the key is bound to the stamped
  object, and every other binding is kept but at most one, the key of the last slot the probe
  visited.\<close>

theorem kv_set_object_stores:
  assumes "kv_inv db" "obj_inv obj"
  shows "\<exists>db'. kv_set_object mem db k obj meta = Inr (if can_grow mem db then 0 else -1, db') \<and> kv_inv db' \<and>
    (can_grow mem db \<longrightarrow> kv_map db' k = Some (case meta of None \<Rightarrow> obj | Some m \<Rightarrow> stamp m obj) \<and>
       (\<exists>v. \<forall>k'. k' \<noteq> k \<and> k' \<noteq> v \<longrightarrow> kv_map db' k' = kv_map db k')) \<and>
    (\<not> can_grow mem db \<longrightarrow> kv_map db' = kv_map db)"
proof -
  from kv_set_object_ok [OF assms, of mem k meta] obtain db' where
    d: "kv_set_object mem db k obj meta = Inr (if can_grow mem db then 0 else -1, db')" "kv_inv db'"
      "kv_map db' = (if can_grow mem db
        then (kv_map db |` (- victims (grown mem db) k))(k \<mapsto> stamped meta obj) else kv_map db)" by blast
  obtain v where "victims (grown mem db) k \<subseteq> {v}" using victims_one by blast
  then have "\<forall>k'. k' \<noteq> k \<and> k' \<noteq> v \<longrightarrow> ((kv_map db |` (- victims (grown mem db) k))(k \<mapsto> stamped meta obj)) k' = kv_map db k'"
    by (auto simp: restrict_map_def)
  with d show ?thesis by (intro exI [of _ db']) (auto simp: stamped_def)
qed

theorem kv_set_object_stores_witness:
  "\<exists>db'. kv_set_object (\<lambda>_. True) (kv_init None) ''k'' obj_create_list None = Inr (0, db') \<and>
     kv_map db' ''k'' = Some obj_create_list"
  using kv_set_object_stores [of "kv_init None" obj_create_list "\<lambda>_. True" "''k''" None] kv_init_inv kv_init_can_grow
  by (auto split: if_splits)

text \<open>C15. While fewer than half of the slots are in use, and by every store that doubles the
  array, a store is exactly the update of the map: no other key is lost.\<close>

theorem kv_set_object_exact:
  assumes "kv_inv db" "obj_inv obj" "can_grow mem db" "overfull db \<or> 2 * used (t_entries db) < t_capacity db"
  shows "\<exists>db'. kv_set_object mem db k obj meta = Inr (0, db') \<and> kv_inv db' \<and>
    kv_map db' = (kv_map db)(k \<mapsto> (case meta of None \<Rightarrow> obj | Some m \<Rightarrow> stamp m obj))"
proof -
  have "kv_map db |` (- victims (grown mem db) k) = kv_map db"
    using no_victims [OF assms(1,3,4)] by (simp add: restrict_map_def)
  with kv_set_object_ok [OF assms(1,2), of mem k meta] assms(3) show ?thesis by (simp add: stamped_def)
qed

theorem kv_set_object_exact_witness:
  "\<exists>db'. kv_set_object (\<lambda>_. True) (kv_init None) ''k'' obj_create_list None = Inr (0, db') \<and>
     kv_map db' = [''k'' \<mapsto> obj_create_list]"
  using kv_set_object_exact [of "kv_init None" obj_create_list "\<lambda>_. True" "''k''" None] kv_init_inv kv_init_can_grow
  by (auto simp: kv_init_map kv_init_used)

text \<open>C27. Twenty-four \<open>SET\<close>s of distinct keys into an empty database, with no deletion between
  them, after which one of the keys is gone.\<close>

theorem kv_set_loses_key:
  "\<exists>db. set_all (kv_init None) (lossy_keys @ [''al'']) = Inr db \<and> ''u'' \<in> set lossy_keys \<and>
     distinct (lossy_keys @ [''al'']) \<and> kv_get db ''u'' = None"
proof -
  obtain db where d: "set_all (kv_init None) (lossy_keys @ [''al'']) = Inr db" "kv_inv db" "kv_map db ''u'' = None"
    using lossy_run by blast
  have "kv_get db ''u'' = None" using kv_get_ok [OF d(2), of "''u''"] d(3) by simp
  moreover have "''u'' \<in> set lossy_keys" "distinct (lossy_keys @ [''al''])" by (simp_all add: lossy_keys_def)
  ultimately show ?thesis using d(1) by blast
qed

text \<open>C21. Doubling the array keeps every key with its object and leaves at most three eighths of
  the slots in use; when the new array cannot be allocated nothing changes.\<close>

theorem resize_keeps_map:
  assumes "kv_inv db"
  shows "if mem (2 * t_capacity db) \<and> 2 * t_capacity db * 24 < 2 ^ 64
    then \<exists>db'. resize mem db = (0, db') \<and> kv_inv db' \<and> kv_map db' = kv_map db \<and>
           t_capacity db' = 2 * t_capacity db \<and> 8 * used (t_entries db') \<le> 3 * t_capacity db'
    else resize mem db = (-1, db)"
proof (cases "mem (2 * t_capacity db) \<and> 2 * t_capacity db * 24 < 2 ^ 64")
  case True
  then obtain db' where "resize mem db = (0, db')" "kv_inv db'" "kv_map db' = kv_map db"
    "t_capacity db' = 2 * t_capacity db" "8 * used (t_entries db') \<le> 3 * t_capacity db'"
    using resize_ok [OF assms, of mem] by blast
  then show ?thesis unfolding if_P [OF True] by blast
next
  case False
  from resize_fail [of mem db, OF False] show ?thesis unfolding if_not_P [OF False] .
qed

theorem resize_keeps_map_witness:
  "\<exists>db'. resize (\<lambda>_. True) (kv_init None) = (0, db') \<and> t_capacity db' = 64"
  using resize_keeps_map [of "kv_init None" "\<lambda>_. True"] kv_init_inv
  by (auto simp: kv_init_def INITIAL_CAPACITY_def)

text \<open>A \<open>SET\<close> that returns 0 can be read back with the next version number and no expiry.\<close>

theorem kv_set_get:
  assumes "kv_inv db" "can_grow mem db"
  shows "\<exists>db'. kv_set mem now db k s = Inr (0, db') \<and> kv_inv db' \<and> kv_get db' k = Some s \<and> kv_exists db' k \<and>
    kv_ttl_ms db' k = -1 \<and> kv_get_meta db' k = Some (s, \<lparr>m_version = t_version db + 1, m_wallclock = now, m_origin = ''''\<rparr>)"
proof -
  from kv_set_ok [OF assms(1), of mem now k s] assms(2) obtain db' where
    d: "kv_set mem now db k s = Inr (0, db')" "kv_inv db'" "kv_map db' k =
      Some \<lparr>o_val = OBJ_STRING s, o_ttl = -1, o_version = t_version db + 1, o_wallclock = now, o_origin = ''''\<rparr>" by auto
  obtain idx where "kv_find db' k = Some (idx,
      \<lparr>o_val = OBJ_STRING s, o_ttl = -1, o_version = t_version db + 1, o_wallclock = now, o_origin = ''''\<rparr>)"
    using kv_find_map [OF d(2,3)] by blast
  with d show ?thesis
    by (auto simp: kv_get_ok kv_exists_ok kv_ttl_ms_ok kv_get_meta_def)
qed

theorem kv_set_get_witness:
  "\<exists>db'. kv_set (\<lambda>_. True) 7 (kv_init None) ''k'' ''v'' = Inr (0, db') \<and> kv_get db' ''k'' = Some ''v''"
  using kv_set_get [of "kv_init None" "\<lambda>_. True" 7 "''k''" "''v''"] kv_init_inv kv_init_can_grow by auto

text \<open>\<open>DEL\<close> removes exactly the key, returning 0, and returns -1 when it is not there.\<close>

theorem kv_del_removes:
  assumes "kv_inv db"
  shows "\<exists>db'. kv_del db k = Inr (if k \<in> dom (kv_map db) then 0 else -1, db') \<and> kv_inv db' \<and>
    kv_map db' = (kv_map db)(k := None)"
  using kv_del_ok [OF assms] .

theorem kv_del_removes_witness: "\<exists>db'. kv_del (kv_init None) ''k'' = Inr (-1, db')"
  using kv_del_removes [of "kv_init None" "''k''"] kv_init_inv by (auto simp: kv_init_map)

text \<open>C25. A replicated deletion is last-writer-wins: it removes the key unless the stored write
  is later in the order of metadata, and raises the database version.\<close>

theorem kv_del_meta_lww:
  assumes "kv_inv db" "kv_map db k = Some obj"
  shows "\<exists>db'. kv_del_meta db k meta = Inr (0, db') \<and> kv_inv db' \<and>
    (if meta_gt (obj_meta obj) meta then db' = db
     else kv_map db' = (kv_map db)(k := None) \<and> t_version db' = max (t_version db) (m_version meta))"
proof -
  obtain db' where "kv_del_meta db k meta = Inr (if k \<in> dom (kv_map db) then 0 else -1, db')" "kv_inv db'"
    "case kv_map db k of
        None \<Rightarrow> kv_map db' = kv_map db \<and> t_version db' = max (t_version db) (m_version meta)
      | Some obj \<Rightarrow> if meta_gt (obj_meta obj) meta then db' = db
                    else kv_map db' = (kv_map db)(k := None) \<and> t_version db' = max (t_version db) (m_version meta)"
    using kv_del_meta_ok [OF assms(1), of k meta] by blast
  with assms(2) show ?thesis by (intro exI [of _ db']) (simp add: domI del: fun_upd_apply)
qed

theorem kv_del_meta_lww_witness:
  "\<exists>db db'. kv_del_meta db ''k'' \<lparr>m_version = 9, m_wallclock = 0, m_origin = ''''\<rparr> = Inr (0, db') \<and> kv_map db' ''k'' = None"
proof -
  let ?m = "\<lparr>m_version = 9, m_wallclock = 0, m_origin = ''''\<rparr>"
  obtain db where d: "kv_inv db" "kv_map db = [''k'' \<mapsto> obj_create_list]"
    using kv_set_object_ok [OF kv_init_inv obj_create_inv(2), of "\<lambda>_. True" None "''k''" None] kv_init_can_grow
    by (auto simp: kv_init_map stamped_def)
  have "\<not> meta_gt (obj_meta obj_create_list) ?m" by (simp add: meta_gt_def obj_meta_def obj_create_list_def)
  with kv_del_meta_lww [OF d(1), of "''k''" obj_create_list ?m] d(2) obtain db' where
    "kv_del_meta db ''k'' ?m = Inr (0, db')" "kv_map db' = (kv_map db)(''k'' := None)" by auto
  then show ?thesis by (intro exI [of _ db] exI [of _ db']) simp
qed

text \<open>C26. The order of metadata is a strict linear order, so the later of two writes does not
  depend on the order in which they are seen.\<close>

theorem meta_gt_linear:
  "\<not> meta_gt a a \<and> (meta_gt a b \<and> meta_gt b c \<longrightarrow> meta_gt a c) \<and> (a \<noteq> b \<longrightarrow> meta_gt a b \<or> meta_gt b a) \<and>
   (if meta_gt b a then b else a) = (if meta_gt a b then a else b)"
proof -
  have "meta_gt a c" if "meta_gt a b" "meta_gt b c" by (rule meta_order.lt_trans) (use that in simp_all)
  moreover have "meta_gt a b \<or> meta_gt b a" if "a \<noteq> b" using meta_order.lt_total that by blast
  moreover have "(if meta_gt b a then b else a) = (if meta_gt a b then a else b)"
    using meta_order.pick_commute [of a b] by (simp add: meta_order.pick_def)
  ultimately show ?thesis using meta_order.lt_irrefl [of a] by blast
qed

theorem meta_gt_linear_witness:
  "meta_gt \<lparr>m_version = 2, m_wallclock = 0, m_origin = ''a''\<rparr> \<lparr>m_version = 1, m_wallclock = 5, m_origin = ''b''\<rparr>"
  using meta_gt_linear [of "\<lparr>m_version = 2, m_wallclock = 0, m_origin = ''a''\<rparr>"
    "\<lparr>m_version = 1, m_wallclock = 5, m_origin = ''b''\<rparr>"] by (auto simp: meta_gt_def)

text \<open>\<open>KEYS\<close> lists every key of the database exactly once.\<close>

theorem kv_keys_complete:
  assumes "kv_inv db"
  shows "\<exists>ks. kv_keys db = (0, ks) \<and> distinct ks \<and> set ks = dom (kv_map db)"
  using kv_keys_ok [OF assms] .

theorem kv_keys_complete_witness: "kv_keys (kv_init None) = (0, [])"
  using kv_keys_complete [of "kv_init None"] kv_init_inv by (auto simp: kv_init_map)

text \<open>A round of active expiry removes only keys whose expiry time has come, keeps all other
  bindings, and returns the number of keys removed.\<close>

theorem kv_active_expire_reaps:
  assumes "kv_inv db"
  shows "\<exists>ks db'. kv_active_expire rs db mx now = Inr (card ks, db') \<and> kv_inv db' \<and> finite ks \<and>
    ks \<subseteq> dom (kv_map db) \<and> (\<forall>k \<in> ks. 0 \<le> o_ttl (the (kv_map db k)) \<and> o_ttl (the (kv_map db k)) \<le> now) \<and>
    kv_map db' = kv_map db |` (- ks)"
  using expire_loop_ok [OF assms, of rs now mx 0 "min mx (t_capacity db)" 0]
  by (auto simp: kv_active_expire_def reaps_def expired_at_def)

theorem kv_active_expire_reaps_witness:
  "\<exists>n db'. kv_active_expire (\<lambda>_. 0) (kv_init None) 20 1000 = Inr (n, db') \<and> kv_inv db'"
  using kv_active_expire_reaps [of "kv_init None" "\<lambda>_. 0" 20 1000] kv_init_inv by blast

text \<open>Freeing the object of any well-formed entry walks its nodes without touching a freed
  or foreign one and releases them all.\<close>

theorem obj_free_safe:
  assumes "obj_inv obj"
  shows "obj_free obj = Inr () \<and>
    (\<forall>l. o_val obj = OBJ_LIST l \<longrightarrow> dlist_free l = Inr (\<lambda>_. None)) \<and>
    (\<forall>z. o_val obj = OBJ_ZSET z \<longrightarrow> zsl_free z = Inr (\<lambda>_. None))"
  using assms obj_free_ok free_rep zsl_free_ok by (auto simp: obj_inv_def dlist_inv_def)

theorem obj_free_safe_witness: "obj_free obj_create_zset = Inr ()"
  using obj_free_safe [of obj_create_zset] by simp

end
