(* ===== verification/Abstract_View.thy ===== *)
theory Abstract_View
  imports Key_Space
begin

text \<open>
  The abstract database the commands are specified on: a finite map from keys to typed
  values. \<open>kept mem db k\<close> is that map without the key that a store under \<open>k\<close> evicts, if any; it
  is the whole map whenever fewer than half of the slots are in use.
\<close>

datatype aval =
    AStr string
  | AList "string list"
  | ASet "string set"
  | AHash "string \<rightharpoonup> string option"
  | AZset "zentry list"

definition absval :: "obj_val \<Rightarrow> aval" where
  "absval v = (case v of
       OBJ_STRING s \<Rightarrow> AStr s
     | OBJ_LIST l \<Rightarrow> AList (dlist_list l)
     | OBJ_SET h \<Rightarrow> ASet (dom (ht_map h))
     | OBJ_HASH h \<Rightarrow> AHash (ht_map h)
     | OBJ_ZSET z \<Rightarrow> AZset (zsl_list z))"

definition kv_abs :: "kv_table \<Rightarrow> string \<rightharpoonup> aval" where
  "kv_abs db k = map_option (\<lambda>obj. absval (o_val obj)) (kv_map db k)"

definition kept :: "(nat \<Rightarrow> bool) \<Rightarrow> kv_table \<Rightarrow> string \<Rightarrow> string \<rightharpoonup> aval" where
  "kept mem db k = kv_abs db |` (- victims (grown mem db) k)"

lemma absval_simps [simp]:
  "absval (OBJ_STRING s) = AStr s" "absval (OBJ_LIST l) = AList (dlist_list l)"
  "absval (OBJ_SET h) = ASet (dom (ht_map h))" "absval (OBJ_HASH h) = AHash (ht_map h)"
  "absval (OBJ_ZSET z) = AZset (zsl_list z)"
  by (simp_all add: absval_def)

lemma kv_abs_cong: "kv_map db' = kv_map db \<Longrightarrow> kv_abs db' = kv_abs db"
  by (simp add: kv_abs_def fun_eq_iff)

lemma kv_abs_upd: "kv_map db' = (kv_map db)(k \<mapsto> obj) \<Longrightarrow> kv_abs db' = (kv_abs db)(k \<mapsto> absval (o_val obj))"
  by (auto simp: kv_abs_def fun_eq_iff)

lemma kv_abs_stored:
  "kv_map db' = (kv_map db |` (- victims (grown mem db) k))(k \<mapsto> obj) \<Longrightarrow>
     kv_abs db' = (kept mem db k)(k \<mapsto> absval (o_val obj))"
  by (auto simp: kv_abs_def kept_def fun_eq_iff restrict_map_def)

lemma kept_sub: "kept mem db k \<subseteq>\<^sub>m kv_abs db"
  by (auto simp: kept_def map_le_def restrict_map_def)

lemma kept_exact:
  "kv_inv db \<Longrightarrow> can_grow mem db \<Longrightarrow> overfull db \<or> 2 * used (t_entries db) < t_capacity db \<Longrightarrow> kept mem db k = kv_abs db"
  by (simp add: kept_def no_victims restrict_map_def)

text \<open>A key that is present is overwritten in place, so nothing is evicted.\<close>

lemma present_no_victims:
  assumes "kv_inv db" "can_grow mem db" "k \<in> dom (kv_map db)"
  shows "victims (grown mem db) k = {}"
proof -
  note g = grown_ok [OF assms(1,2)]
  obtain idx f where p: "probe (t_entries (grown mem db)) k = (idx, f)" by (cases "probe (t_entries (grown mem db)) k")
  note ok = probe_ok [OF kv_invD(1) [OF g(1)] p]
  have "f" using ok(2) assms(3) g(2) by (simp add: kv_map_def)
  with ok(3) p show ?thesis by (auto simp: victims_def)
qed

lemma kept_present:
  assumes "kv_inv db" "can_grow mem db" "k \<in> dom (kv_abs db)"
  shows "kept mem db k = kv_abs db"
proof -
  have "k \<in> dom (kv_map db)" using assms(3) by (auto simp: kv_abs_def)
  from present_no_victims [OF assms(1,2) this] show ?thesis by (simp add: kept_def restrict_map_def)
qed

lemma grown_snd_version: "kept mem (db\<lparr>t_version := v\<rparr>) k = kept mem db k"
proof -
  have "kv_abs (db\<lparr>t_version := v\<rparr>) = kv_abs db" by (rule kv_abs_cong) simp
  then show ?thesis by (simp add: kept_def grown_version victims_def)
qed

lemma kv_find_abs:
  assumes "kv_inv db"
  shows "kv_find db k = None \<Longrightarrow> kv_abs db k = None"
    and "kv_find db k = Some (idx, obj) \<Longrightarrow> kv_abs db k = Some (absval (o_val obj)) \<and> obj_inv obj"
  using kv_find_None [OF assms] kv_find_Some [OF assms] by (auto simp: kv_abs_def)

text \<open>Storing a new object, in terms of the abstract map.\<close>

lemma kv_set_object_abs:
  assumes "kv_inv db" "obj_inv obj" "can_grow mem db"
  shows "\<exists>db'. kv_set_object mem db k obj None = Inr (0, db') \<and> kv_inv db' \<and> kv_map db' k = Some obj \<and>
    kv_abs db' = (kept mem db k)(k \<mapsto> absval (o_val obj))"
  using kv_set_object_ok [OF assms(1,2), of mem k None] assms(3) kv_abs_stored
  by (fastforce simp: stamped_def)

lemma kv_set_object_nogrow:
  assumes "\<not> can_grow mem db"
  shows "kv_set_object mem db k obj meta = Inr (-1, db)"
  using assms by (simp add: can_grow_def kv_set_object_def resize_fail)

lemma put_obj_abs:
  assumes "kv_inv db" "kv_find db k = Some (idx, obj)" "obj_inv obj'"
  shows "kv_inv (put_obj idx obj' db) \<and> kv_abs (put_obj idx obj' db) = (kv_abs db)(k \<mapsto> absval (o_val obj'))"
  using put_obj_ok [OF assms] kv_abs_upd by blast

end
