(* ===== verification/Decimal.thy ===== *)
theory Decimal
  imports Prelude
begin

text \<open>
  The decimal conversions of C's standard library that the program uses: \<open>printf\<close> of
  \<open>%zu\<close>, \<open>%d\<close> and \<open>%lld\<close>, and \<open>scanf\<close> of \<open>%lld\<close>. The lemmas give the round trip between them.
\<close>

definition digit :: "nat \<Rightarrow> char" where
  "digit d = char_of (48 + d)"

definition is_digit :: "char \<Rightarrow> bool" where
  "is_digit c \<longleftrightarrow> 48 \<le> byte_of c \<and> byte_of c \<le> 57"

definition digit_val :: "char \<Rightarrow> nat" where
  "digit_val c = byte_of c - 48"

definition is_space :: "char \<Rightarrow> bool" where
  "is_space c \<longleftrightarrow> byte_of c = 32 \<or> 9 \<le> byte_of c \<and> byte_of c \<le> 13"

fun nat_dec :: "nat \<Rightarrow> string" where
  "nat_dec n = (if n < 10 then [digit n] else nat_dec (n div 10) @ [digit (n mod 10)])"

declare nat_dec.simps [simp del]

definition int_dec :: "int \<Rightarrow> string" where
  "int_dec i = (if i < 0 then CHR ''-'' # nat_dec (nat (- i)) else nat_dec (nat i))"

definition dec_val :: "string \<Rightarrow> nat" where
  "dec_val ds = foldl (\<lambda>v c. 10 * v + digit_val c) 0 ds"

text \<open>An optional sign and the digits after it.\<close>

definition signed_digits :: "string \<Rightarrow> bool \<times> string" where
  "signed_digits s = (case s of
       CHR ''-'' # t \<Rightarrow> (True, takeWhile is_digit t)
     | CHR ''+'' # t \<Rightarrow> (False, takeWhile is_digit t)
     | _ \<Rightarrow> (False, takeWhile is_digit s))"

text \<open>
  \<open>sscanf(s, "%lld", &v)\<close>: \<open>None\<close> when there is no number, so that \<open>v\<close> keeps its value. A
  number that does not fit is undefined behaviour, which the callers turn into a fault.
\<close>

definition scan_lld :: "string \<Rightarrow> int option" where
  "scan_lld s =
     (let (neg, ds) = signed_digits (dropWhile is_space s) in
      if ds = [] then None else Some (if neg then - int (dec_val ds) else int (dec_val ds)))"

lemma byte_of_digit: "d < 10 \<Longrightarrow> byte_of (digit d) = 48 + d"
  by (simp add: byte_of_def digit_def)

lemma is_digit_digit [simp]: "d < 10 \<Longrightarrow> is_digit (digit d)"
  by (simp add: is_digit_def byte_of_digit)

lemma digit_val_digit [simp]: "d < 10 \<Longrightarrow> digit_val (digit d) = d"
  by (simp add: digit_val_def byte_of_digit)

lemma dec_val_append [simp]: "dec_val (ds @ [c]) = 10 * dec_val ds + digit_val c"
  by (simp add: dec_val_def)

lemma nat_dec_digits: "c \<in> set (nat_dec n) \<Longrightarrow> is_digit c"
proof (induction n arbitrary: c rule: nat_dec.induct)
  case (1 n)
  then show ?case by (subst (asm) (2) nat_dec.simps) (auto split: if_splits)
qed

lemma nat_dec_nonempty [simp]: "nat_dec n \<noteq> []"
  by (subst nat_dec.simps) simp

lemma dec_val_nat_dec [simp]: "dec_val (nat_dec n) = n"
proof (induction n rule: nat_dec.induct)
  case (1 n)
  then show ?case by (subst nat_dec.simps) (auto simp: dec_val_def)
qed

lemma nat_dec_inj: "nat_dec m = nat_dec n \<longleftrightarrow> m = n"
  using dec_val_nat_dec by metis

lemma takeWhile_nat_dec:
  "t = [] \<or> \<not> is_digit (hd t) \<Longrightarrow> takeWhile is_digit (nat_dec n @ t) = nat_dec n"
  by (subst takeWhile_append2) (auto simp: nat_dec_digits takeWhile_eq_Nil_iff)

lemma digit_chars: "is_digit c \<Longrightarrow> c \<noteq> CHR ''-'' \<and> c \<noteq> CHR ''+'' \<and> \<not> is_space c \<and> c \<noteq> NUL \<and> c \<noteq> CHR 0x0D \<and> c \<noteq> CHR 0x0A"
  by (auto simp: is_digit_def is_space_def byte_of_def)

lemma nat_dec_hd: "\<exists>c cs. nat_dec n = c # cs \<and> is_digit c"
proof (cases "nat_dec n")
  case (Cons c cs)
  then have "c \<in> set (nat_dec n)" by simp
  with Cons nat_dec_digits show ?thesis by blast
qed simp

lemma signed_digits_nat_dec:
  assumes "t = [] \<or> \<not> is_digit (hd t)"
  shows "signed_digits (nat_dec n @ t) = (False, nat_dec n)" "signed_digits (CHR ''-'' # nat_dec n @ t) = (True, nat_dec n)"
proof -
  obtain c cs where c: "nat_dec n = c # cs" "is_digit c" using nat_dec_hd by blast
  have "signed_digits (c # cs @ t) = (False, takeWhile is_digit (c # cs @ t))"
    using digit_chars [OF c(2)] by (auto simp: signed_digits_def split: char.splits bool.splits)
  then show "signed_digits (nat_dec n @ t) = (False, nat_dec n)"
    using takeWhile_nat_dec [OF assms, of n] c(1) by simp
  show "signed_digits (CHR ''-'' # nat_dec n @ t) = (True, nat_dec n)"
    using takeWhile_nat_dec [OF assms, of n] by (simp add: signed_digits_def)
qed

text \<open>What \<open>%lld\<close> prints, \<open>%lld\<close> reads back, whatever follows the number.\<close>

lemma scan_int_dec:
  assumes "t = [] \<or> \<not> is_digit (hd t)"
  shows "scan_lld (int_dec i @ t) = Some i"
proof (cases "i < 0")
  case True
  have "\<not> is_space (CHR ''-'')" by (simp add: is_space_def byte_of_def)
  with True signed_digits_nat_dec(2) [OF assms] show ?thesis by (simp add: scan_lld_def int_dec_def)
next
  case False
  obtain c cs where c: "nat_dec (nat i) = c # cs" "is_digit c" using nat_dec_hd by blast
  then have "dropWhile is_space (nat_dec (nat i) @ t) = nat_dec (nat i) @ t" using digit_chars by simp
  with False signed_digits_nat_dec(1) [OF assms] show ?thesis by (simp add: scan_lld_def int_dec_def)
qed

lemma int_dec_cstr: "is_cstr (int_dec i)"
proof -
  have "NUL \<notin> set (nat_dec n)" for n using nat_dec_digits digit_chars by blast
  then show ?thesis by (simp add: is_cstr_def int_dec_def)
qed

end
