(* ===== verification/String_Commands.thy ===== *)
theory String_Commands
  imports Abstract_View Decimal
begin

text \<open>
  The string commands of \<open>src/src/core/kvdb.c\<close> (\<open>kv_incrby\<close> to \<open>kv_setex\<close>) and
  \<open>obj_to_string\<close>. Output parameters are part of the result. \<open>now\<close> is the clock in
  microseconds, \<open>nowms\<close> in milliseconds.
\<close>

subsection \<open>Operations\<close>

definition get_string_obj :: "kv_table \<Rightarrow> string \<Rightarrow> string option" where
  "get_string_obj db key = (case kv_find db key of
       None \<Rightarrow> None
     | Some (_, obj) \<Rightarrow> (case o_val obj of OBJ_STRING s \<Rightarrow> Some s | _ \<Rightarrow> None))"

text \<open>
  The second half of \<open>kv_incrby\<close>, on the object pointer of slot \<open>idx\<close>: in an empty slot it is
  null, in a deleted one it is dangling. The addition is a signed one.
\<close>

definition incr_slot :: "nat \<Rightarrow> int \<Rightarrow> kv_table \<Rightarrow> ((int \<times> int option) \<times> kv_table) res" where
  "incr_slot idx delta db = (case t_entries db ! idx of
       E_OCCUPIED _ obj \<Rightarrow>
         (case o_val obj of
            OBJ_STRING s \<Rightarrow>
              bindr (case scan_lld s of None \<Rightarrow> Inr 0 | Some v \<Rightarrow> i64 v) (\<lambda>v.
              bindr (i64 (v + delta)) (\<lambda>v.
              Inr ((0, Some v), put_obj idx (obj\<lparr>o_val := OBJ_STRING (int_dec v)\<rparr>) db)))
          | _ \<Rightarrow> Inr ((-1, None), db))
     | _ \<Rightarrow> Inl NullDeref)"

definition kv_incrby ::
  "(nat \<Rightarrow> bool) \<Rightarrow> u64 \<Rightarrow> kv_table \<Rightarrow> string \<Rightarrow> int \<Rightarrow> ((int \<times> int option) \<times> kv_table) res" where
  "kv_incrby mem now db key delta =
     (let (idx, found) = probe (t_entries db) key in
      if found then incr_slot idx delta db
      else
        let (ver, db) = kv_next_version db;
            obj = (obj_create_string now ''0'')\<lparr>o_version := ver\<rparr> in
        bindr (kv_set_object mem db key obj None) (\<lambda>(_, db).
        incr_slot (fst (probe (t_entries db) key)) delta db))"

definition kv_incr :: "(nat \<Rightarrow> bool) \<Rightarrow> u64 \<Rightarrow> kv_table \<Rightarrow> string \<Rightarrow> ((int \<times> int option) \<times> kv_table) res" where
  "kv_incr mem now db key = kv_incrby mem now db key 1"

text \<open>\<open>-delta\<close> is a signed negation.\<close>

definition kv_decrby ::
  "(nat \<Rightarrow> bool) \<Rightarrow> u64 \<Rightarrow> kv_table \<Rightarrow> string \<Rightarrow> int \<Rightarrow> ((int \<times> int option) \<times> kv_table) res" where
  "kv_decrby mem now db key delta = bindr (i64 (- delta)) (\<lambda>d. kv_incrby mem now db key d)"

definition kv_decr :: "(nat \<Rightarrow> bool) \<Rightarrow> u64 \<Rightarrow> kv_table \<Rightarrow> string \<Rightarrow> ((int \<times> int option) \<times> kv_table) res" where
  "kv_decr mem now db key = kv_decrby mem now db key 1"

definition append_at :: "kv_table \<Rightarrow> string \<Rightarrow> string \<Rightarrow> (int \<times> nat option) \<times> kv_table" where
  "append_at db key suffix = (case kv_find db key of
       None \<Rightarrow> ((-1, None), db)
     | Some (idx, obj) \<Rightarrow> (case o_val obj of
           OBJ_STRING old \<Rightarrow>
             ((0, Some (length old + length suffix)),
              put_obj idx (obj\<lparr>o_val := OBJ_STRING (old @ suffix)\<rparr>) db)
         | _ \<Rightarrow> ((-1, None), db)))"

definition kv_append ::
  "(nat \<Rightarrow> bool) \<Rightarrow> u64 \<Rightarrow> kv_table \<Rightarrow> string \<Rightarrow> string \<Rightarrow> ((int \<times> nat option) \<times> kv_table) res" where
  "kv_append mem now db key suffix = (case get_string_obj db key of
       Some _ \<Rightarrow> Inr (append_at db key suffix)
     | None \<Rightarrow>
         bindr (kv_set_object mem db key (obj_create_string now '''') None) (\<lambda>(r, db).
         if r \<noteq> 0 then Inr ((-1, None), db) else Inr (append_at db key suffix)))"

text \<open>\<open>memcpy(res, s + off, n)\<close>: the bytes must lie within the string.\<close>

definition sub_bytes :: "string \<Rightarrow> int \<Rightarrow> int \<Rightarrow> string res" where
  "sub_bytes s off n =
     (if 0 \<le> off \<and> 0 \<le> n \<and> off + n \<le> int (length s)
      then Inr (take (nat n) (drop (nat off) s)) else Inl OverRead)"

definition kv_getrange :: "kv_table \<Rightarrow> string \<Rightarrow> int \<Rightarrow> int \<Rightarrow> string res" where
  "kv_getrange db key start end = (case get_string_obj db key of
       None \<Rightarrow> Inr ''''
     | Some s \<Rightarrow>
         (let len = int (length s);
              start = (if start < 0 then start + len else start);
              start = (if start < 0 then 0 else start);
              start = (if start > len then len else start);
              end = (if end < 0 then end + len else end);
              end = (if end < 0 then -1 else end);
              end = (if end > len - 1 then len - 1 else end) in
          if start > end then Inr ''''
          else sub_bytes s start (end - start + 1)))"

definition kv_strlen :: "kv_table \<Rightarrow> string \<Rightarrow> int \<times> nat option" where
  "kv_strlen db key = (case get_string_obj db key of
       None \<Rightarrow> (-1, None)
     | Some s \<Rightarrow> (0, Some (length s)))"

definition kv_setnx :: "(nat \<Rightarrow> bool) \<Rightarrow> u64 \<Rightarrow> kv_table \<Rightarrow> string \<Rightarrow> string \<Rightarrow> (int \<times> kv_table) res" where
  "kv_setnx mem now db key value =
     (if kv_exists db key then Inr (0, db) else kv_set mem now db key value)"

definition kv_setex ::
  "(nat \<Rightarrow> bool) \<Rightarrow> u64 \<Rightarrow> int \<Rightarrow> kv_table \<Rightarrow> string \<Rightarrow> string \<Rightarrow> int \<Rightarrow> (int \<times> kv_table) res" where
  "kv_setex mem now nowms db key value msec =
     bindr (kv_set mem now db key value) (\<lambda>(ret, db).
     if ret \<noteq> 0 then Inr (ret, db)
     else bindr (i64 (nowms + msec)) (\<lambda>ttl. Inr (kv_set_ttl db key ttl)))"

definition obj_to_string :: "db_object option \<Rightarrow> string" where
  "obj_to_string obj = (case obj of
       None \<Rightarrow> ''(nil)''
     | Some obj \<Rightarrow> (case o_val obj of
           OBJ_STRING s \<Rightarrow> s
         | OBJ_LIST l \<Rightarrow> ''(list len='' @ nat_dec (dl_len l) @ '')''
         | OBJ_SET h \<Rightarrow> ''(set card='' @ nat_dec (ht_count h) @ '')''
         | OBJ_HASH h \<Rightarrow> ''(hash len='' @ nat_dec (ht_count h) @ '')''
         | OBJ_ZSET z \<Rightarrow> ''(zset card='' @ nat_dec (z_length z) @ '')''))"

subsection \<open>Behaviour\<close>

lemma get_string_obj_ok:
  "kv_inv db \<Longrightarrow> get_string_obj db k = (case kv_abs db k of Some (AStr s) \<Rightarrow> Some s | _ \<Rightarrow> None)"
proof (cases "kv_find db k")
  case (Some io)
  assume "kv_inv db"
  with Some kv_find_abs(2) [of db k "fst io" "snd io"] show ?thesis
    by (cases io; cases "o_val (snd io)") (simp_all add: get_string_obj_def)
qed (simp add: get_string_obj_def kv_find_abs(1))

lemma kv_get_abs: "kv_inv db \<Longrightarrow> kv_get db k = (case kv_abs db k of Some (AStr s) \<Rightarrow> Some s | _ \<Rightarrow> None)"
  using get_string_obj_ok by (simp add: kv_get_def kv_get_object_def get_string_obj_def)

lemma incr_slot_ok:
  assumes "kv_inv db" "kv_find db k = Some (idx, obj)" "o_val obj = OBJ_STRING s"
    and v: "v = (case scan_lld s of None \<Rightarrow> 0 | Some v \<Rightarrow> v)" "in_i64 v" "in_i64 (v + delta)"
  shows "\<exists>db'. incr_slot idx delta db = Inr ((0, Some (v + delta)), db') \<and> kv_inv db' \<and>
    kv_abs db' = (kv_abs db)(k \<mapsto> AStr (int_dec (v + delta)))"
proof -
  note f = kv_find_Some [OF assms(1,2)]
  let ?obj = "obj\<lparr>o_val := OBJ_STRING (int_dec (v + delta))\<rparr>"
  have "incr_slot idx delta db = Inr ((0, Some (v + delta)), put_obj idx ?obj db)"
    using f(3) assms(3) v by (auto simp: incr_slot_def split: option.splits)
  moreover have "obj_inv ?obj" by (simp add: obj_inv_def)
  ultimately show ?thesis using put_obj_abs [OF assms(1,2)] by auto
qed

text \<open>The number a key holds for \<open>INCRBY\<close>; \<open>None\<close> for a key of another type.\<close>

definition number_at :: "kv_table \<Rightarrow> string \<Rightarrow> int option" where
  "number_at db k = (case kv_abs db k of
       None \<Rightarrow> Some 0
     | Some (AStr s) \<Rightarrow> Some (case scan_lld s of None \<Rightarrow> 0 | Some v \<Rightarrow> v)
     | Some _ \<Rightarrow> None)"

lemma kv_incrby_ok:
  assumes inv: "kv_inv db" and grow: "can_grow mem db"
    and v: "number_at db k = Some v" "in_i64 v" "in_i64 (v + delta)"
  shows "\<exists>db'. kv_incrby mem now db k delta = Inr ((0, Some (v + delta)), db') \<and> kv_inv db' \<and>
    kv_abs db' = (kept mem db k)(k \<mapsto> AStr (int_dec (v + delta)))"
proof (cases "kv_find db k")
  case (Some io)
  then obtain idx obj where f: "kv_find db k = Some (idx, obj)" by (cases io) auto
  note a = kv_find_abs(2) [OF inv f]
  then obtain s where s: "o_val obj = OBJ_STRING s"
    using v(1) by (cases "o_val obj") (auto simp: number_at_def)
  have "v = (case scan_lld s of None \<Rightarrow> 0 | Some v \<Rightarrow> v)" using v(1) a s by (simp add: number_at_def)
  from incr_slot_ok [OF inv f s this v(2,3)] kv_find_Some(5) [OF inv f] kept_present [OF inv grow, of k] a
  show ?thesis by (auto simp: kv_incrby_def domI)
next
  case None
  then have nf: "\<not> snd (probe (t_entries db) k)"
    using kv_find_None [OF inv, of k] kv_exists_ok [OF inv, of k] by (auto simp: kv_exists_def)
  let ?d = "db\<lparr>t_version := t_version db + 1\<rparr>"
  let ?obj = "(obj_create_string now ''0'')\<lparr>o_version := t_version db + 1\<rparr>"
  have "kv_inv ?d" "obj_inv ?obj" "can_grow mem ?d" using inv grow by simp_all
  from kv_set_object_abs [OF this, of k] obtain d where
    d: "kv_set_object mem ?d k ?obj None = Inr (0, d)" "kv_inv d" "kv_map d k = Some ?obj"
      "kv_abs d = (kept mem db k)(k \<mapsto> absval (o_val ?obj))" by (auto simp: grown_snd_version)
  obtain idx where f: "kv_find d k = Some (idx, ?obj)" using kv_find_map [OF d(2,3)] by blast
  have s: "o_val ?obj = OBJ_STRING ''0''" by (simp add: obj_create_string_def)
  have "int_dec 0 = ''0''" by code_simp
  with scan_int_dec [of "[]" 0] have "scan_lld ''0'' = Some 0" by simp
  moreover have "v = 0" using v(1) kv_find_abs(1) [OF inv None] by (simp add: number_at_def)
  ultimately have "v = (case scan_lld ''0'' of None \<Rightarrow> 0 | Some v \<Rightarrow> v)" by simp
  from incr_slot_ok [OF d(2) f s this v(2,3)] obtain db' where
    "incr_slot idx delta d = Inr ((0, Some (v + delta)), db')" "kv_inv db'"
    "kv_abs db' = (kv_abs d)(k \<mapsto> AStr (int_dec (v + delta)))" by blast
  moreover have "kv_incrby mem now db k delta = incr_slot idx delta d"
    using nf d(1) kv_find_Some(5) [OF d(2) f] by (auto simp: kv_incrby_def kv_next_version_def Let_def split: prod.splits)
  ultimately show ?thesis using d(4) by simp
qed

lemma kv_incrby_wrong_type:
  assumes inv: "kv_inv db" and w: "number_at db k = None"
  shows "kv_incrby mem now db k delta = Inr ((-1, None), db)"
proof (cases "kv_find db k")
  case (Some io)
  then obtain idx obj where f: "kv_find db k = Some (idx, obj)" by (cases io) auto
  with kv_find_abs(2) [OF inv f] w kv_find_Some(3,5) [OF inv f] show ?thesis
    by (auto simp: kv_incrby_def incr_slot_def number_at_def split: obj_val.splits)
qed (use w kv_find_abs(1) [OF inv] in \<open>simp add: number_at_def\<close>)

lemma append_at_ok:
  assumes "kv_inv db" "kv_abs db k = Some (AStr s)"
  shows "\<exists>db'. append_at db k t = ((0, Some (length (s @ t))), db') \<and> kv_inv db' \<and>
    kv_abs db' = (kv_abs db)(k \<mapsto> AStr (s @ t))"
proof -
  obtain obj where o: "kv_map db k = Some obj" "absval (o_val obj) = AStr s" using assms(2) by (auto simp: kv_abs_def)
  then have s: "o_val obj = OBJ_STRING s" by (auto simp: absval_def split: obj_val.splits)
  obtain idx where f: "kv_find db k = Some (idx, obj)" using kv_find_map [OF assms(1) o(1)] by blast
  have "obj_inv (obj\<lparr>o_val := OBJ_STRING (s @ t)\<rparr>)" by (simp add: obj_inv_def)
  from put_obj_abs [OF assms(1) f this] f s show ?thesis by (simp add: append_at_def)
qed

lemma kv_append_ok:
  assumes inv: "kv_inv db" and grow: "can_grow mem db"
  shows "\<exists>db'. kv_append mem now db k t =
      Inr ((0, Some (length (case get_string_obj db k of Some s \<Rightarrow> s @ t | None \<Rightarrow> t))), db') \<and> kv_inv db' \<and>
    kv_abs db' = (kept mem db k)(k \<mapsto> AStr (case get_string_obj db k of Some s \<Rightarrow> s @ t | None \<Rightarrow> t))"
proof (cases "get_string_obj db k")
  case (Some s)
  then have a: "kv_abs db k = Some (AStr s)"
    using get_string_obj_ok [OF inv, of k] by (auto split: option.splits aval.splits)
  from append_at_ok [OF inv a, of t] Some kept_present [OF inv grow, of k] a show ?thesis
    by (auto simp: kv_append_def domI simp del: fun_upd_apply)
next
  case None
  have "o_val (obj_create_string now '''') = OBJ_STRING ''''" by (simp add: obj_create_string_def)
  with kv_set_object_abs [OF inv obj_create_inv(1) grow, of k now "''''"] obtain d where
    d: "kv_set_object mem db k (obj_create_string now '''') None = Inr (0, d)" "kv_inv d"
      "kv_abs d = (kept mem db k)(k \<mapsto> AStr '''')" by auto
  then have "kv_abs d k = Some (AStr '''')" by simp
  from append_at_ok [OF d(2) this, of t] d None show ?thesis by (auto simp: kv_append_def simp del: fun_upd_apply)
qed

text \<open>\<open>GETRANGE\<close> reads within the string; both ends are clamped and included.\<close>

lemma kv_getrange_ok:
  assumes "kv_inv db"
  shows "kv_getrange db k a b = Inr (case kv_abs db k of
      Some (AStr s) \<Rightarrow>
        (let n = int (length s); lo = max 0 (if a < 0 then a + n else a); hi = min (n - 1) (if b < 0 then b + n else b) in
         take (nat (hi - lo + 1)) (drop (nat lo) s))
    | _ \<Rightarrow> '''')"
proof (cases "get_string_obj db k")
  case None
  then show ?thesis using get_string_obj_ok [OF assms, of k]
    by (auto simp: kv_getrange_def split: option.splits aval.splits)
next
  case (Some s)
  then have "kv_abs db k = Some (AStr s)"
    using get_string_obj_ok [OF assms, of k] by (auto split: option.splits aval.splits)
  with Some show ?thesis by (auto simp: kv_getrange_def Let_def sub_bytes_def max_def min_def)
qed

end
