(* ===== verification/Typed_Access.thy ===== *)
theory Typed_Access
  imports Abstract_View
begin

text \<open>
  Typed access to the objects of the key space: \<open>wr_obj\<close> and the helpers that create a missing
  list, set, hash or sorted set (\<open>kv_ensure_list\<close>, \<open>wr_set_obj\<close>, \<open>wr_hash\<close> and the start of
  \<open>kv_zadd\<close> in \<open>src/src/core/kvdb.c\<close>). A type tag is the selector of the values it tags.
\<close>

fun as_list :: "obj_val \<Rightarrow> dlist option" where
  "as_list (OBJ_LIST l) = Some l" | "as_list _ = None"

fun as_set :: "obj_val \<Rightarrow> simple_ht option" where
  "as_set (OBJ_SET h) = Some h" | "as_set _ = None"

fun as_hash :: "obj_val \<Rightarrow> simple_ht option" where
  "as_hash (OBJ_HASH h) = Some h" | "as_hash _ = None"

fun as_zset :: "obj_val \<Rightarrow> zskiplist option" where
  "as_zset (OBJ_ZSET z) = Some z" | "as_zset _ = None"

text \<open>The object pointer (slot and object) with the structure its \<open>ptr\<close> points to.\<close>

definition wr_obj :: "kv_table \<Rightarrow> string \<Rightarrow> (obj_val \<Rightarrow> 'x option) \<Rightarrow> (nat \<times> db_object \<times> 'x) option" where
  "wr_obj db key type = (case kv_find db key of
       None \<Rightarrow> None
     | Some (idx, obj) \<Rightarrow> (case type (o_val obj) of None \<Rightarrow> None | Some x \<Rightarrow> Some (idx, obj, x)))"

text \<open>
  \<open>(T*)o->ptr\<close> of a pointer that was not checked: a null pointer faults, and so does an object of
  another type.
\<close>

definition cast_obj :: "(nat \<times> db_object) option \<Rightarrow> (obj_val \<Rightarrow> 'x option) \<Rightarrow> (nat \<times> db_object \<times> 'x) res" where
  "cast_obj p type = (case p of
       None \<Rightarrow> Inl NullDeref
     | Some (idx, obj) \<Rightarrow> (case type (o_val obj) of None \<Rightarrow> Inl OverRead | Some x \<Rightarrow> Inr (idx, obj, x)))"

definition kv_ensure_list :: "(nat \<Rightarrow> bool) \<Rightarrow> kv_table \<Rightarrow> string \<Rightarrow> ((nat \<times> db_object \<times> dlist) option \<times> kv_table) res" where
  "kv_ensure_list mem db key = (case wr_obj db key as_list of
       Some p \<Rightarrow> Inr (Some p, db)
     | None \<Rightarrow>
         bindr (kv_set_object mem db key obj_create_list None) (\<lambda>(r, db).
         if r \<noteq> 0 then bindr (obj_free obj_create_list) (\<lambda>_. Inr (None, db))
         else Inr (wr_obj db key as_list, db)))"

text \<open>\<open>wr_set_obj\<close> and \<open>wr_hash\<close> return the pointer unchecked after creating the object.\<close>

definition wr_set_obj :: "(nat \<Rightarrow> bool) \<Rightarrow> kv_table \<Rightarrow> string \<Rightarrow> ((nat \<times> db_object) option \<times> kv_table) res" where
  "wr_set_obj mem db key = (case wr_obj db key as_set of
       Some (idx, obj, _) \<Rightarrow> Inr (Some (idx, obj), db)
     | None \<Rightarrow>
         bindr (kv_set_object mem db key obj_create_set None) (\<lambda>(r, db).
         if r \<noteq> 0 then bindr (obj_free obj_create_set) (\<lambda>_. Inr (None, db))
         else Inr (kv_get_object db key, db)))"

definition wr_hash :: "(nat \<Rightarrow> bool) \<Rightarrow> kv_table \<Rightarrow> string \<Rightarrow> ((nat \<times> db_object) option \<times> kv_table) res" where
  "wr_hash mem db key = (case wr_obj db key as_hash of
       Some (idx, obj, _) \<Rightarrow> Inr (Some (idx, obj), db)
     | None \<Rightarrow>
         bindr (kv_set_object mem db key obj_create_hash None) (\<lambda>(r, db).
         if r \<noteq> 0 then bindr (obj_free obj_create_hash) (\<lambda>_. Inr (None, db))
         else Inr (kv_get_object db key, db)))"

text \<open>Writing the changed structure back through the object pointer.\<close>

definition put_val :: "nat \<Rightarrow> db_object \<Rightarrow> obj_val \<Rightarrow> kv_table \<Rightarrow> kv_table" where
  "put_val idx obj v db = put_obj idx (obj\<lparr>o_val := v\<rparr>) db"

subsection \<open>Behaviour\<close>

lemma wr_obj_Some:
  assumes "kv_inv db" "wr_obj db k type = Some (idx, obj, x)"
  shows "kv_find db k = Some (idx, obj)" "type (o_val obj) = Some x" "obj_inv obj" "kv_abs db k = Some (absval (o_val obj))"
proof -
  show f: "kv_find db k = Some (idx, obj)" and "type (o_val obj) = Some x"
    using assms(2) by (auto simp: wr_obj_def split: option.splits)
  show "obj_inv obj" "kv_abs db k = Some (absval (o_val obj))" using kv_find_abs(2) [OF assms(1) f] by auto
qed

lemma put_val_ok:
  assumes "kv_inv db" "kv_find db k = Some (idx, obj)" "obj_inv (obj\<lparr>o_val := v\<rparr>)"
  shows "kv_inv (put_val idx obj v db)" "kv_abs (put_val idx obj v db) = (kv_abs db)(k \<mapsto> absval v)"
  using put_obj_abs [OF assms] by (simp_all add: put_val_def)

text \<open>
  What a creating access leaves: an object of the type under the key, the old one where there
  was one of that type, else a fresh one; nothing else is touched but by the store.
\<close>

definition fetched :: "(nat \<Rightarrow> bool) \<Rightarrow> kv_table \<Rightarrow> string \<Rightarrow> (obj_val \<Rightarrow> 'x option) \<Rightarrow> 'x \<Rightarrow> nat \<Rightarrow> db_object \<Rightarrow> 'x \<Rightarrow> kv_table \<Rightarrow> bool" where
  "fetched mem db k type x0 idx obj x d \<longleftrightarrow> kv_inv d \<and> kv_find d k = Some (idx, obj) \<and> type (o_val obj) = Some x \<and>
     (\<forall>v. (kv_abs d)(k \<mapsto> v) = (kept mem db k)(k \<mapsto> v)) \<and>
     (x = x0 \<and> wr_obj db k type = None \<or> wr_obj db k type = Some (idx, obj, x))"

lemma fetch_present:
  assumes "kv_inv db" "can_grow mem db" "wr_obj db k type = Some (idx, obj, x)"
  shows "fetched mem db k type x0 idx obj x db"
proof -
  note w = wr_obj_Some [OF assms(1,3)]
  have "kept mem db k = kv_abs db" using kept_present [OF assms(1,2), of k] w(4) by (simp add: domI)
  with w assms(1,3) show ?thesis by (simp add: fetched_def)
qed

lemma fetch_fresh:
  assumes inv: "kv_inv db" and grow: "can_grow mem db" and no: "wr_obj db k type = None"
    and fresh: "obj_inv fresh" "type (o_val fresh) = Some x0"
  shows "\<exists>idx d. kv_set_object mem db k fresh None = Inr (0, d) \<and> kv_find d k = Some (idx, fresh) \<and>
    wr_obj d k type = Some (idx, fresh, x0) \<and> fetched mem db k type x0 idx fresh x0 d"
proof -
  from kv_set_object_abs [OF inv fresh(1) grow, of k] obtain d where
    d: "kv_set_object mem db k fresh None = Inr (0, d)" "kv_inv d" "kv_map d k = Some fresh"
      "kv_abs d = (kept mem db k)(k \<mapsto> absval (o_val fresh))" by blast
  obtain idx where f: "kv_find d k = Some (idx, fresh)" using kv_find_map [OF d(2,3)] by blast
  then have "fetched mem db k type x0 idx fresh x0 d" using d fresh(2) no by (simp add: fetched_def)
  with d(1) f fresh(2) show ?thesis by (auto simp: wr_obj_def)
qed

lemma kv_ensure_list_ok:
  assumes "kv_inv db" "can_grow mem db"
  shows "\<exists>idx obj l d. kv_ensure_list mem db k = Inr (Some (idx, obj, l), d) \<and> fetched mem db k as_list dlist_new idx obj l d"
proof (cases "wr_obj db k as_list")
  case None
  have "as_list (o_val obj_create_list) = Some dlist_new" by (simp add: obj_create_list_def)
  from fetch_fresh [OF assms None obj_create_inv(2) this] None show ?thesis by (auto simp: kv_ensure_list_def)
next
  case (Some p)
  then show ?thesis using fetch_present [OF assms, of k as_list] by (cases p) (auto simp: kv_ensure_list_def)
qed

lemma wr_set_obj_ok:
  assumes "kv_inv db" "can_grow mem db"
  shows "\<exists>idx obj h d. wr_set_obj mem db k = Inr (Some (idx, obj), d) \<and> cast_obj (Some (idx, obj)) as_set = Inr (idx, obj, h) \<and>
    fetched mem db k as_set ht_create idx obj h d"
proof (cases "wr_obj db k as_set")
  case None
  have "as_set (o_val obj_create_set) = Some ht_create" by (simp add: obj_create_set_def)
  from fetch_fresh [OF assms None obj_create_inv(3) this] this None show ?thesis
    by (auto simp: wr_set_obj_def kv_get_object_def cast_obj_def)
next
  case (Some p)
  then show ?thesis using fetch_present [OF assms, of k as_set] wr_obj_Some(2) [OF assms(1), of k as_set]
    by (cases p) (auto simp: wr_set_obj_def cast_obj_def)
qed

lemma wr_hash_ok:
  assumes "kv_inv db" "can_grow mem db"
  shows "\<exists>idx obj h d. wr_hash mem db k = Inr (Some (idx, obj), d) \<and> cast_obj (Some (idx, obj)) as_hash = Inr (idx, obj, h) \<and>
    fetched mem db k as_hash ht_create idx obj h d"
proof (cases "wr_obj db k as_hash")
  case None
  have "as_hash (o_val obj_create_hash) = Some ht_create" by (simp add: obj_create_hash_def)
  from fetch_fresh [OF assms None obj_create_inv(4) this] this None show ?thesis
    by (auto simp: wr_hash_def kv_get_object_def cast_obj_def)
next
  case (Some p)
  then show ?thesis using fetch_present [OF assms, of k as_hash] wr_obj_Some(2) [OF assms(1), of k as_hash]
    by (cases p) (auto simp: wr_hash_def cast_obj_def)
qed

text \<open>What a creating access finds is the abstract value of that type, or the empty one.\<close>

definition list_at :: "kv_table \<Rightarrow> string \<Rightarrow> string list" where
  "list_at db k = (case kv_abs db k of Some (AList xs) \<Rightarrow> xs | _ \<Rightarrow> [])"

definition set_at :: "kv_table \<Rightarrow> string \<Rightarrow> string set" where
  "set_at db k = (case kv_abs db k of Some (ASet s) \<Rightarrow> s | _ \<Rightarrow> {})"

definition hash_at :: "kv_table \<Rightarrow> string \<Rightarrow> string \<rightharpoonup> string option" where
  "hash_at db k = (case kv_abs db k of Some (AHash h) \<Rightarrow> h | _ \<Rightarrow> Map.empty)"

definition zset_at :: "kv_table \<Rightarrow> string \<Rightarrow> zentry list" where
  "zset_at db k = (case kv_abs db k of Some (AZset es) \<Rightarrow> es | _ \<Rightarrow> [])"

lemma wr_obj_at:
  assumes "kv_inv db"
  shows "list_at db k = (case wr_obj db k as_list of Some (_, _, l) \<Rightarrow> dlist_list l | None \<Rightarrow> [])"
    "set_at db k = (case wr_obj db k as_set of Some (_, _, h) \<Rightarrow> dom (ht_map h) | None \<Rightarrow> {})"
    "hash_at db k = (case wr_obj db k as_hash of Some (_, _, h) \<Rightarrow> ht_map h | None \<Rightarrow> Map.empty)"
    "zset_at db k = (case wr_obj db k as_zset of Some (_, _, z) \<Rightarrow> zsl_list z | None \<Rightarrow> [])"
proof -
  have "list_at db k = (case wr_obj db k as_list of Some (_, _, l) \<Rightarrow> dlist_list l | None \<Rightarrow> []) \<and>
    set_at db k = (case wr_obj db k as_set of Some (_, _, h) \<Rightarrow> dom (ht_map h) | None \<Rightarrow> {}) \<and>
    hash_at db k = (case wr_obj db k as_hash of Some (_, _, h) \<Rightarrow> ht_map h | None \<Rightarrow> Map.empty) \<and>
    zset_at db k = (case wr_obj db k as_zset of Some (_, _, z) \<Rightarrow> zsl_list z | None \<Rightarrow> [])"
  proof (cases "kv_find db k")
    case None
    then show ?thesis using kv_find_abs(1) [OF assms, of k]
      by (simp add: wr_obj_def list_at_def set_at_def hash_at_def zset_at_def)
  next
    case (Some io)
    then obtain idx obj where f: "kv_find db k = Some (idx, obj)" by (cases io) auto
    then show ?thesis using kv_find_abs(2) [OF assms f]
      by (cases "o_val obj") (simp_all add: wr_obj_def list_at_def set_at_def hash_at_def zset_at_def)
  qed
  then show "list_at db k = (case wr_obj db k as_list of Some (_, _, l) \<Rightarrow> dlist_list l | None \<Rightarrow> [])"
    "set_at db k = (case wr_obj db k as_set of Some (_, _, h) \<Rightarrow> dom (ht_map h) | None \<Rightarrow> {})"
    "hash_at db k = (case wr_obj db k as_hash of Some (_, _, h) \<Rightarrow> ht_map h | None \<Rightarrow> Map.empty)"
    "zset_at db k = (case wr_obj db k as_zset of Some (_, _, z) \<Rightarrow> zsl_list z | None \<Rightarrow> [])" by auto
qed

end
