(* ===== verification/List_Commands.thy ===== *)
theory List_Commands
  imports Typed_Access
begin

text \<open>
  The list commands of \<open>src/src/core/kvdb.c\<close> (\<open>kv_lpush\<close> to \<open>kv_lpoprpush\<close>). Output parameters
  are part of the result. The lemmas give each command on the abstract database.
\<close>

definition kv_lpush :: "(nat \<Rightarrow> bool) \<Rightarrow> kv_table \<Rightarrow> string \<Rightarrow> string \<Rightarrow> ((int \<times> nat option) \<times> kv_table) res" where
  "kv_lpush mem db key value =
     bindr (kv_ensure_list mem db key) (\<lambda>(p, db). case p of
       None \<Rightarrow> Inr ((-1, None), db)
     | Some (idx, obj, l) \<Rightarrow>
         bindr (dlist_push_left l value) (\<lambda>l. Inr ((0, Some (dl_len l)), put_val idx obj (OBJ_LIST l) db)))"

definition kv_rpush :: "(nat \<Rightarrow> bool) \<Rightarrow> kv_table \<Rightarrow> string \<Rightarrow> string \<Rightarrow> ((int \<times> nat option) \<times> kv_table) res" where
  "kv_rpush mem db key value =
     bindr (kv_ensure_list mem db key) (\<lambda>(p, db). case p of
       None \<Rightarrow> Inr ((-1, None), db)
     | Some (idx, obj, l) \<Rightarrow>
         bindr (dlist_push_right l value) (\<lambda>l. Inr ((0, Some (dl_len l)), put_val idx obj (OBJ_LIST l) db)))"

definition kv_lpop :: "kv_table \<Rightarrow> string \<Rightarrow> (string option \<times> kv_table) res" where
  "kv_lpop db key = (case wr_obj db key as_list of
       None \<Rightarrow> Inr (None, db)
     | Some (idx, obj, l) \<Rightarrow>
         bindr (dlist_pop_left l) (\<lambda>(v, l). Inr (v, put_val idx obj (OBJ_LIST l) db)))"

definition kv_rpop :: "kv_table \<Rightarrow> string \<Rightarrow> (string option \<times> kv_table) res" where
  "kv_rpop db key = (case wr_obj db key as_list of
       None \<Rightarrow> Inr (None, db)
     | Some (idx, obj, l) \<Rightarrow>
         bindr (dlist_pop_right l) (\<lambda>(v, l). Inr (v, put_val idx obj (OBJ_LIST l) db)))"

definition kv_llen :: "kv_table \<Rightarrow> string \<Rightarrow> int \<times> nat" where
  "kv_llen db key = (case wr_obj db key as_list of
       None \<Rightarrow> (0, 0)
     | Some (_, _, l) \<Rightarrow> (0, dl_len l))"

definition kv_lindex :: "kv_table \<Rightarrow> string \<Rightarrow> int \<Rightarrow> string option res" where
  "kv_lindex db key idx = (case wr_obj db key as_list of
       None \<Rightarrow> Inr None
     | Some (_, _, l) \<Rightarrow> dlist_get l idx)"

definition kv_lset :: "kv_table \<Rightarrow> string \<Rightarrow> int \<Rightarrow> string \<Rightarrow> (int \<times> kv_table) res" where
  "kv_lset db key idx value = (case wr_obj db key as_list of
       None \<Rightarrow> Inr (-1, db)
     | Some (i, obj, l) \<Rightarrow>
         bindr (dlist_set l idx value) (\<lambda>(r, l). Inr (r, put_val i obj (OBJ_LIST l) db)))"

definition kv_lrem :: "kv_table \<Rightarrow> string \<Rightarrow> int \<Rightarrow> string \<Rightarrow> ((int \<times> int) \<times> kv_table) res" where
  "kv_lrem db key cnt value = (case wr_obj db key as_list of
       None \<Rightarrow> Inr ((0, 0), db)
     | Some (i, obj, l) \<Rightarrow>
         bindr (dlist_rem l cnt value) (\<lambda>(r, l). Inr ((0, r), put_val i obj (OBJ_LIST l) db)))"

definition kv_lpoprpush :: "(nat \<Rightarrow> bool) \<Rightarrow> kv_table \<Rightarrow> string \<Rightarrow> string \<Rightarrow> (string option \<times> kv_table) res" where
  "kv_lpoprpush mem db src dst =
     bindr (kv_rpop db src) (\<lambda>(v, db). case v of
       None \<Rightarrow> Inr (None, db)
     | Some w \<Rightarrow> bindr (kv_lpush mem db dst w) (\<lambda>(_, db). Inr (v, db)))"

subsection \<open>Behaviour\<close>

lemma list_val_inv [simp]: "obj_inv (obj\<lparr>o_val := OBJ_LIST l\<rparr>) = dlist_inv l"
  by (simp add: obj_inv_def)

lemma as_list_inv: "obj_inv obj \<Longrightarrow> as_list (o_val obj) = Some l \<Longrightarrow> dlist_inv l"
  by (cases "o_val obj") (auto simp: obj_inv_def)

lemma as_list_abs: "as_list v = Some l \<Longrightarrow> absval v = AList (dlist_list l)"
  by (cases v) auto

lemma fetched_list:
  assumes "kv_inv db" "fetched mem db k as_list dlist_new idx obj l d"
  shows "dlist_inv l" "dlist_list l = list_at db k"
proof -
  have "obj_inv obj" using assms(2) kv_find_abs(2) by (auto simp: fetched_def)
  then show "dlist_inv l" using as_list_inv assms(2) by (auto simp: fetched_def)
  show "dlist_list l = list_at db k"
    using assms dlist_new_ok wr_obj_at(1) [OF assms(1), of k] by (auto simp: fetched_def)
qed

text \<open>A push that changes the content by \<open>g\<close>, on a list that is created when it is missing.\<close>

lemma push_cmd:
  assumes inv: "kv_inv db" "can_grow mem db"
    and push: "\<And>l. dlist_inv l \<Longrightarrow> \<exists>l'. push l = Inr l' \<and> dlist_inv l' \<and> dlist_list l' = g (dlist_list l)"
  shows "\<exists>db'. bindr (kv_ensure_list mem db k) (\<lambda>(p, db). case p of
       None \<Rightarrow> Inr ((-1, None), db)
     | Some (idx, obj, l) \<Rightarrow> bindr (push l) (\<lambda>l. Inr ((0, Some (dl_len l)), put_val idx obj (OBJ_LIST l) db)))
     = Inr ((0, Some (length (g (list_at db k)))), db') \<and> kv_inv db' \<and>
       kv_abs db' = (kept mem db k)(k \<mapsto> AList (g (list_at db k)))"
proof -
  from kv_ensure_list_ok [OF inv] obtain idx obj l d where
    e: "kv_ensure_list mem db k = Inr (Some (idx, obj, l), d)" and f: "fetched mem db k as_list dlist_new idx obj l d" by blast
  note l = fetched_list [OF inv(1) f]
  from push [OF l(1)] obtain l' where l': "push l = Inr l'" "dlist_inv l'" "dlist_list l' = g (list_at db k)"
    using l(2) by auto
  from f have d: "kv_inv d" "kv_find d k = Some (idx, obj)" "\<And>v. (kv_abs d)(k \<mapsto> v) = (kept mem db k)(k \<mapsto> v)"
    by (auto simp: fetched_def)
  have "obj_inv (obj\<lparr>o_val := OBJ_LIST l'\<rparr>)" using l'(2) by simp
  from put_val_ok [OF d(1,2) this] d(3) l' e dlist_len_ok [OF l'(2)] show ?thesis
    by (simp del: bindr_eq_Inr fun_upd_apply)
qed

lemma kv_lpush_ok:
  assumes "kv_inv db" "can_grow mem db"
  shows "\<exists>db'. kv_lpush mem db k v = Inr ((0, Some (length (v # list_at db k))), db') \<and> kv_inv db' \<and>
    kv_abs db' = (kept mem db k)(k \<mapsto> AList (v # list_at db k))"
  unfolding kv_lpush_def
  by (rule push_cmd [where push = "\<lambda>l. dlist_push_left l v" and g = "\<lambda>xs. v # xs", OF assms]) (rule dlist_push_left_ok)

lemma kv_rpush_ok:
  assumes "kv_inv db" "can_grow mem db"
  shows "\<exists>db'. kv_rpush mem db k v = Inr ((0, Some (length (list_at db k @ [v]))), db') \<and> kv_inv db' \<and>
    kv_abs db' = (kept mem db k)(k \<mapsto> AList (list_at db k @ [v]))"
  unfolding kv_rpush_def
  by (rule push_cmd [where push = "\<lambda>l. dlist_push_right l v" and g = "\<lambda>xs. xs @ [v]", OF assms]) (rule dlist_push_right_ok)

text \<open>A command that changes the list under a key where there is one.\<close>

lemma change_cmd:
  assumes inv: "kv_inv db"
    and op: "\<And>l. dlist_inv l \<Longrightarrow> \<exists>l'. f l = Inr (r (dlist_list l), l') \<and> dlist_inv l' \<and> dlist_list l' = g (dlist_list l)"
  shows "\<exists>db'. (case wr_obj db k as_list of
       None \<Rightarrow> Inr (dflt, db)
     | Some (idx, obj, l) \<Rightarrow> bindr (f l) (\<lambda>(v, l). Inr (h v, put_val idx obj (OBJ_LIST l) db)))
     = Inr (if (\<exists>xs. kv_abs db k = Some (AList xs)) then h (r (list_at db k)) else dflt, db') \<and> kv_inv db' \<and>
       kv_abs db' = (if (\<exists>xs. kv_abs db k = Some (AList xs)) then (kv_abs db)(k \<mapsto> AList (g (list_at db k))) else kv_abs db)"
proof (cases "wr_obj db k as_list")
  case None
  have "\<nexists>xs. kv_abs db k = Some (AList xs)"
  proof
    assume "\<exists>xs. kv_abs db k = Some (AList xs)"
    then obtain obj where o: "kv_map db k = Some obj" "\<exists>xs. absval (o_val obj) = AList xs" by (auto simp: kv_abs_def)
    then obtain l where "o_val obj = OBJ_LIST l" by (auto simp: absval_def split: obj_val.splits)
    with None kv_find_map [OF inv o(1)] show False by (auto simp: wr_obj_def)
  qed
  with None inv show ?thesis by simp
next
  case (Some p)
  then obtain idx obj l where w: "wr_obj db k as_list = Some (idx, obj, l)" by (cases p) auto
  note o = wr_obj_Some [OF inv w]
  have a: "kv_abs db k = Some (AList (dlist_list l))" using o(2,4) as_list_abs by simp
  then have la: "list_at db k = dlist_list l" by (simp add: list_at_def)
  from op [OF as_list_inv [OF o(3,2)]] obtain l' where
    l': "f l = Inr (r (dlist_list l), l')" "dlist_inv l'" "dlist_list l' = g (dlist_list l)" by blast
  have "obj_inv (obj\<lparr>o_val := OBJ_LIST l'\<rparr>)" using l'(2) by simp
  from put_val_ok [OF inv o(1) this] l' w a la show ?thesis by (simp del: bindr_eq_Inr fun_upd_apply)
qed

definition has_list :: "kv_table \<Rightarrow> string \<Rightarrow> bool" where
  "has_list db k \<longleftrightarrow> (\<exists>xs. kv_abs db k = Some (AList xs))"

lemma no_list: "\<not> has_list db k \<Longrightarrow> list_at db k = []"
  by (auto simp: has_list_def list_at_def split: option.splits aval.splits)

lemma kv_lpop_ok:
  assumes "kv_inv db"
  shows "\<exists>db'. kv_lpop db k = Inr (if list_at db k = [] then None else Some (hd (list_at db k)), db') \<and> kv_inv db' \<and>
    kv_abs db' = (if has_list db k then (kv_abs db)(k \<mapsto> AList (tl (list_at db k))) else kv_abs db)"
  using change_cmd [where f = dlist_pop_left and g = tl and h = "\<lambda>v. v" and dflt = None and k = k
      and r = "\<lambda>xs. if xs = [] then None else Some (hd xs)", OF assms dlist_pop_left_ok] no_list [of db k]
  unfolding kv_lpop_def has_list_def [symmetric] by (cases "has_list db k") simp_all

lemma kv_rpop_ok:
  assumes "kv_inv db"
  shows "\<exists>db'. kv_rpop db k = Inr (if list_at db k = [] then None else Some (last (list_at db k)), db') \<and> kv_inv db' \<and>
    kv_abs db' = (if has_list db k then (kv_abs db)(k \<mapsto> AList (butlast (list_at db k))) else kv_abs db)"
  using change_cmd [where f = dlist_pop_right and g = butlast and h = "\<lambda>v. v" and dflt = None and k = k
      and r = "\<lambda>xs. if xs = [] then None else Some (last xs)", OF assms dlist_pop_right_ok] no_list [of db k]
  unfolding kv_rpop_def has_list_def [symmetric] by (cases "has_list db k") simp_all

lemma kv_lrem_ok:
  assumes "kv_inv db"
  shows "\<exists>db'. kv_lrem db k c v = Inr ((0, rem_count c v (list_at db k)), db') \<and> kv_inv db' \<and>
    kv_abs db' = (if has_list db k then (kv_abs db)(k \<mapsto> AList (rem_list c v (list_at db k))) else kv_abs db)"
  using change_cmd [where f = "\<lambda>l. dlist_rem l c v" and g = "rem_list c v" and h = "\<lambda>r. (0, r)" and dflt = "(0, 0)" and k = k
      and r = "rem_count c v", OF assms dlist_rem_ok] no_list [of db k]
  unfolding kv_lrem_def has_list_def [symmetric] by (cases "has_list db k") simp_all

lemma kv_llen_ok: "kv_inv db \<Longrightarrow> kv_llen db k = (0, length (list_at db k))"
proof (cases "wr_obj db k as_list")
  case (Some p)
  assume inv: "kv_inv db"
  obtain idx obj l where w: "wr_obj db k as_list = Some (idx, obj, l)" using Some by (cases p) auto
  note o = wr_obj_Some [OF inv w]
  from as_list_inv [OF o(3,2)] show ?thesis using w wr_obj_at(1) [OF inv, of k]
    by (simp add: kv_llen_def dlist_len_ok)
qed (simp add: kv_llen_def wr_obj_at(1))

lemma kv_lindex_ok:
  assumes inv: "kv_inv db"
  shows "kv_lindex db k idx = Inr (let n = int (length (list_at db k)); i = (if idx < 0 then idx + n else idx) in
    if 0 \<le> i \<and> i < n then Some (list_at db k ! nat i) else None)"
proof (cases "wr_obj db k as_list")
  case None
  then have "list_at db k = []" using wr_obj_at(1) [OF inv, of k] by simp
  with None show ?thesis by (simp add: kv_lindex_def Let_def)
next
  case (Some p)
  then obtain j obj l where w: "wr_obj db k as_list = Some (j, obj, l)" by (cases p) auto
  note o = wr_obj_Some [OF inv w]
  have l: "dlist_inv l" "list_at db k = dlist_list l"
    using as_list_inv [OF o(3,2)] w wr_obj_at(1) [OF inv, of k] by simp_all
  with w dlist_get_ok [OF l(1), of idx] dlist_len_ok [OF l(1)] show ?thesis
    by (auto simp: kv_lindex_def dl_index_def Let_def)
qed

lemma kv_lset_ok:
  assumes "kv_inv db"
  shows "\<exists>r db'. kv_lset db k idx v = Inr (r, db') \<and> kv_inv db' \<and>
    (let n = int (length (list_at db k)); i = (if idx < 0 then idx + n else idx) in
     if 0 \<le> i \<and> i < n then r = 0 \<and> kv_abs db' = (kv_abs db)(k \<mapsto> AList ((list_at db k)[nat i := v]))
     else r = -1 \<and> kv_abs db' = kv_abs db)"
proof (cases "wr_obj db k as_list")
  case None
  then have "list_at db k = []" using wr_obj_at(1) [OF assms, of k] by simp
  with None assms show ?thesis by (simp add: kv_lset_def Let_def)
next
  case (Some p)
  then obtain j obj l where w: "wr_obj db k as_list = Some (j, obj, l)" by (cases p) auto
  note o = wr_obj_Some [OF assms w]
  have l: "dlist_inv l" "list_at db k = dlist_list l" "kv_abs db k = Some (AList (dlist_list l))"
    using as_list_inv [OF o(3,2)] w wr_obj_at(1) [OF assms, of k] o(2,4) as_list_abs by simp_all
  from dlist_set_ok [OF l(1), of idx v] obtain l' where
    l': "dlist_set l idx v = Inr (if dl_index l idx = None then -1 else 0, l')" "dlist_inv l'"
      "dlist_list l' = (case dl_index l idx of None \<Rightarrow> dlist_list l | Some i \<Rightarrow> (dlist_list l)[i := v])" by blast
  have "obj_inv (obj\<lparr>o_val := OBJ_LIST l'\<rparr>)" using l'(2) by simp
  note p = put_val_ok [OF assms o(1) this]
  have same: "(kv_abs db)(k \<mapsto> AList (dlist_list l)) = kv_abs db" using l(3) by (rule map_upd_triv)
  show ?thesis
    using w l' p l(2) dlist_len_ok [OF l(1)] same
    by (auto simp: kv_lset_def dl_index_def Let_def split: if_splits)
qed

lemma put_val_can_grow [simp]: "can_grow mem (put_val idx obj v db) = can_grow mem db"
  by (simp add: can_grow_def overfull_def put_val_def put_obj_def)

lemma kv_rpop_can_grow:
  "kv_rpop db k = Inr (v, db') \<Longrightarrow> can_grow mem db' = can_grow mem db"
  by (auto simp: kv_rpop_def split: option.splits prod.splits)

text \<open>\<open>RPOPLPUSH\<close> moves the last value of one list to the front of another, or rotates a list.\<close>

lemma kv_lpoprpush_ok:
  assumes inv: "kv_inv db" and grow: "can_grow mem db" and src: "list_at db src = xs @ [v]" and dst: "dst \<in> dom (kv_abs db)"
  shows "\<exists>db'. kv_lpoprpush mem db src dst = Inr (Some v, db') \<and> kv_inv db' \<and>
    kv_abs db' = ((kv_abs db)(src \<mapsto> AList xs))(dst \<mapsto> AList (v # (if src = dst then xs else list_at db dst)))"
proof -
  have has: "has_list db src" using no_list [of db src] src by auto
  obtain d where d: "kv_rpop db src = Inr (Some v, d)" "kv_inv d" "kv_abs d = (kv_abs db)(src \<mapsto> AList xs)"
    using kv_rpop_ok [OF inv, of src] src has by (auto simp del: fun_upd_apply)
  have gd: "can_grow mem d" using kv_rpop_can_grow [OF d(1)] grow by simp
  have "dst \<in> dom (kv_abs d)" using dst d(3) by simp
  then have "kept mem d dst = kv_abs d" by (rule kept_present [OF d(2) gd])
  moreover have "list_at d dst = (if src = dst then xs else list_at db dst)" using d(3) by (auto simp: list_at_def)
  ultimately obtain r db' where "kv_lpush mem d dst v = Inr (r, db')" "kv_inv db'"
    "kv_abs db' = (kv_abs d)(dst \<mapsto> AList (v # (if src = dst then xs else list_at db dst)))"
    using kv_lpush_ok [OF d(2) gd, of dst v] by (auto simp del: fun_upd_apply)
  with d(1,3) show ?thesis by (simp add: kv_lpoprpush_def del: fun_upd_apply)
qed

end
