(* ===== verification/Table_Commands.thy ===== *)
theory Table_Commands
  imports Typed_Access
begin

text \<open>
  The set and hash commands of \<open>src/src/core/kvdb.c\<close> (\<open>kv_sadd\<close> to \<open>kv_hgetall\<close>), on the chained
  hash table. The loops over the arguments use the laws of the dictionary contract.
\<close>

subsection \<open>Set commands\<close>

fun sadd_loop :: "simple_ht \<Rightarrow> string list \<Rightarrow> int \<Rightarrow> (int \<times> simple_ht) res" where
  "sadd_loop ht [] a = Inr (a, ht)"
| "sadd_loop ht (m # ms) a =
     bindr (ht_add ht m None False) (\<lambda>(c, ht). sadd_loop ht ms (if c = 1 then a + 1 else a))"

definition kv_sadd :: "(nat \<Rightarrow> bool) \<Rightarrow> kv_table \<Rightarrow> string \<Rightarrow> string list \<Rightarrow> ((int \<times> int option) \<times> kv_table) res" where
  "kv_sadd mem db key members =
     bindr (wr_set_obj mem db key) (\<lambda>(p, db). case p of
       None \<Rightarrow> Inr ((-1, None), db)
     | Some _ \<Rightarrow>
         bindr (cast_obj p as_set) (\<lambda>(idx, obj, ht).
         bindr (sadd_loop ht members 0) (\<lambda>(a, ht).
         Inr ((0, Some a), put_val idx obj (OBJ_SET ht) db))))"

fun remove_loop :: "simple_ht \<Rightarrow> string list \<Rightarrow> int \<Rightarrow> int \<times> simple_ht" where
  "remove_loop ht [] r = (r, ht)"
| "remove_loop ht (m # ms) r = (case ht_remove ht m of (c, ht) \<Rightarrow> remove_loop ht ms (if c = 1 then r + 1 else r))"

definition kv_srem :: "kv_table \<Rightarrow> string \<Rightarrow> string list \<Rightarrow> (int \<times> int) \<times> kv_table" where
  "kv_srem db key members = (case wr_obj db key as_set of
       None \<Rightarrow> ((0, 0), db)
     | Some (idx, obj, ht) \<Rightarrow>
         (let (r, ht) = remove_loop ht members 0 in ((0, r), put_val idx obj (OBJ_SET ht) db)))"

definition kv_sismember :: "kv_table \<Rightarrow> string \<Rightarrow> string \<Rightarrow> int" where
  "kv_sismember db key member = (case wr_obj db key as_set of
       None \<Rightarrow> 0
     | Some (_, _, ht) \<Rightarrow> ht_exists ht member)"

definition kv_scard :: "kv_table \<Rightarrow> string \<Rightarrow> int \<times> nat" where
  "kv_scard db key = (case wr_obj db key as_set of None \<Rightarrow> (0, 0) | Some (_, _, ht) \<Rightarrow> (0, ht_count ht))"

definition kv_smembers :: "kv_table \<Rightarrow> string \<Rightarrow> int \<times> string list" where
  "kv_smembers db key = (case wr_obj db key as_set of None \<Rightarrow> (0, []) | Some (_, _, ht) \<Rightarrow> (0, ht_keys ht))"

subsection \<open>Hash commands\<close>

definition kv_hset :: "(nat \<Rightarrow> bool) \<Rightarrow> kv_table \<Rightarrow> string \<Rightarrow> string \<Rightarrow> string \<Rightarrow> ((int \<times> int option) \<times> kv_table) res" where
  "kv_hset mem db key field value =
     bindr (wr_hash mem db key) (\<lambda>(p, db). case p of
       None \<Rightarrow> Inr ((-1, None), db)
     | Some _ \<Rightarrow>
         bindr (cast_obj p as_hash) (\<lambda>(idx, obj, ht).
         let existed = ht_exists ht field in
         bindr (ht_add ht field (Some value) True) (\<lambda>(_, ht).
         Inr ((0, Some (if existed \<noteq> 0 then 0 else 1)), put_val idx obj (OBJ_HASH ht) db))))"

definition kv_hget :: "kv_table \<Rightarrow> string \<Rightarrow> string \<Rightarrow> string option" where
  "kv_hget db key field = (case wr_obj db key as_hash of None \<Rightarrow> None | Some (_, _, ht) \<Rightarrow> ht_get ht field)"

definition kv_hdel :: "kv_table \<Rightarrow> string \<Rightarrow> string list \<Rightarrow> (int \<times> int) \<times> kv_table" where
  "kv_hdel db key flds = (case wr_obj db key as_hash of
       None \<Rightarrow> ((0, 0), db)
     | Some (idx, obj, ht) \<Rightarrow>
         (let (r, ht) = remove_loop ht flds 0 in ((0, r), put_val idx obj (OBJ_HASH ht) db)))"

definition kv_hexists :: "kv_table \<Rightarrow> string \<Rightarrow> string \<Rightarrow> int" where
  "kv_hexists db key field = (case wr_obj db key as_hash of None \<Rightarrow> 0 | Some (_, _, ht) \<Rightarrow> ht_exists ht field)"

definition kv_hlen :: "kv_table \<Rightarrow> string \<Rightarrow> int \<times> nat" where
  "kv_hlen db key = (case wr_obj db key as_hash of None \<Rightarrow> (0, 0) | Some (_, _, ht) \<Rightarrow> (0, ht_count ht))"

definition kv_hkeys :: "kv_table \<Rightarrow> string \<Rightarrow> int \<times> string list" where
  "kv_hkeys db key = (case wr_obj db key as_hash of None \<Rightarrow> (0, []) | Some (_, _, ht) \<Rightarrow> (0, ht_keys ht))"

definition kv_hvals :: "kv_table \<Rightarrow> string \<Rightarrow> int \<times> string list" where
  "kv_hvals db key = (case wr_obj db key as_hash of None \<Rightarrow> (0, []) | Some (_, _, ht) \<Rightarrow> (0, ht_items ht))"

text \<open>Field and value alternate.\<close>

fun hgetall_loop :: "simple_ht \<Rightarrow> string list \<Rightarrow> string list" where
  "hgetall_loop ht [] = []"
| "hgetall_loop ht (k # ks) = k # (case ht_get ht k of Some v \<Rightarrow> v | None \<Rightarrow> '''') # hgetall_loop ht ks"

definition kv_hgetall :: "kv_table \<Rightarrow> string \<Rightarrow> int \<times> string list" where
  "kv_hgetall db key = (case wr_obj db key as_hash of None \<Rightarrow> (0, []) | Some (_, _, ht) \<Rightarrow> (0, hgetall_loop ht (ht_keys ht)))"

subsection \<open>Behaviour\<close>

lemma table_val_inv [simp]:
  "obj_inv (obj\<lparr>o_val := OBJ_SET h\<rparr>) = ht_inv h" "obj_inv (obj\<lparr>o_val := OBJ_HASH h\<rparr>) = ht_inv h"
  by (simp_all add: obj_inv_def)

lemma as_table_inv:
  "obj_inv obj \<Longrightarrow> as_set (o_val obj) = Some h \<Longrightarrow> ht_inv h" "obj_inv obj \<Longrightarrow> as_hash (o_val obj) = Some h \<Longrightarrow> ht_inv h"
  by (cases "o_val obj"; auto simp: obj_inv_def)+

lemma as_table_abs:
  "as_set v = Some h \<Longrightarrow> absval v = ASet (dom (ht_map h))" "as_hash v = Some h \<Longrightarrow> absval v = AHash (ht_map h)"
  by (cases v; auto)+

lemma sadd_loop_eq: "sadd_loop ht ms a = ht.add_all ht ms None a"
  by (induction ht ms a rule: sadd_loop.induct) (auto simp: bindr_def split: sum.splits prod.splits)

lemma remove_loop_eq: "remove_loop ht ms r = ht.remove_all ht ms r"
  by (induction ht ms r rule: remove_loop.induct) (auto split: prod.splits)

lemma fetched_table:
  assumes "kv_inv db"
  shows "fetched mem db k as_set ht_create idx obj h d \<Longrightarrow> ht_inv h \<and> dom (ht_map h) = set_at db k"
    "fetched mem db k as_hash ht_create idx obj h d \<Longrightarrow> ht_inv h \<and> ht_map h = hash_at db k"
proof -
  have o: "obj_inv obj" if "fetched mem db k ty ht_create idx obj h d" for ty
    using that kv_find_abs(2) by (auto simp: fetched_def)
  show "ht_inv h \<and> dom (ht_map h) = set_at db k" if "fetched mem db k as_set ht_create idx obj h d"
    using that o [OF that] as_table_inv(1) ht_create_ok wr_obj_at(2) [OF assms, of k] by (auto simp: fetched_def)
  show "ht_inv h \<and> ht_map h = hash_at db k" if "fetched mem db k as_hash ht_create idx obj h d"
    using that o [OF that] as_table_inv(2) ht_create_ok wr_obj_at(3) [OF assms, of k] by (auto simp: fetched_def)
qed

lemma kv_sadd_ok:
  assumes "kv_inv db" "can_grow mem db"
  shows "\<exists>db'. kv_sadd mem db k ms = Inr ((0, Some (int (card (set ms - set_at db k)))), db') \<and> kv_inv db' \<and>
    kv_abs db' = (kept mem db k)(k \<mapsto> ASet (set_at db k \<union> set ms))"
proof -
  from wr_set_obj_ok [OF assms] obtain idx obj h d where
    w: "wr_set_obj mem db k = Inr (Some (idx, obj), d)" "cast_obj (Some (idx, obj)) as_set = Inr (idx, obj, h)"
    and f: "fetched mem db k as_set ht_create idx obj h d" by blast
  have h: "ht_inv h" "dom (ht_map h) = set_at db k" using fetched_table(1) [OF assms(1) f] by auto
  from ht.add_all_ok [OF h(1), of ms None 0] obtain h' where
    h': "sadd_loop h ms 0 = Inr (int (card (set ms - set_at db k)), h')" "ht_inv h'"
      "dom (ht_map h') = set_at db k \<union> set ms" by (auto simp: sadd_loop_eq h(2))
  from f have d: "kv_inv d" "kv_find d k = Some (idx, obj)" "\<And>v. (kv_abs d)(k \<mapsto> v) = (kept mem db k)(k \<mapsto> v)"
    by (auto simp: fetched_def)
  have "obj_inv (obj\<lparr>o_val := OBJ_SET h'\<rparr>)" using h'(2) by simp
  from put_val_ok [OF d(1,2) this] d(3) h' w show ?thesis
    by (simp add: kv_sadd_def del: bindr_eq_Inr fun_upd_apply)
qed

lemma kv_hset_ok:
  assumes "kv_inv db" "can_grow mem db"
  shows "\<exists>db'. kv_hset mem db k fld v = Inr ((0, Some (if fld \<in> dom (hash_at db k) then 0 else 1)), db') \<and> kv_inv db' \<and>
    kv_abs db' = (kept mem db k)(k \<mapsto> AHash ((hash_at db k)(fld \<mapsto> Some v)))"
proof -
  from wr_hash_ok [OF assms] obtain idx obj h d where
    w: "wr_hash mem db k = Inr (Some (idx, obj), d)" "cast_obj (Some (idx, obj)) as_hash = Inr (idx, obj, h)"
    and f: "fetched mem db k as_hash ht_create idx obj h d" by blast
  have h: "ht_inv h" "ht_map h = hash_at db k" using fetched_table(2) [OF assms(1) f] by auto
  from ht_add_ok [OF h(1), of fld "Some v" True] h(2) obtain r h' where
    h': "ht_add h fld (Some v) True = Inr (r, h')" "ht_inv h'" "ht_map h' = (hash_at db k)(fld \<mapsto> Some v)" by auto
  from f have d: "kv_inv d" "kv_find d k = Some (idx, obj)" "\<And>v. (kv_abs d)(k \<mapsto> v) = (kept mem db k)(k \<mapsto> v)"
    by (auto simp: fetched_def)
  have "obj_inv (obj\<lparr>o_val := OBJ_HASH h'\<rparr>)" using h'(2) by simp
  from put_val_ok [OF d(1,2) this] d(3) h' w h(2) show ?thesis
    by (simp add: kv_hset_def ht_exists_ok Let_def del: bindr_eq_Inr fun_upd_apply)
qed

lemma remove_cmd:
  assumes inv: "kv_inv db" and w: "wr_obj db k type = Some (idx, obj, h)" and h: "ht_inv h"
    and con: "\<And>h'. ht_inv h' \<Longrightarrow> obj_inv (obj\<lparr>o_val := con h'\<rparr>)"
  shows "\<exists>h' db'. remove_loop h ms 0 = (int (card (set ms \<inter> dom (ht_map h))), h') \<and> db' = put_val idx obj (con h') db \<and>
    ht_map h' = ht_map h |` (- set ms) \<and> kv_inv db' \<and> kv_abs db' = (kv_abs db)(k \<mapsto> absval (con h'))"
proof -
  from ht.remove_all_ok [OF h, of ms 0] obtain h' where
    "remove_loop h ms 0 = (int (card (set ms \<inter> dom (ht_map h))), h')" "ht_inv h'" "ht_map h' = ht_map h |` (- set ms)"
    by (auto simp: remove_loop_eq)
  with put_val_ok [OF inv wr_obj_Some(1) [OF inv w] con] show ?thesis by blast
qed

lemma kv_srem_ok:
  assumes inv: "kv_inv db"
  shows "\<exists>db'. kv_srem db k ms = ((0, int (card (set ms \<inter> set_at db k))), db') \<and> kv_inv db' \<and>
    (\<forall>k'. kv_abs db' k' = (if k' = k \<and> (\<exists>s. kv_abs db k = Some (ASet s)) then Some (ASet (set_at db k - set ms)) else kv_abs db k'))"
proof (cases "wr_obj db k as_set")
  case None
  have "\<nexists>s. kv_abs db k = Some (ASet s)"
  proof
    assume "\<exists>s. kv_abs db k = Some (ASet s)"
    then obtain obj where o: "kv_map db k = Some obj" "\<exists>s. absval (o_val obj) = ASet s" by (auto simp: kv_abs_def)
    then obtain h where "o_val obj = OBJ_SET h" by (auto simp: absval_def split: obj_val.splits)
    with None kv_find_map [OF inv o(1)] show False by (auto simp: wr_obj_def)
  qed
  with None inv wr_obj_at(2) [OF inv, of k] show ?thesis by (auto simp: kv_srem_def)
next
  case (Some p)
  then obtain idx obj h where w: "wr_obj db k as_set = Some (idx, obj, h)" by (cases p) auto
  note o = wr_obj_Some [OF inv w]
  have s: "set_at db k = dom (ht_map h)" "kv_abs db k = Some (ASet (dom (ht_map h)))"
    using w wr_obj_at(2) [OF inv, of k] o(2,4) as_table_abs(1) by simp_all
  from remove_cmd [OF inv w as_table_inv(1) [OF o(3,2)], where con = OBJ_SET and ms = ms] obtain h' db' where
    r: "remove_loop h ms 0 = (int (card (set ms \<inter> dom (ht_map h))), h')" "db' = put_val idx obj (OBJ_SET h') db"
      "ht_map h' = ht_map h |` (- set ms)" "kv_inv db'" "kv_abs db' = (kv_abs db)(k \<mapsto> absval (OBJ_SET h'))" by auto
  have "dom (ht_map h') = dom (ht_map h) - set ms" using r(3) by auto
  with r w s show ?thesis by (auto simp: kv_srem_def)
qed

lemma kv_hdel_ok:
  assumes inv: "kv_inv db"
  shows "\<exists>db'. kv_hdel db k ms = ((0, int (card (set ms \<inter> dom (hash_at db k)))), db') \<and> kv_inv db' \<and>
    (\<forall>k'. kv_abs db' k' = (if k' = k \<and> (\<exists>s. kv_abs db k = Some (AHash s)) then Some (AHash (hash_at db k |` (- set ms))) else kv_abs db k'))"
proof (cases "wr_obj db k as_hash")
  case None
  have "\<nexists>s. kv_abs db k = Some (AHash s)"
  proof
    assume "\<exists>s. kv_abs db k = Some (AHash s)"
    then obtain obj where o: "kv_map db k = Some obj" "\<exists>s. absval (o_val obj) = AHash s" by (auto simp: kv_abs_def)
    then obtain h where "o_val obj = OBJ_HASH h" by (auto simp: absval_def split: obj_val.splits)
    with None kv_find_map [OF inv o(1)] show False by (auto simp: wr_obj_def)
  qed
  with None inv wr_obj_at(3) [OF inv, of k] show ?thesis by (auto simp: kv_hdel_def)
next
  case (Some p)
  then obtain idx obj h where w: "wr_obj db k as_hash = Some (idx, obj, h)" by (cases p) auto
  note o = wr_obj_Some [OF inv w]
  have s: "hash_at db k = ht_map h" "kv_abs db k = Some (AHash (ht_map h))"
    using w wr_obj_at(3) [OF inv, of k] o(2,4) as_table_abs(2) by simp_all
  from remove_cmd [OF inv w as_table_inv(2) [OF o(3,2)], where con = OBJ_HASH and ms = ms] obtain h' db' where
    r: "remove_loop h ms 0 = (int (card (set ms \<inter> dom (ht_map h))), h')" "db' = put_val idx obj (OBJ_HASH h') db"
      "ht_map h' = ht_map h |` (- set ms)" "kv_inv db'" "kv_abs db' = (kv_abs db)(k \<mapsto> absval (OBJ_HASH h'))" by auto
  with w s show ?thesis by (auto simp: kv_hdel_def)
qed

text \<open>The reading commands.\<close>

lemma set_reads:
  assumes inv: "kv_inv db"
  shows "kv_sismember db k m = (if m \<in> set_at db k then 1 else 0)" "kv_scard db k = (0, card (set_at db k))"
    "\<exists>ms. kv_smembers db k = (0, ms) \<and> distinct ms \<and> set ms = set_at db k"
proof -
  have "kv_sismember db k m = (if m \<in> set_at db k then 1 else 0) \<and> kv_scard db k = (0, card (set_at db k)) \<and>
    (\<exists>ms. kv_smembers db k = (0, ms) \<and> distinct ms \<and> set ms = set_at db k)"
  proof (cases "wr_obj db k as_set")
    case None
    then show ?thesis using wr_obj_at(2) [OF inv, of k] by (simp add: kv_sismember_def kv_scard_def kv_smembers_def)
  next
    case (Some p)
    then obtain idx obj h where w: "wr_obj db k as_set = Some (idx, obj, h)" by (cases p) auto
    note h = as_table_inv(1) [OF wr_obj_Some(3,2) [OF inv w]]
    have "set_at db k = dom (ht_map h)" using w wr_obj_at(2) [OF inv, of k] by simp
    with w h show ?thesis using ht_count_card [OF h] ht_keys_ok [OF h]
      by (simp add: kv_sismember_def kv_scard_def kv_smembers_def ht_exists_ok)
  qed
  then show "kv_sismember db k m = (if m \<in> set_at db k then 1 else 0)" "kv_scard db k = (0, card (set_at db k))"
    "\<exists>ms. kv_smembers db k = (0, ms) \<and> distinct ms \<and> set ms = set_at db k" by auto
qed

lemma hgetall_loop_eq: "hgetall_loop ht ks = concat (map (\<lambda>k. [k, case ht_get ht k of Some v \<Rightarrow> v | None \<Rightarrow> '''']) ks)"
  by (induction ks) auto

definition field_val :: "(string \<rightharpoonup> string option) \<Rightarrow> string \<Rightarrow> string" where
  "field_val h f = (case h f of Some (Some v) \<Rightarrow> v | _ \<Rightarrow> '''')"

lemma hash_reads:
  assumes inv: "kv_inv db"
  shows "kv_hget db k f = Option.bind (hash_at db k f) id" "kv_hexists db k f = (if f \<in> dom (hash_at db k) then 1 else 0)"
    "kv_hlen db k = (0, card (dom (hash_at db k)))"
    "\<exists>fs. kv_hkeys db k = (0, fs) \<and> distinct fs \<and> set fs = dom (hash_at db k) \<and>
        kv_hvals db k = (0, map (field_val (hash_at db k)) fs) \<and>
        kv_hgetall db k = (0, concat (map (\<lambda>f. [f, field_val (hash_at db k) f]) fs))"
proof -
  have "kv_hget db k f = Option.bind (hash_at db k f) id \<and> kv_hexists db k f = (if f \<in> dom (hash_at db k) then 1 else 0) \<and>
    kv_hlen db k = (0, card (dom (hash_at db k))) \<and>
    (\<exists>fs. kv_hkeys db k = (0, fs) \<and> distinct fs \<and> set fs = dom (hash_at db k) \<and>
        kv_hvals db k = (0, map (field_val (hash_at db k)) fs) \<and>
        kv_hgetall db k = (0, concat (map (\<lambda>f. [f, field_val (hash_at db k) f]) fs)))"
  proof (cases "wr_obj db k as_hash")
    case None
    then show ?thesis using wr_obj_at(3) [OF inv, of k]
      by (simp add: kv_hget_def kv_hexists_def kv_hlen_def kv_hkeys_def kv_hvals_def kv_hgetall_def)
  next
    case (Some p)
    then obtain idx obj h where w: "wr_obj db k as_hash = Some (idx, obj, h)" by (cases p) auto
    note h = as_table_inv(2) [OF wr_obj_Some(3,2) [OF inv w]]
    have m: "hash_at db k = ht_map h" using w wr_obj_at(3) [OF inv, of k] by simp
    have fv: "(case ht_get h f of None \<Rightarrow> '''' | Some v \<Rightarrow> v) = field_val (ht_map h) f" for f
      by (simp add: ht_get_ok field_val_def split: option.splits bind_splits)
    from w h m show ?thesis using ht_count_card [OF h] ht_keys_ok [OF h] ht_items_ok [OF h] fv
      by (simp add: kv_hget_def kv_hexists_def kv_hlen_def kv_hkeys_def kv_hvals_def kv_hgetall_def
          ht_exists_ok hgetall_loop_eq) (simp add: ht_get_ok)
  qed
  then show "kv_hget db k f = Option.bind (hash_at db k f) id" "kv_hexists db k f = (if f \<in> dom (hash_at db k) then 1 else 0)"
    "kv_hlen db k = (0, card (dom (hash_at db k)))"
    "\<exists>fs. kv_hkeys db k = (0, fs) \<and> distinct fs \<and> set fs = dom (hash_at db k) \<and>
        kv_hvals db k = (0, map (field_val (hash_at db k)) fs) \<and>
        kv_hgetall db k = (0, concat (map (\<lambda>f. [f, field_val (hash_at db k) f]) fs))" by auto
qed

end
