(* ===== verification/Zset_Commands.thy ===== *)
theory Zset_Commands
  imports Typed_Access
begin

text \<open>
  The sorted set commands of \<open>src/src/core/kvdb.c\<close> (\<open>kv_zadd\<close> to \<open>kv_zrevrange\<close>), on the skip list.
  \<open>rs\<close> is the sequence of values of \<open>rand()\<close> that \<open>zsl_insert\<close> draws.
\<close>

definition kv_zadd ::
  "(nat \<Rightarrow> bool) \<Rightarrow> (nat \<Rightarrow> nat) \<Rightarrow> kv_table \<Rightarrow> string \<Rightarrow> double \<Rightarrow> string \<Rightarrow> ((int \<times> int option) \<times> kv_table) res" where
  "kv_zadd mem rs db key score member =
     bindr (case wr_obj db key as_zset of
              Some (idx, obj, _) \<Rightarrow> Inr (Inr (Some (idx, obj)), db)
            | None \<Rightarrow>
                bindr (kv_set_object mem db key obj_create_zset None) (\<lambda>(r, db).
                if r \<noteq> 0 then bindr (obj_free obj_create_zset) (\<lambda>_. Inr (Inl (), db))
                else Inr (Inr (kv_get_object db key), db))) (\<lambda>(p, db).
     case p of
       Inl _ \<Rightarrow> Inr ((-1, None), db)
     | Inr p \<Rightarrow>
         bindr (cast_obj p as_zset) (\<lambda>(idx, obj, z).
         bindr (zsl_insert rs z score member) (\<lambda>(_, z).
         Inr ((0, Some 1), put_val idx obj (OBJ_ZSET z) db))))"

definition kv_zrem :: "kv_table \<Rightarrow> string \<Rightarrow> string \<Rightarrow> ((int \<times> int) \<times> kv_table) res" where
  "kv_zrem db key member = (case wr_obj db key as_zset of
       None \<Rightarrow> Inr ((0, 0), db)
     | Some (idx, obj, z) \<Rightarrow>
         bindr (zsl_delete z member) (\<lambda>(r, z). Inr ((0, r), put_val idx obj (OBJ_ZSET z) db)))"

text \<open>The loop of \<open>kv_zscore\<close> and \<open>kv_zrank\<close>: the score of the first node of the member.\<close>

fun zfind_loop :: "nat \<Rightarrow> zskiplist_node heap \<Rightarrow> addr option \<Rightarrow> string \<Rightarrow> double option res" where
  "zfind_loop fuel h None member = Inr None"
| "zfind_loop 0 h (Some n) member = Inl Diverges"
| "zfind_loop (Suc fuel) h (Some n) member =
     bindr (deref h n) (\<lambda>nd.
     if strcmp (zn_member nd) member = 0 then Inr (Some (zn_score nd))
     else bindr (z_fwd h n 0) (\<lambda>p. zfind_loop fuel h p member))"

definition zfind :: "zskiplist \<Rightarrow> string \<Rightarrow> double option res" where
  "zfind z member = bindr (z_fwd (z_heap z) (z_header z) 0) (\<lambda>p. zfind_loop (z_brk z) (z_heap z) p member)"

definition kv_zscore :: "kv_table \<Rightarrow> string \<Rightarrow> string \<Rightarrow> (double \<times> int) res" where
  "kv_zscore db key member = (case wr_obj db key as_zset of
       None \<Rightarrow> Inr (0, 0)
     | Some (_, _, z) \<Rightarrow>
         bindr (zfind z member) (\<lambda>s. Inr (case s of Some sc \<Rightarrow> (sc, 1) | None \<Rightarrow> (0, 0))))"

definition kv_zcard :: "kv_table \<Rightarrow> string \<Rightarrow> int \<times> nat" where
  "kv_zcard db key = (case wr_obj db key as_zset of None \<Rightarrow> (0, 0) | Some (_, _, z) \<Rightarrow> (0, z_length z))"

definition kv_zrank :: "kv_table \<Rightarrow> string \<Rightarrow> string \<Rightarrow> (int \<times> int) res" where
  "kv_zrank db key member = (case wr_obj db key as_zset of
       None \<Rightarrow> Inr (0, -1)
     | Some (_, _, z) \<Rightarrow>
         bindr (zfind z member) (\<lambda>s. case s of
           None \<Rightarrow> Inr (0, -1)
         | Some sc \<Rightarrow> bindr (zsl_rank z sc member) (\<lambda>r. Inr (0, r))))"

definition kv_zrevrank :: "kv_table \<Rightarrow> string \<Rightarrow> string \<Rightarrow> (int \<times> int) res" where
  "kv_zrevrank db key member = (case wr_obj db key as_zset of
       None \<Rightarrow> Inr (0, -1)
     | Some (_, _, z) \<Rightarrow>
         bindr (kv_zscore db key member) (\<lambda>(sc, found).
         if found = 0 then Inr (0, -1)
         else bindr (zsl_revrank z sc member) (\<lambda>r. Inr (0, r))))"

text \<open>The copying loops: \<open>n\<close> members still wanted, \<open>i\<close> the index of the node.\<close>

fun zrange_loop :: "nat \<Rightarrow> zskiplist_node heap \<Rightarrow> addr option \<Rightarrow> int \<Rightarrow> int \<Rightarrow> nat \<Rightarrow> string list res" where
  "zrange_loop fuel h p i start 0 = Inr []"
| "zrange_loop fuel h None i start (Suc n) = Inr []"
| "zrange_loop 0 h (Some a) i start (Suc n) = Inl Diverges"
| "zrange_loop (Suc fuel) h (Some a) i start (Suc n) =
     bindr (deref h a) (\<lambda>nd.
     bindr (z_fwd h a 0) (\<lambda>p.
     if i \<ge> start then bindr (zrange_loop fuel h p (i + 1) start n) (\<lambda>ms. Inr (zn_member nd # ms))
     else zrange_loop fuel h p (i + 1) start (Suc n)))"

fun zrevrange_loop :: "nat \<Rightarrow> zskiplist_node heap \<Rightarrow> addr option \<Rightarrow> int \<Rightarrow> int \<Rightarrow> int \<Rightarrow> nat \<Rightarrow> string list res" where
  "zrevrange_loop fuel h p len i start 0 = Inr []"
| "zrevrange_loop fuel h None len i start (Suc n) = Inr []"
| "zrevrange_loop 0 h (Some a) len i start (Suc n) = Inl Diverges"
| "zrevrange_loop (Suc fuel) h (Some a) len i start (Suc n) =
     bindr (deref h a) (\<lambda>nd.
     let p = (if i < len - 1 then zn_backward nd else None) in
     if i \<ge> start then bindr (zrevrange_loop fuel h p len (i + 1) start n) (\<lambda>ms. Inr (zn_member nd # ms))
     else zrevrange_loop fuel h p len (i + 1) start (Suc n))"

text \<open>The bounds: negative ones count from the end; \<open>None\<close> for an empty range.\<close>

definition zbounds :: "int \<Rightarrow> int \<Rightarrow> int \<Rightarrow> (int \<times> int) option" where
  "zbounds len start stop =
     (let start = (if start < 0 then start + len else start);
          stop = (if stop < 0 then stop + len else stop);
          start = (if start < 0 then 0 else start);
          stop = (if stop \<ge> len then len - 1 else stop) in
      if start > stop then None else Some (start, stop))"

definition kv_zrange :: "kv_table \<Rightarrow> string \<Rightarrow> int \<Rightarrow> int \<Rightarrow> (int \<times> string list) res" where
  "kv_zrange db key start stop = (case wr_obj db key as_zset of
       None \<Rightarrow> Inr (0, [])
     | Some (_, _, z) \<Rightarrow>
         (case zbounds (int (z_length z)) start stop of
            None \<Rightarrow> Inr (0, [])
          | Some (start, stop) \<Rightarrow>
              bindr (z_fwd (z_heap z) (z_header z) 0) (\<lambda>p.
              bindr (zrange_loop (z_brk z) (z_heap z) p 0 start (nat (stop - start + 1))) (\<lambda>ms. Inr (0, ms)))))"

definition kv_zrevrange :: "kv_table \<Rightarrow> string \<Rightarrow> int \<Rightarrow> int \<Rightarrow> (int \<times> string list) res" where
  "kv_zrevrange db key start stop = (case wr_obj db key as_zset of
       None \<Rightarrow> Inr (0, [])
     | Some (_, _, z) \<Rightarrow>
         (case zbounds (int (z_length z)) start stop of
            None \<Rightarrow> Inr (0, [])
          | Some (start, stop) \<Rightarrow>
              bindr (zrevrange_loop (z_brk z) (z_heap z) (z_tail z) (int (z_length z)) 0 start
                       (nat (stop - start + 1))) (\<lambda>ms. Inr (0, ms))))"

subsection \<open>Walking the skip list\<close>

lemma zwalk_node:
  assumes "zfwd h (a # as)" "\<forall>b \<in> set (a # as). 1 \<le> height h b"
  shows "\<exists>nd. h a = Some nd \<and> z_fwd h a 0 = Inr (first_or None as)"
  using zfwd_node [of h "[]" a as] z_fwd_rep [of h "[]" a as 0] assms by (auto simp: nxt_0)

lemma zsl_first:
  assumes "zsl_rep z as"
  shows "z_fwd (z_heap z) (z_header z) 0 = Inr (first_or None as)" "zfwd (z_heap z) as"
    "\<forall>a \<in> set as. 1 \<le> height (z_heap z) a"
proof -
  from assms have r: "zfwd (z_heap z) ([] @ z_header z # as)" "height (z_heap z) (z_header z) = ZSKIPLIST_MAXLEVEL"
    "\<forall>a \<in> set as. 1 \<le> height (z_heap z) a" by (auto simp: zsl_rep_def)
  then show "z_fwd (z_heap z) (z_header z) 0 = Inr (first_or None as)"
    using z_fwd_rep [OF r(1), of 0] by (simp add: nxt_0 ZSKIPLIST_MAXLEVEL_def)
  show "zfwd (z_heap z) as" "\<forall>a \<in> set as. 1 \<le> height (z_heap z) a" using r by auto
qed

lemma zfind_loop_ok:
  assumes "zfwd h as" "\<forall>a \<in> set as. 1 \<le> height h a" "length as \<le> fuel"
  shows "zfind_loop fuel h (first_or None as) m = Inr (map_option fst (find (\<lambda>e. snd e = m) (map (z_entry h) as)))"
  using assms
proof (induction as arbitrary: fuel)
  case (Cons a as)
  then obtain f where f: "fuel = Suc f" by (cases fuel) auto
  from zwalk_node [OF Cons.prems(1,2)] obtain nd where nd: "h a = Some nd" "z_fwd h a 0 = Inr (first_or None as)" by blast
  have e: "z_entry h a = (zn_score nd, zn_member nd)" using nd(1) by (simp add: z_entry_def)
  from Cons f nd e show ?case by (simp del: bindr_eq_Inr)
qed simp

lemma zfind_ok:
  assumes "zsl_inv z"
  shows "zfind z m = Inr (map_option fst (find (\<lambda>e. snd e = m) (zsl_list z)))"
proof -
  from assms obtain as where rep: "zsl_rep z as" by (auto simp: zsl_inv_def)
  from zfind_loop_ok [OF zsl_first(2,3) [OF rep], of "z_brk z" m] zsl_rep_length [OF rep] zsl_first(1) [OF rep] zsl_repD(2) [OF rep]
  show ?thesis by (simp add: zfind_def del: bindr_eq_Inr)
qed

lemma zrange_loop_ok:
  assumes "zfwd h as" "\<forall>a \<in> set as. 1 \<le> height h a" "length as \<le> fuel"
  shows "zrange_loop fuel h (first_or None as) i start n = Inr (take n (drop (nat (start - i)) (map (\<lambda>a. snd (z_entry h a)) as)))"
  using assms
proof (induction as arbitrary: fuel i n)
  case Nil
  then show ?case by (cases n) auto
next
  case (Cons a as)
  then obtain f where f: "fuel = Suc f" by (cases fuel) auto
  from zwalk_node [OF Cons.prems(1,2)] obtain nd where nd: "h a = Some nd" "z_fwd h a 0 = Inr (first_or None as)" by blast
  have e: "snd (z_entry h a) = zn_member nd" using nd(1) by (simp add: z_entry_def)
  have IH: "zrange_loop f h (first_or None as) (i + 1) start n = Inr (take n (drop (nat (start - (i + 1))) (map (\<lambda>a. snd (z_entry h a)) as)))" for n
    using Cons.IH [of f "i + 1" n] Cons.prems f by simp
  show ?case
  proof (cases n)
    case (Suc n')
    show ?thesis
    proof (cases "i \<ge> start")
      case True
      then have "nat (start - i) = 0" "nat (start - (i + 1)) = 0" by auto
      with True Suc f nd e IH show ?thesis by (simp del: bindr_eq_Inr)
    next
      case False
      then have "nat (start - i) = Suc (nat (start - (i + 1)))" by auto
      with False Suc f nd e IH show ?thesis by (simp del: bindr_eq_Inr)
    qed
  qed simp
qed

lemma zrevrange_loop_ok:
  assumes "zbwd h None as" "\<forall>a \<in> set as. h a \<noteq> None" "length as \<le> fuel" "i + int (length as) = len"
  shows "zrevrange_loop fuel h (last_or None as) len i start n =
     Inr (take n (drop (nat (start - i)) (map (\<lambda>a. snd (z_entry h a)) (rev as))))"
  using assms
proof (induction as arbitrary: fuel i n rule: rev_induct)
  case Nil
  then show ?case by (cases n) auto
next
  case (snoc a as)
  then obtain f where f: "fuel = Suc f" by (cases fuel) auto
  from snoc.prems obtain nd where nd: "h a = Some nd" "zn_backward nd = last_or None as" by auto
  have e: "snd (z_entry h a) = zn_member nd" using nd(1) by (simp add: z_entry_def)
  have p: "(if i < len - 1 then zn_backward nd else None) = last_or None as"
    using snoc.prems(4) nd(2) by (cases as) auto
  have IH: "zrevrange_loop f h (last_or None as) len (i + 1) start n =
      Inr (take n (drop (nat (start - (i + 1))) (map (\<lambda>a. snd (z_entry h a)) (rev as))))" for n
    using snoc.IH [of f "i + 1" n] snoc.prems f by simp
  show ?case
  proof (cases n)
    case (Suc n')
    show ?thesis
    proof (cases "i \<ge> start")
      case True
      then have "nat (start - i) = 0" "nat (start - (i + 1)) = 0" by auto
      with True Suc f nd e IH p show ?thesis by (simp del: bindr_eq_Inr)
    next
      case False
      then have "nat (start - i) = Suc (nat (start - (i + 1)))" by auto
      with False Suc f nd e IH p show ?thesis by (simp del: bindr_eq_Inr)
    qed
  qed simp
qed

subsection \<open>Behaviour\<close>

lemma zset_val_inv [simp]: "obj_inv (obj\<lparr>o_val := OBJ_ZSET z\<rparr>) = zsl_inv z"
  by (simp add: obj_inv_def)

lemma as_zset_inv: "obj_inv obj \<Longrightarrow> as_zset (o_val obj) = Some z \<Longrightarrow> zsl_inv z"
  by (cases "o_val obj") (auto simp: obj_inv_def)

lemma as_zset_abs: "as_zset v = Some z \<Longrightarrow> absval v = AZset (zsl_list z)"
  by (cases v) auto

text \<open>Either there is no sorted set under the key, or a well-formed skip list with its entries.\<close>

lemma zset_cases [consumes 1, case_names none some]:
  assumes "kv_inv db"
  obtains (none) "wr_obj db k as_zset = None" "zset_at db k = []" "\<nexists>es. kv_abs db k = Some (AZset es)"
  | (some) idx obj z where "wr_obj db k as_zset = Some (idx, obj, z)" "zsl_inv z" "zset_at db k = zsl_list z"
      "kv_find db k = Some (idx, obj)" "kv_abs db k = Some (AZset (zsl_list z))"
proof (cases "wr_obj db k as_zset")
  case None
  have "\<nexists>es. kv_abs db k = Some (AZset es)"
  proof
    assume "\<exists>es. kv_abs db k = Some (AZset es)"
    then obtain obj where o: "kv_map db k = Some obj" "\<exists>es. absval (o_val obj) = AZset es" by (auto simp: kv_abs_def)
    then obtain z where "o_val obj = OBJ_ZSET z" by (auto simp: absval_def split: obj_val.splits)
    with None kv_find_map [OF assms o(1)] show False by (auto simp: wr_obj_def)
  qed
  with None none wr_obj_at(4) [OF assms, of k] show ?thesis by simp
next
  case (Some p)
  then obtain idx obj z where w: "wr_obj db k as_zset = Some (idx, obj, z)" by (cases p) auto
  note o = wr_obj_Some [OF assms w]
  show ?thesis
    using some [OF w as_zset_inv [OF o(3,2)] _ o(1)] w wr_obj_at(4) [OF assms, of k] o(2,4) as_zset_abs by simp
qed

lemma fetched_zset:
  assumes "kv_inv db" "fetched mem db k as_zset zsl_create idx obj z d"
  shows "zsl_inv z" "zsl_list z = zset_at db k"
proof -
  have "obj_inv obj" using assms(2) kv_find_abs(2) by (auto simp: fetched_def)
  then show "zsl_inv z" using as_zset_inv assms(2) by (auto simp: fetched_def)
  show "zsl_list z = zset_at db k"
    using assms zsl_create_ok wr_obj_at(4) [OF assms(1), of k] by (auto simp: fetched_def)
qed

lemma kv_zadd_fetch:
  assumes "kv_inv db" "can_grow mem db"
  shows "\<exists>idx obj z d. fetched mem db k as_zset zsl_create idx obj z d \<and>
    kv_zadd mem rs db k score member =
      bindr (zsl_insert rs z score member) (\<lambda>(_, z). Inr ((0, Some 1), put_val idx obj (OBJ_ZSET z) d))"
proof (cases "wr_obj db k as_zset")
  case None
  have t: "as_zset (o_val obj_create_zset) = Some zsl_create" by (simp add: obj_create_zset_def)
  from fetch_fresh [OF assms None obj_create_inv(5) t] obtain idx d where
    d: "kv_set_object mem db k obj_create_zset None = Inr (0, d)" "kv_find d k = Some (idx, obj_create_zset)"
      "fetched mem db k as_zset zsl_create idx obj_create_zset zsl_create d" by blast
  with None t show ?thesis
    by (intro exI [of _ idx] exI [of _ obj_create_zset] exI [of _ zsl_create] exI [of _ d])
       (simp add: kv_zadd_def kv_get_object_def cast_obj_def)
next
  case (Some p)
  then obtain idx obj z where w: "wr_obj db k as_zset = Some (idx, obj, z)" by (cases p) auto
  from fetch_present [OF assms w] wr_obj_Some(2) [OF assms(1) w] w show ?thesis
    by (intro exI [of _ idx] exI [of _ obj] exI [of _ z] exI [of _ db]) (simp add: kv_zadd_def cast_obj_def)
qed

lemma kv_zadd_ok:
  assumes "kv_inv db" "can_grow mem db" "zsorted (zset_at db k)" "\<not> dbl_nan score"
  shows "\<exists>db'. kv_zadd mem rs db k score member = Inr ((0, Some 1), db') \<and> kv_inv db' \<and>
    kv_abs db' = (kept mem db k)(k \<mapsto> AZset (zins (score, member) (zset_at db k))) \<and>
    zsorted (zins (score, member) (zset_at db k))"
proof -
  from kv_zadd_fetch [OF assms(1,2)] obtain idx obj z d where
    f: "fetched mem db k as_zset zsl_create idx obj z d" and
    e: "kv_zadd mem rs db k score member =
      bindr (zsl_insert rs z score member) (\<lambda>(_, z). Inr ((0, Some 1), put_val idx obj (OBJ_ZSET z) d))" by blast
  note z = fetched_zset [OF assms(1) f]
  from zsl_insert_ok [of z score rs member] z assms(3,4) obtain z' where
    z': "zsl_insert rs z score member = Inr (z_brk z, z')" "zsl_inv z'"
      "zsl_list z' = zins (score, member) (zset_at db k)" "zsorted (zsl_list z')" by auto
  from f have d: "kv_inv d" "kv_find d k = Some (idx, obj)" "\<And>v. (kv_abs d)(k \<mapsto> v) = (kept mem db k)(k \<mapsto> v)"
    by (auto simp: fetched_def)
  have "obj_inv (obj\<lparr>o_val := OBJ_ZSET z'\<rparr>)" using z'(2) by simp
  from put_val_ok [OF d(1,2) this] d(3) z' e show ?thesis by (simp del: bindr_eq_Inr fun_upd_apply)
qed

text \<open>Whatever the score, a \<open>ZADD\<close> is memory safe and adds one entry.\<close>

lemma kv_zadd_safe:
  assumes "kv_inv db" "can_grow mem db"
  shows "\<exists>db' es. kv_zadd mem rs db k score member = Inr ((0, Some 1), db') \<and> kv_inv db' \<and>
    kv_abs db' = (kept mem db k)(k \<mapsto> AZset es) \<and> mset es = add_mset (score, member) (mset (zset_at db k))"
proof -
  from kv_zadd_fetch [OF assms(1,2)] obtain idx obj z d where
    f: "fetched mem db k as_zset zsl_create idx obj z d" and
    e: "kv_zadd mem rs db k score member =
      bindr (zsl_insert rs z score member) (\<lambda>(_, z). Inr ((0, Some 1), put_val idx obj (OBJ_ZSET z) d))" by blast
  note z = fetched_zset [OF assms(1) f]
  from zsl_insert_entries [OF z(1), of rs score member] z(2) obtain z' xs ys where
    z': "zsl_insert rs z score member = Inr (z_brk z, z')" "zsl_inv z'"
      "zset_at db k = xs @ ys" "zsl_list z' = xs @ (score, member) # ys" by metis
  from f have d: "kv_inv d" "kv_find d k = Some (idx, obj)" "\<And>v. (kv_abs d)(k \<mapsto> v) = (kept mem db k)(k \<mapsto> v)"
    by (auto simp: fetched_def)
  have "obj_inv (obj\<lparr>o_val := OBJ_ZSET z'\<rparr>)" using z'(2) by simp
  from put_val_ok [OF d(1,2) this] d(3) z' e show ?thesis
    by (intro exI [of _ "put_val idx obj (OBJ_ZSET z') d"] exI [of _ "xs @ (score, member) # ys"])
       (simp del: bindr_eq_Inr fun_upd_apply)
qed

lemma kv_zrem_ok:
  assumes "kv_inv db"
  shows "\<exists>r db'. kv_zrem db k m = Inr ((0, r), db') \<and> kv_inv db' \<and>
    (r = 0 \<and> kv_abs db' = kv_abs db \<or>
     r = 1 \<and> (\<exists>xs s ys. zset_at db k = xs @ (s, m) # ys \<and> kv_abs db' = (kv_abs db)(k \<mapsto> AZset (xs @ ys))))"
  using assms
proof (cases rule: zset_cases [of db k])
  case none
  with assms show ?thesis by (simp add: kv_zrem_def)
next
  case (some idx obj z)
  from zsl_delete_ok [OF some(2), of m] obtain r z' where
    d: "zsl_delete z m = Inr (r, z')" "zsl_inv z'" "r = 0 \<and> z' = z \<or>
      r = 1 \<and> (\<exists>xs s ys. zsl_list z = xs @ (s, m) # ys \<and> zsl_list z' = xs @ ys)" by blast
  have "obj_inv (obj\<lparr>o_val := OBJ_ZSET z'\<rparr>)" using d(2) by simp
  note p = put_val_ok [OF assms some(4) this]
  have e: "kv_zrem db k m = Inr ((0, r), put_val idx obj (OBJ_ZSET z') db)" using some(1) d(1) by (simp add: kv_zrem_def)
  from d(3) show ?thesis
  proof
    assume r: "r = 0 \<and> z' = z"
    with p(2) some(5) have "kv_abs (put_val idx obj (OBJ_ZSET z') db) = kv_abs db" by (simp add: map_upd_triv)
    with e p(1) r show ?thesis by blast
  next
    assume "r = 1 \<and> (\<exists>xs s ys. zsl_list z = xs @ (s, m) # ys \<and> zsl_list z' = xs @ ys)"
    with e p some(3) show ?thesis by (simp del: fun_upd_apply) metis
  qed
qed

lemma kv_zscore_ok:
  assumes "kv_inv db"
  shows "kv_zscore db k m = Inr (case find (\<lambda>e. snd e = m) (zset_at db k) of Some (s, _) \<Rightarrow> (s, 1) | None \<Rightarrow> (0, 0))"
  using assms
  by (cases rule: zset_cases [of db k]) (auto simp: kv_zscore_def zfind_ok split: option.splits)

lemma kv_zcard_ok: "kv_inv db \<Longrightarrow> kv_zcard db k = (0, length (zset_at db k))"
proof (erule zset_cases [of db k])
  fix idx obj z assume w: "wr_obj db k as_zset = Some (idx, obj, z)" "zsl_inv z" "zset_at db k = zsl_list z"
  then obtain as where rep: "zsl_rep z as" by (auto simp: zsl_inv_def)
  then have "z_length z = length (zsl_list z)" using zsl_repD(2) [OF rep] by (simp add: zsl_rep_def)
  with w show ?thesis by (simp add: kv_zcard_def)
qed (simp add: kv_zcard_def)

text \<open>The position of the first entry of a member in a sorted list is its rank.\<close>

lemma sorted_rank:
  assumes sorted: "zsorted es" and k: "k < length es" "snd (es ! k) = m" "\<forall>j < k. snd (es ! j) \<noteq> m"
  shows "length (takeWhile (\<lambda>e. zless e (fst (es ! k), m)) es) = k"
proof -
  have m: "(fst (es ! k), m) = es ! k" using k(2) by (metis prod.collapse)
  have "zless (es ! j) (es ! k)" if j: "j < k" for j
  proof -
    have n: "znum (es ! j)" "znum (es ! k)" using sorted j k(1) by (auto simp: zsorted_def)
    have "\<not> zless (es ! k) (es ! j)" using sorted j k(1) by (auto simp: zsorted_def sorted_wrt_iff_nth_less)
    moreover have "zkey (es ! j) \<noteq> zkey (es ! k)" using k(2,3) j by (auto simp: zkey_def)
    ultimately show ?thesis using zless_cases [OF n] by blast
  qed
  then have "takeWhile (\<lambda>e. zless e (es ! k)) es = take k es" using k(1)
    by (intro takeWhile_eq_take_P_nth) auto
  with m k(1) show ?thesis by simp
qed

lemma kv_zrank_ok:
  assumes inv: "kv_inv db" and sorted: "zsorted (zset_at db k)"
  shows "m \<notin> snd ` set (zset_at db k) \<Longrightarrow> kv_zrank db k m = Inr (0, -1)"
    and "i < length (zset_at db k) \<Longrightarrow> snd (zset_at db k ! i) = m \<Longrightarrow> \<forall>j < i. snd (zset_at db k ! j) \<noteq> m \<Longrightarrow>
      kv_zrank db k m = Inr (0, int i)"
proof -
  show "kv_zrank db k m = Inr (0, -1)" if no: "m \<notin> snd ` set (zset_at db k)"
    using inv
  proof (cases rule: zset_cases [of db k])
    case (some idx obj z)
    have "find (\<lambda>e. snd e = m) (zsl_list z) = None" using no some(3) by (force simp: find_None_iff)
    with some show ?thesis by (simp add: kv_zrank_def zfind_ok)
  qed (simp add: kv_zrank_def)
  show "kv_zrank db k m = Inr (0, int i)"
    if i: "i < length (zset_at db k)" "snd (zset_at db k ! i) = m" "\<forall>j < i. snd (zset_at db k ! j) \<noteq> m"
    using inv
  proof (cases rule: zset_cases [of db k])
    case (some idx obj z)
    have "find (\<lambda>e. snd e = m) (zsl_list z) = Some (zsl_list z ! i)"
      using i some(3) by (auto simp: find_Some_iff)
    with some zsl_rank_ok [OF some(2), of "fst (zsl_list z ! i)" m] sorted_rank [OF sorted i] show ?thesis
      by (simp add: kv_zrank_def zfind_ok)
  qed (use i in simp)
qed

text \<open>The rank of a member in an ordered list of entries is its first position.\<close>

lemma kv_zrank_position:
  assumes "kv_inv db" "zsorted (zset_at db k)"
  shows "kv_zrank db k m = Inr (0, case find (\<lambda>i. snd (zset_at db k ! i) = m) [0..<length (zset_at db k)] of
      None \<Rightarrow> -1 | Some i \<Rightarrow> int i)"
proof (cases "find (\<lambda>i. snd (zset_at db k ! i) = m) [0..<length (zset_at db k)]")
  case None
  then have "m \<notin> snd ` set (zset_at db k)" by (fastforce simp: find_None_iff in_set_conv_nth)
  with kv_zrank_ok(1) [OF assms] None show ?thesis by simp
next
  case (Some i)
  then have "i < length (zset_at db k)" "snd (zset_at db k ! i) = m" "\<forall>j < i. snd (zset_at db k ! j) \<noteq> m"
    by (auto simp: find_Some_iff)
  with kv_zrank_ok(2) [OF assms] Some show ?thesis by simp
qed

text \<open>The reverse rank is the number of entries above the first entry of the member.\<close>

lemma takeWhile_filter: "sorted_wrt (\<lambda>a b. P b \<longrightarrow> P a) xs \<Longrightarrow> takeWhile P xs = filter P xs"
  by (induction xs) (auto simp: filter_empty_conv)

lemma sorted_revrank:
  assumes "zsorted es" "e \<in> set es"
  shows "length (takeWhile (zless e) (rev es)) = length (filter (zless e) es)"
proof -
  have n: "znum x" if "x \<in> set es" for x using assms(1) that by (simp add: zsorted_def)
  have "zless e a" if "a \<in> set es" "b \<in> set es" "\<not> zless a b" "zless e b" for a b
    using zless_cases [OF n n, of b a] that zless_trans [OF n n n, of e b a] zless_zkey [OF n n] assms(2) by metis
  moreover have "sorted_wrt (\<lambda>a b. \<not> zless a b) (rev es)" using assms(1) by (simp add: zsorted_def sorted_wrt_rev)
  ultimately have "sorted_wrt (\<lambda>a b. zless e b \<longrightarrow> zless e a) (rev es)" by (auto elim!: sorted_wrt_mono_rel [rotated])
  from takeWhile_filter [OF this] show ?thesis by (simp flip: rev_filter)
qed

lemma kv_zrevrank_ok:
  assumes inv: "kv_inv db" and sorted: "zsorted (zset_at db k)"
  shows "kv_zrevrank db k m = Inr (0, case find (\<lambda>e. snd e = m) (zset_at db k) of
      None \<Rightarrow> -1 | Some e \<Rightarrow> int (length (filter (zless e) (zset_at db k))))"
  using inv
proof (cases rule: zset_cases [of db k])
  case (some idx obj z)
  show ?thesis
  proof (cases "find (\<lambda>e. snd e = m) (zsl_list z)")
    case (Some e)
    then have e: "e \<in> set (zsl_list z)" "(fst e, m) = e" by (auto simp: find_Some_iff)
    from sorted_revrank [OF sorted, of e] e some(3) zsl_revrank_ok [OF some(2), of "fst e" m] some Some show ?thesis
      by (cases e) (simp add: kv_zrevrank_def kv_zscore_ok [OF inv] del: bindr_eq_Inr)
  qed (use some in \<open>simp add: kv_zrevrank_def kv_zscore_ok [OF inv] del: bindr_eq_Inr\<close>)
qed (simp add: kv_zrevrank_def)

text \<open>The slice between two bounds, both included.\<close>

definition zslice :: "int \<Rightarrow> int \<Rightarrow> 'a list \<Rightarrow> 'a list" where
  "zslice a b xs =
     (let n = int (length xs); lo = max 0 (if a < 0 then a + n else a); hi = min (n - 1) (if b < 0 then b + n else b) in
      take (nat (hi - lo + 1)) (drop (nat lo) xs))"

lemma zslice_nil [simp]: "zslice a b [] = []"
  unfolding zslice_def by (simp only: Let_def drop_Nil take_Nil)

lemma zbounds_slice:
  "(case zbounds (int (length xs)) a b of None \<Rightarrow> [] | Some (lo, hi) \<Rightarrow> take (nat (hi - lo + 1)) (drop (nat lo) xs)) = zslice a b xs"
  by (cases xs) (auto simp: zbounds_def zslice_def Let_def max_def min_def)

lemma kv_zrange_ok:
  assumes "kv_inv db"
  shows "kv_zrange db k a b = Inr (0, zslice a b (map snd (zset_at db k)))"
    "kv_zrevrange db k a b = Inr (0, zslice a b (rev (map snd (zset_at db k))))"
proof -
  have "kv_zrange db k a b = Inr (0, zslice a b (map snd (zset_at db k))) \<and>
    kv_zrevrange db k a b = Inr (0, zslice a b (rev (map snd (zset_at db k))))"
    using assms
  proof (cases rule: zset_cases [of db k])
    case none
    then show ?thesis by (simp add: kv_zrange_def kv_zrevrange_def zslice_def Let_def)
  next
    case (some idx obj z)
    then obtain as where rep: "zsl_rep z as" by (auto simp: zsl_inv_def)
    let ?ms = "map (\<lambda>a. snd (z_entry (z_heap z) a)) as"
    have ms: "map snd (zset_at db k) = ?ms" using some(3) zsl_repD(2) [OF rep] by simp
    have len: "z_length z = length ?ms" "length as \<le> z_brk z" using rep zsl_rep_length [OF rep] by (auto simp: zsl_rep_def)
    have bw: "zbwd (z_heap z) None as" "\<forall>a \<in> set as. z_heap z a \<noteq> None" "z_tail z = last_or None as"
      using rep by (auto simp: zsl_rep_def)
    note f = zsl_first [OF rep]
    have 1: "zrange_loop (z_brk z) (z_heap z) (first_or None as) 0 s n = Inr (take n (drop (nat s) ?ms))" for s n
      using zrange_loop_ok [OF f(2,3) len(2), of 0] by simp
    have 2: "zrevrange_loop (z_brk z) (z_heap z) (z_tail z) (int (z_length z)) 0 s n = Inr (take n (drop (nat s) (rev ?ms)))" for s n
      using zrevrange_loop_ok [OF bw(1,2) len(2), of 0 "int (z_length z)" s n] bw(3) len(1) by (simp add: rev_map)
    have "kv_zrange db k a b = Inr (0, case zbounds (int (length ?ms)) a b of None \<Rightarrow> []
        | Some (lo, hi) \<Rightarrow> take (nat (hi - lo + 1)) (drop (nat lo) ?ms))"
      using some(1) f(1) 1 len(1) by (auto simp: kv_zrange_def split: option.splits prod.splits)
    moreover have "kv_zrevrange db k a b = Inr (0, case zbounds (int (length (rev ?ms))) a b of None \<Rightarrow> []
        | Some (lo, hi) \<Rightarrow> take (nat (hi - lo + 1)) (drop (nat lo) (rev ?ms)))"
      using some(1) 2 len(1) by (auto simp: kv_zrevrange_def split: option.splits prod.splits)
    ultimately show ?thesis unfolding zbounds_slice ms by simp
  qed
  then show "kv_zrange db k a b = Inr (0, zslice a b (map snd (zset_at db k)))"
    "kv_zrevrange db k a b = Inr (0, zslice a b (rev (map snd (zset_at db k))))" by auto
qed

end
