(* ===== verification/Pub_Sub.thy ===== *)
theory Pub_Sub
  imports Decimal
begin

text \<open>
  The publish/subscribe manager (\<open>client_sub_t\<close>, \<open>channel_entry_t\<close>, \<open>pubsub_mgr\<close> and the
  \<open>pubsub_*\<close> functions of \<open>src/src/core/kvdb.c\<close>). The two linked lists are owned by the manager
  and are lists here, the newest entry first. \<open>send fd bytes\<close> says whether the system call
  succeeds; the bytes handed to it are part of the result.
\<close>

definition CHANNEL_NAME_MAX :: nat where
  "CHANNEL_NAME_MAX = 256"

definition BULK_MSG_MAX :: nat where
  "BULK_MSG_MAX = 8192"

definition MAX_BATCH :: nat where
  "MAX_BATCH = 128"

record client_sub =
  cs_fd :: int
  cs_wlock :: "nat option"

record channel_entry =
  ch_name :: string
  ch_subs :: "client_sub list"

type_synonym pubsub_mgr = "channel_entry list"

definition pubsub_create :: pubsub_mgr where
  "pubsub_create = []"

text \<open>The position of the channel, and the manager with the channel created when it is missing.\<close>

fun ch_pos :: "pubsub_mgr \<Rightarrow> string \<Rightarrow> nat option" where
  "ch_pos [] ch = None"
| "ch_pos (c # cs) ch = (if strcmp (ch_name c) ch = 0 then Some 0 else map_option Suc (ch_pos cs ch))"

definition ps_get_or_create :: "pubsub_mgr \<Rightarrow> string \<Rightarrow> nat \<times> pubsub_mgr" where
  "ps_get_or_create m ch = (case ch_pos m ch of
       Some i \<Rightarrow> (i, m)
     | None \<Rightarrow> (0, \<lparr>ch_name = take (CHANNEL_NAME_MAX - 1) ch, ch_subs = []\<rparr> # m))"

definition pubsub_subscribe :: "pubsub_mgr \<Rightarrow> int \<Rightarrow> nat option \<Rightarrow> string \<Rightarrow> int \<times> pubsub_mgr" where
  "pubsub_subscribe m fd wlock channel =
     (let (i, m) = ps_get_or_create m channel; c = m ! i in
      (0, m[i := c\<lparr>ch_subs := \<lparr>cs_fd = fd, cs_wlock = wlock\<rparr> # ch_subs c\<rparr>]))"

fun drop_first :: "int \<Rightarrow> client_sub list \<Rightarrow> client_sub list" where
  "drop_first fd [] = []"
| "drop_first fd (s # ss) = (if cs_fd s = fd then ss else s # drop_first fd ss)"

fun pubsub_unsubscribe :: "pubsub_mgr \<Rightarrow> int \<Rightarrow> string \<Rightarrow> pubsub_mgr" where
  "pubsub_unsubscribe [] fd channel = []"
| "pubsub_unsubscribe (c # m) fd channel =
     (if strcmp (ch_name c) channel = 0 then c\<lparr>ch_subs := drop_first fd (ch_subs c)\<rparr> # m
      else c # pubsub_unsubscribe m fd channel)"

fun drop_all :: "int \<Rightarrow> client_sub list \<Rightarrow> client_sub list" where
  "drop_all fd [] = []"
| "drop_all fd (s # ss) = (if cs_fd s = fd then drop_all fd ss else s # drop_all fd ss)"

fun pubsub_unsubscribe_all :: "pubsub_mgr \<Rightarrow> int \<Rightarrow> pubsub_mgr" where
  "pubsub_unsubscribe_all [] fd = []"
| "pubsub_unsubscribe_all (c # m) fd = c\<lparr>ch_subs := drop_all fd (ch_subs c)\<rparr> # pubsub_unsubscribe_all m fd"

text \<open>The subscribers of the first channel of that name.\<close>

fun subs_of :: "pubsub_mgr \<Rightarrow> string \<Rightarrow> client_sub list" where
  "subs_of [] channel = []"
| "subs_of (c # m) channel = (if strcmp (ch_name c) channel = 0 then ch_subs c else subs_of m channel)"

definition CRLF :: string where
  "CRLF = [CHR 0x0D, CHR 0x0A]"

definition resp_bulk :: "string \<Rightarrow> string" where
  "resp_bulk s = ''$'' @ nat_dec (length s) @ CRLF @ s @ CRLF"

definition pubsub_message :: "string \<Rightarrow> string \<Rightarrow> string" where
  "pubsub_message channel msg = ''*3'' @ CRLF @ resp_bulk ''message'' @ resp_bulk channel @ resp_bulk msg"

text \<open>
  \<open>len = snprintf(buf, cap, \<dots>)\<close> followed by sending \<open>len\<close> bytes of \<open>buf\<close>: the text is cut to
  \<open>cap - 1\<close> bytes and a NUL, but \<open>len\<close> is the length of the whole text.
\<close>

definition snprintf_bytes :: "nat \<Rightarrow> string \<Rightarrow> string res" where
  "snprintf_bytes cap s =
     (if length s < cap then Inr s
      else if length s = cap then Inr (take (cap - 1) s @ [NUL])
      else Inl OverRead)"

fun publish_loop :: "(int \<Rightarrow> string \<Rightarrow> bool) \<Rightarrow> string res \<Rightarrow> client_sub list \<Rightarrow> int \<Rightarrow> (int \<times> (int \<times> string) list) res" where
  "publish_loop send buf [] cnt = Inr (cnt, [])"
| "publish_loop send buf (s # ss) cnt =
     (if cs_fd s \<ge> 0
      then bindr buf (\<lambda>bytes.
           bindr (publish_loop send buf ss (if send (cs_fd s) bytes then cnt + 1 else cnt)) (\<lambda>(n, out).
           Inr (n, (cs_fd s, bytes) # out)))
      else publish_loop send buf ss cnt)"

definition pubsub_publish :: "(int \<Rightarrow> string \<Rightarrow> bool) \<Rightarrow> pubsub_mgr \<Rightarrow> string \<Rightarrow> string \<Rightarrow> (int \<times> (int \<times> string) list) res" where
  "pubsub_publish send m channel msg =
     publish_loop send (snprintf_bytes BULK_MSG_MAX (pubsub_message channel msg)) (take MAX_BATCH (subs_of m channel)) 0"

definition pubsub_numsub :: "pubsub_mgr \<Rightarrow> string \<Rightarrow> int" where
  "pubsub_numsub m channel = int (length (subs_of m channel))"

definition pubsub_numpat :: "pubsub_mgr \<Rightarrow> int" where
  "pubsub_numpat m = 0"

subsection \<open>Behaviour\<close>

text \<open>Every channel name fits its array.\<close>

definition ps_inv :: "pubsub_mgr \<Rightarrow> bool" where
  "ps_inv m \<longleftrightarrow> (\<forall>c \<in> set m. length (ch_name c) < CHANNEL_NAME_MAX)"

lemma ch_pos_subs:
  "ch_pos m ch = Some i \<Longrightarrow> i < length m \<and> ch_name (m ! i) = ch \<and> subs_of m ch = ch_subs (m ! i) \<and>
     (\<forall>ss ch'. subs_of (m[i := (m ! i)\<lparr>ch_subs := ss\<rparr>]) ch' = (if ch' = ch then ss else subs_of m ch'))"
  by (induction m arbitrary: i) (auto split: if_splits)

lemma ch_pos_None: "ch_pos m ch = None \<longleftrightarrow> ch \<notin> ch_name ` set m"
  by (induction m) auto

lemma subs_of_absent: "ch \<notin> ch_name ` set m \<Longrightarrow> subs_of m ch = []"
  by (induction m) auto

lemma ps_inv_update: "ps_inv m \<Longrightarrow> i < length m \<Longrightarrow> ps_inv (m[i := (m ! i)\<lparr>ch_subs := ss\<rparr>])"
  by (auto simp: ps_inv_def dest!: set_update_subset_insert [THEN subsetD])

lemma pubsub_subscribe_inv: "ps_inv m \<Longrightarrow> ps_inv (snd (pubsub_subscribe m fd w ch))"
proof (cases "ch_pos m ch")
  case None
  assume "ps_inv m"
  with None show ?thesis
    by (simp add: pubsub_subscribe_def ps_get_or_create_def ps_inv_def CHANNEL_NAME_MAX_def)
next
  case (Some i)
  assume "ps_inv m"
  from ps_inv_update [OF this] ch_pos_subs [OF Some] Some show ?thesis
    by (simp add: pubsub_subscribe_def ps_get_or_create_def Let_def)
qed

text \<open>A subscription adds the client in front of the channel's subscribers, and to no other channel.\<close>

lemma pubsub_subscribe_ok:
  assumes "ps_inv m" "length ch < CHANNEL_NAME_MAX"
  shows "fst (pubsub_subscribe m fd w ch) = 0"
    "subs_of (snd (pubsub_subscribe m fd w ch)) ch' =
       (if ch' = ch then \<lparr>cs_fd = fd, cs_wlock = w\<rparr> # subs_of m ch else subs_of m ch')"
proof -
  show "fst (pubsub_subscribe m fd w ch) = 0" by (simp add: pubsub_subscribe_def Let_def split: prod.splits)
  show "subs_of (snd (pubsub_subscribe m fd w ch)) ch' =
       (if ch' = ch then \<lparr>cs_fd = fd, cs_wlock = w\<rparr> # subs_of m ch else subs_of m ch')"
  proof (cases "ch_pos m ch")
    case None
    then have "subs_of m ch = []" using ch_pos_None subs_of_absent by blast
    moreover have "take (CHANNEL_NAME_MAX - 1) ch = ch" using assms(2) by simp
    ultimately show ?thesis using None by (simp add: pubsub_subscribe_def ps_get_or_create_def)
  next
    case (Some i)
    with ch_pos_subs [OF Some] show ?thesis
      by (simp add: pubsub_subscribe_def ps_get_or_create_def Let_def)
  qed
qed

text \<open>A longer channel name is cut when it is stored: its own publications never reach the subscriber,
  while a channel with the cut name is hidden by the new entry.\<close>

lemma pubsub_subscribe_long:
  assumes "ps_inv m" "length ch \<ge> CHANNEL_NAME_MAX"
  shows "subs_of (snd (pubsub_subscribe m fd w ch)) ch = []"
    "subs_of (snd (pubsub_subscribe m fd w ch)) (take 255 ch) = [\<lparr>cs_fd = fd, cs_wlock = w\<rparr>]"
proof -
  have absent: "ch \<notin> ch_name ` set m" using assms by (auto simp: ps_inv_def)
  then have "ch_pos m ch = None" by (simp add: ch_pos_None)
  moreover have "length (take 255 ch) \<noteq> length ch" using assms(2) by (simp add: CHANNEL_NAME_MAX_def)
  then have "take 255 ch \<noteq> ch" by metis
  ultimately show "subs_of (snd (pubsub_subscribe m fd w ch)) ch = []"
    "subs_of (snd (pubsub_subscribe m fd w ch)) (take 255 ch) = [\<lparr>cs_fd = fd, cs_wlock = w\<rparr>]"
    using subs_of_absent [OF absent]
    by (simp_all add: pubsub_subscribe_def ps_get_or_create_def CHANNEL_NAME_MAX_def)
qed

lemma pubsub_unsubscribe_ok:
  "subs_of (pubsub_unsubscribe m fd ch) ch' = (if ch' = ch then drop_first fd (subs_of m ch) else subs_of m ch')"
  by (induction m) auto

lemma drop_all_filter: "drop_all fd ss = filter (\<lambda>s. cs_fd s \<noteq> fd) ss"
  by (induction ss) auto

lemma pubsub_unsubscribe_all_ok:
  "subs_of (pubsub_unsubscribe_all m fd) ch = filter (\<lambda>s. cs_fd s \<noteq> fd) (subs_of m ch)"
  by (induction m) (auto simp: drop_all_filter)

lemma publish_loop_ok:
  "publish_loop send (Inr bytes) ss c =
     Inr (c + int (length (filter (\<lambda>s. cs_fd s \<ge> 0 \<and> send (cs_fd s) bytes) ss)),
          map (\<lambda>s. (cs_fd s, bytes)) (filter (\<lambda>s. cs_fd s \<ge> 0) ss))"
  by (induction ss arbitrary: c) auto

lemma pubsub_publish_ok:
  assumes "length (pubsub_message ch msg) < BULK_MSG_MAX"
  shows "pubsub_publish send m ch msg =
     Inr (int (length (filter (\<lambda>s. cs_fd s \<ge> 0 \<and> send (cs_fd s) (pubsub_message ch msg)) (take MAX_BATCH (subs_of m ch)))),
          map (\<lambda>s. (cs_fd s, pubsub_message ch msg)) (filter (\<lambda>s. cs_fd s \<ge> 0) (take MAX_BATCH (subs_of m ch))))"
  using assms by (simp add: pubsub_publish_def snprintf_bytes_def publish_loop_ok)

lemma pubsub_publish_overread:
  assumes "BULK_MSG_MAX < length (pubsub_message ch msg)" "subs_of m ch = s # ss" "cs_fd s \<ge> 0"
  shows "pubsub_publish send m ch msg = Inl OverRead"
  using assms by (simp add: pubsub_publish_def snprintf_bytes_def MAX_BATCH_def)

end
