(* ===== verification/Command_Properties.thy ===== *)
theory Command_Properties
  imports Store_Properties String_Commands List_Commands Table_Commands Zset_Commands Pub_Sub
begin

text \<open>
  The properties of the data commands and of publish/subscribe, stated on the abstract database
  \<open>kv_abs\<close>. \<open>kept mem db k\<close> is that database without the key a store under \<open>k\<close> evicts; it is
  the whole of it whenever \<open>k\<close> is present or fewer than half of the slots are in use.
\<close>

lemma init_abs [simp]: "kv_abs (kv_init None) = Map.empty"
  by (simp add: kv_abs_def kv_init_map fun_eq_iff)

lemma init_at [simp]:
  "list_at (kv_init None) k = []" "set_at (kv_init None) k = {}" "hash_at (kv_init None) k = Map.empty"
  "zset_at (kv_init None) k = []" "number_at (kv_init None) k = Some 0" "get_string_obj (kv_init None) k = None"
  by (simp_all add: list_at_def set_at_def hash_at_def zset_at_def number_at_def get_string_obj_ok kv_init_inv)

lemma init_kept [simp]: "kept (\<lambda>_. True) (kv_init None) k = Map.empty"
  using kept_sub [of "\<lambda>_. True" "kv_init None" k] by (auto simp: map_le_def fun_eq_iff dom_def)

lemmas init_ready = kv_init_inv [of None] kv_init_can_grow(1) [of None]

subsection \<open>Strings\<close>

text \<open>C33. INCRBY reads the number at the key (0 where the key is missing or no number starts the
  string), stores the sum in decimal and returns it, as long as the sum is a 64-bit integer; on a
  key of another type it returns -1 and changes nothing.\<close>

theorem incrby_adds:
  assumes "kv_inv db" "can_grow mem db"
  shows "case number_at db k of
      Some v \<Rightarrow> in_i64 v \<and> in_i64 (v + d) \<longrightarrow>
        (\<exists>db'. kv_incrby mem now db k d = Inr ((0, Some (v + d)), db') \<and> kv_inv db' \<and> number_at db' k = Some (v + d) \<and>
               kv_abs db' = (kept mem db k)(k \<mapsto> AStr (int_dec (v + d))))
    | None \<Rightarrow> kv_incrby mem now db k d = Inr ((-1, None), db)"
proof (cases "number_at db k")
  case None
  with kv_incrby_wrong_type [OF assms(1)] show ?thesis by simp
next
  case (Some v)
  have "number_at db' k = Some (v + d)" if "kv_abs db' = (kept mem db k)(k \<mapsto> AStr (int_dec (v + d)))" for db'
    using that scan_int_dec [of "''''" "v + d"] by (simp add: number_at_def)
  with Some kv_incrby_ok [OF assms Some] show ?thesis by fastforce
qed

theorem incrby_adds_witness:
  "\<exists>db'. kv_incrby (\<lambda>_. True) 7 (kv_init None) ''n'' 5 = Inr ((0, Some 5), db') \<and> kv_abs db' ''n'' = Some (AStr ''5'')"
proof -
  have "in_i64 0" "in_i64 5" by (simp_all add: in_i64_def i64_min_def i64_max_def)
  moreover have "int_dec 5 = ''5''" by code_simp
  ultimately show ?thesis using incrby_adds [OF init_ready, where k = "''n''" and d = 5 and now = 7] by auto
qed

text \<open>APPEND concatenates to the string at the key, or stores the suffix where there is no
  string, and returns the new length.\<close>

theorem append_concat:
  assumes "kv_inv db" "can_grow mem db"
  shows "\<exists>db' s. s = (case kv_abs db k of Some (AStr s) \<Rightarrow> s | _ \<Rightarrow> '''') @ t \<and>
    kv_append mem now db k t = Inr ((0, Some (length s)), db') \<and> kv_inv db' \<and> kv_get db' k = Some s \<and>
    kv_abs db' = (kept mem db k)(k \<mapsto> AStr s)"
proof -
  have s: "(case get_string_obj db k of Some s \<Rightarrow> s @ t | None \<Rightarrow> t) = (case kv_abs db k of Some (AStr s) \<Rightarrow> s | _ \<Rightarrow> '''') @ t"
    using get_string_obj_ok [OF assms(1), of k] by (simp split: option.splits aval.splits)
  from kv_append_ok [OF assms, of now k t] show ?thesis unfolding s by (auto simp: kv_get_abs)
qed

theorem append_concat_witness:
  "\<exists>db'. kv_append (\<lambda>_. True) 7 (kv_init None) ''k'' ''ab'' = Inr ((0, Some 2), db') \<and> kv_get db' ''k'' = Some ''ab''"
  using append_concat [OF init_ready, of "''k''" "''ab''" 7] by auto

text \<open>GETRANGE never reads outside the string: it returns the bytes between the two positions,
  negative positions counting from the end and positions outside being clipped.\<close>

theorem getrange_slice:
  assumes "kv_inv db"
  shows "kv_getrange db k a b = Inr (zslice a b (case kv_abs db k of Some (AStr s) \<Rightarrow> s | _ \<Rightarrow> ''''))"
  using kv_getrange_ok [OF assms, of k a b, folded zslice_def] by (simp split: option.split aval.split)

theorem getrange_slice_witness: "kv_getrange (kv_init None) ''k'' 0 (-1) = Inr ''''"
  using getrange_slice [OF init_ready(1), of "''k''" 0 "-1"] by (simp add: zslice_def)

subsection \<open>Lists\<close>

text \<open>C18. The list commands act on the list at the key as a double-ended queue: a push creates a
  missing list and replaces a value of another type, a pop of a missing or empty list returns
  nothing.\<close>

theorem list_commands_deque:
  assumes "kv_inv db" "can_grow mem db"
  shows "(\<exists>db'. kv_lpush mem db k v = Inr ((0, Some (length (list_at db k) + 1)), db') \<and> kv_inv db' \<and>
        kv_abs db' = (kept mem db k)(k \<mapsto> AList (v # list_at db k))) \<and>
    (\<exists>db'. kv_rpush mem db k v = Inr ((0, Some (length (list_at db k) + 1)), db') \<and> kv_inv db' \<and>
        kv_abs db' = (kept mem db k)(k \<mapsto> AList (list_at db k @ [v]))) \<and>
    (\<exists>db'. kv_lpop db k = Inr (if list_at db k = [] then None else Some (hd (list_at db k)), db') \<and> kv_inv db' \<and>
        list_at db' k = tl (list_at db k) \<and> (\<forall>k'. k' \<noteq> k \<longrightarrow> kv_abs db' k' = kv_abs db k')) \<and>
    (\<exists>db'. kv_rpop db k = Inr (if list_at db k = [] then None else Some (last (list_at db k)), db') \<and> kv_inv db' \<and>
        list_at db' k = butlast (list_at db k) \<and> (\<forall>k'. k' \<noteq> k \<longrightarrow> kv_abs db' k' = kv_abs db k'))"
proof -
  have "list_at db' k = xs \<and> (\<forall>k'. k' \<noteq> k \<longrightarrow> kv_abs db' k' = kv_abs db k')"
    if "kv_abs db' = (if has_list db k then (kv_abs db)(k \<mapsto> AList xs) else kv_abs db)" "\<not> has_list db k \<longrightarrow> xs = []" for db' xs
    using that no_list [of db k] by (cases "has_list db k") (simp_all add: list_at_def)
  with kv_lpop_ok [OF assms(1), of k] kv_rpop_ok [OF assms(1), of k] kv_lpush_ok [OF assms, of k v]
    kv_rpush_ok [OF assms, of k v] no_list [of db k]
  show ?thesis by (auto simp del: fun_upd_apply)
qed

theorem list_commands_deque_witness:
  "\<exists>db'. kv_rpush (\<lambda>_. True) (kv_init None) ''l'' ''a'' = Inr ((0, Some 1), db') \<and> kv_abs db' ''l'' = Some (AList [''a''])"
  using list_commands_deque [OF init_ready, of "''l''" "''a''"] by auto

text \<open>RPOPLPUSH moves the last value of a list to the front of an existing destination and
  loses nothing, also when source and destination are the same list, which it rotates.\<close>

theorem rpoplpush_moves:
  assumes "kv_inv db" "can_grow mem db" "list_at db src = xs @ [v]" "dst \<in> dom (kv_abs db)"
  shows "\<exists>db'. kv_lpoprpush mem db src dst = Inr (Some v, db') \<and> kv_inv db' \<and>
    kv_abs db' = ((kv_abs db)(src \<mapsto> AList xs))(dst \<mapsto> AList (v # (if src = dst then xs else list_at db dst)))"
  by (rule kv_lpoprpush_ok [OF assms])

theorem rpoplpush_moves_witness:
  "\<exists>db db'. kv_lpoprpush (\<lambda>_. True) db ''l'' ''l'' = Inr (Some ''a'', db') \<and> kv_abs db' ''l'' = Some (AList [''a''])"
proof -
  obtain db where d: "kv_rpush (\<lambda>_. True) (kv_init None) ''l'' ''a'' = Inr ((0, Some 1), db)" "kv_inv db"
    "kv_abs db = [''l'' \<mapsto> AList [''a'']]" using kv_rpush_ok [OF init_ready, of "''l''" "''a''"] by auto
  have "list_at db ''l'' = [] @ [''a'']" "''l'' \<in> dom (kv_abs db)" using d(3) by (simp_all add: list_at_def)
  moreover have "can_grow (\<lambda>_. True) db"
    using d(1) kv_set_object_size [OF kv_init_can_grow(2)]
    by (fastforce simp: kv_rpush_def kv_ensure_list_def can_grow_def overfull_def kv_init_def INITIAL_CAPACITY_def put_val_def put_obj_def
        split: option.splits if_splits)
  ultimately obtain db' where "kv_lpoprpush (\<lambda>_. True) db ''l'' ''l'' = Inr (Some ''a'', db')"
    "kv_abs db' = ((kv_abs db)(''l'' \<mapsto> AList []))(''l'' \<mapsto> AList [''a''])"
    using rpoplpush_moves [OF d(2), of "\<lambda>_. True" "''l''" "[]" "''a''" "''l''"] by auto
  then show ?thesis by (intro exI [of _ db] exI [of _ db']) simp
qed

subsection \<open>Sets and hashes\<close>

text \<open>SADD adds the new members and counts them, SREM removes the given ones and counts those
  that were present, and the reading commands report exactly the set at the key.\<close>

theorem set_commands:
  assumes "kv_inv db" "can_grow mem db"
  shows "(\<exists>db'. kv_sadd mem db k ms = Inr ((0, Some (int (card (set ms - set_at db k)))), db') \<and> kv_inv db' \<and>
        kv_abs db' = (kept mem db k)(k \<mapsto> ASet (set_at db k \<union> set ms))) \<and>
    (\<exists>db'. kv_srem db k ms = ((0, int (card (set ms \<inter> set_at db k))), db') \<and> kv_inv db' \<and>
        set_at db' k = set_at db k - set ms \<and> (\<forall>k'. k' \<noteq> k \<longrightarrow> kv_abs db' k' = kv_abs db k')) \<and>
    kv_sismember db k m = (if m \<in> set_at db k then 1 else 0) \<and> kv_scard db k = (0, card (set_at db k)) \<and>
    (\<exists>xs. kv_smembers db k = (0, xs) \<and> distinct xs \<and> set xs = set_at db k)"
proof -
  have at: "set_at db' k = set_at db k - set ms"
    if "\<forall>k'. kv_abs db' k' = (if k' = k \<and> (\<exists>s. kv_abs db k = Some (ASet s)) then Some (ASet (set_at db k - set ms)) else kv_abs db k')" for db'
    using that by (auto simp: set_at_def split: option.splits aval.splits)
  obtain db' where d: "kv_srem db k ms = ((0, int (card (set ms \<inter> set_at db k))), db')" "kv_inv db'"
    "\<forall>k'. kv_abs db' k' = (if k' = k \<and> (\<exists>s. kv_abs db k = Some (ASet s)) then Some (ASet (set_at db k - set ms)) else kv_abs db k')"
    using kv_srem_ok [OF assms(1), of k ms] by blast
  have srem: "\<exists>db'. kv_srem db k ms = ((0, int (card (set ms \<inter> set_at db k))), db') \<and> kv_inv db' \<and>
      set_at db' k = set_at db k - set ms \<and> (\<forall>k'. k' \<noteq> k \<longrightarrow> kv_abs db' k' = kv_abs db k')"
    using d(1,2) at [OF d(3)] d(3) by (intro exI [of _ db']) auto
  show ?thesis by (intro conjI) (rule kv_sadd_ok [OF assms] srem set_reads [OF assms(1)])+
qed

theorem set_commands_witness:
  "\<exists>db'. kv_sadd (\<lambda>_. True) (kv_init None) ''s'' [''a'', ''b'', ''a''] = Inr ((0, Some 2), db') \<and>
     kv_abs db' ''s'' = Some (ASet {''a'', ''b''})"
proof -
  have "{''a'', ''b'', ''a''} = {''a'', ''b''}" by auto
  then show ?thesis using set_commands [OF init_ready, of "''s''" "[''a'', ''b'', ''a'']" "''a''"] by (auto simp: insert_commute)
qed

text \<open>HSET updates one field and says whether it is new, HDEL removes the given fields and
  counts them, and the reading commands report exactly the hash at the key, fields and values in
  the same order.\<close>

theorem hash_commands:
  assumes "kv_inv db" "can_grow mem db"
  shows "(\<exists>db'. kv_hset mem db k f v = Inr ((0, Some (if f \<in> dom (hash_at db k) then 0 else 1)), db') \<and> kv_inv db' \<and>
        kv_hget db' k f = Some v \<and> kv_abs db' = (kept mem db k)(k \<mapsto> AHash ((hash_at db k)(f \<mapsto> Some v)))) \<and>
    (\<exists>db'. kv_hdel db k fs = ((0, int (card (set fs \<inter> dom (hash_at db k)))), db') \<and> kv_inv db' \<and>
        hash_at db' k = hash_at db k |` (- set fs) \<and> (\<forall>k'. k' \<noteq> k \<longrightarrow> kv_abs db' k' = kv_abs db k')) \<and>
    kv_hexists db k f = (if f \<in> dom (hash_at db k) then 1 else 0) \<and> kv_hlen db k = (0, card (dom (hash_at db k))) \<and>
    (\<exists>gs. kv_hkeys db k = (0, gs) \<and> distinct gs \<and> set gs = dom (hash_at db k) \<and>
        kv_hvals db k = (0, map (field_val (hash_at db k)) gs) \<and>
        kv_hgetall db k = (0, concat (map (\<lambda>g. [g, field_val (hash_at db k) g]) gs)))"
proof -
  have 1: "hash_at db' k = hash_at db k |` (- set fs)"
    if "\<forall>k'. kv_abs db' k' = (if k' = k \<and> (\<exists>s. kv_abs db k = Some (AHash s)) then Some (AHash (hash_at db k |` (- set fs))) else kv_abs db k')" for db'
    using that by (auto simp: hash_at_def restrict_map_def split: option.splits aval.splits)
  have 2: "kv_hget db' k f = Some v"
    if "kv_inv db'" "kv_abs db' = (kept mem db k)(k \<mapsto> AHash ((hash_at db k)(f \<mapsto> Some v)))" for db'
    using hash_reads(1) [OF that(1), of k f] that(2) by (simp add: hash_at_def)
  show ?thesis
  proof (intro conjI)
    show "\<exists>db'. kv_hset mem db k f v = Inr ((0, Some (if f \<in> dom (hash_at db k) then 0 else 1)), db') \<and> kv_inv db' \<and>
        kv_hget db' k f = Some v \<and> kv_abs db' = (kept mem db k)(k \<mapsto> AHash ((hash_at db k)(f \<mapsto> Some v)))"
      using kv_hset_ok [OF assms, of k f v] 2 by blast
    show "\<exists>db'. kv_hdel db k fs = ((0, int (card (set fs \<inter> dom (hash_at db k)))), db') \<and> kv_inv db' \<and>
        hash_at db' k = hash_at db k |` (- set fs) \<and> (\<forall>k'. k' \<noteq> k \<longrightarrow> kv_abs db' k' = kv_abs db k')"
    proof -
      from kv_hdel_ok [OF assms(1), of k fs] obtain db' where
        d: "kv_hdel db k fs = ((0, int (card (set fs \<inter> dom (hash_at db k)))), db')" "kv_inv db'"
        "\<forall>k'. kv_abs db' k' = (if k' = k \<and> (\<exists>s. kv_abs db k = Some (AHash s)) then Some (AHash (hash_at db k |` (- set fs))) else kv_abs db k')"
        by blast
      from 1 [OF d(3)] d show ?thesis by (intro exI [of _ db']) auto
    qed
  qed (use hash_reads [OF assms(1), of k] in blast)+
qed

theorem hash_commands_witness:
  "\<exists>db'. kv_hset (\<lambda>_. True) (kv_init None) ''h'' ''f'' ''v'' = Inr ((0, Some 1), db') \<and> kv_hget db' ''h'' ''f'' = Some ''v''"
  using hash_commands [OF init_ready, of "''h''" "''f''" "''v''"] by auto

subsection \<open>Sorted sets\<close>

text \<open>ZADD with a score that is a number keeps the sorted set in order and inserts one entry; it
  does so also when the member is already there, so the member then occurs twice.\<close>

theorem zadd_inserts:
  assumes "kv_inv db" "can_grow mem db" "zsorted (zset_at db k)" "\<not> dbl_nan score"
  shows "\<exists>db'. kv_zadd mem rs db k score member = Inr ((0, Some 1), db') \<and> kv_inv db' \<and>
    zsorted (zset_at db' k) \<and> mset (zset_at db' k) = add_mset (score, member) (mset (zset_at db k)) \<and>
    (\<forall>k'. k' \<noteq> k \<longrightarrow> kv_abs db' k' = kept mem db k k')"
proof -
  obtain db' where d: "kv_zadd mem rs db k score member = Inr ((0, Some 1), db')" "kv_inv db'"
    "kv_abs db' = (kept mem db k)(k \<mapsto> AZset (zins (score, member) (zset_at db k)))" "zsorted (zins (score, member) (zset_at db k))"
    using kv_zadd_ok [OF assms] by blast
  then have "zset_at db' k = zins (score, member) (zset_at db k)" by (simp add: zset_at_def)
  with d show ?thesis by (intro exI [of _ db']) (simp add: mset_zins)
qed

theorem zadd_inserts_witness:
  "\<exists>db'. kv_zadd (\<lambda>_. True) z_level1 (kv_init None) ''z'' 0 ''m'' = Inr ((0, Some 1), db') \<and> zset_at db' ''z'' = [(0, ''m'')]"
  using zadd_inserts [OF init_ready, of "''z''" 0 z_level1 "''m''"] by (auto simp: zsorted_def dbl_nan_def dbl_mag_def)

text \<open>ZRANGE and ZREVRANGE return the members between two positions of the order and of its
  reverse, negative positions counting from the end, and never leave the list.\<close>

theorem zrange_slices:
  assumes "kv_inv db"
  shows "kv_zrange db k a b = Inr (0, zslice a b (map snd (zset_at db k))) \<and>
    kv_zrevrange db k a b = Inr (0, zslice a b (rev (map snd (zset_at db k)))) \<and>
    kv_zcard db k = (0, length (zset_at db k))"
  using kv_zrange_ok [OF assms] kv_zcard_ok [OF assms] by blast

theorem zrange_slices_witness: "kv_zrange (kv_init None) ''z'' 0 (-1) = Inr (0, [])"
  using zrange_slices [OF init_ready(1), of "''z''" 0 "-1"] by (simp add: zslice_def)

text \<open>ZRANK of a member of a sorted set in order is its position, and -1 for a member that is
  not there.\<close>

theorem zrank_position:
  assumes "kv_inv db" "zsorted (zset_at db k)"
  shows "kv_zrank db k m = Inr (0, case find (\<lambda>i. snd (zset_at db k ! i) = m) [0..<length (zset_at db k)] of
      None \<Rightarrow> -1 | Some i \<Rightarrow> int i)"
  by (rule kv_zrank_position [OF assms])

theorem zrank_position_witness: "kv_zrank (kv_init None) ''z'' ''m'' = Inr (0, -1)"
  using zrank_position [OF init_ready(1), of "''z''" "''m''"] by (simp add: zsorted_def)

subsection \<open>Publish/subscribe\<close>

text \<open>C34. After a subscription to a channel with a name of less than 256 bytes, a message that fits 8191 bytes with its
  frame and is published on that channel is sent to the newest 128 subscriptions of the channel, the new one first,
  once for each subscription (a client that subscribed twice receives it twice); no other channel is
  affected, and the return value counts the sends that succeed.\<close>

theorem subscribe_then_publish:
  assumes "ps_inv m" "length ch < CHANNEL_NAME_MAX" "length (pubsub_message ch msg) < BULK_MSG_MAX"
  shows "\<exists>m'. pubsub_subscribe m fd w ch = (0, m') \<and> ps_inv m' \<and>
    (\<forall>ch'. ch' \<noteq> ch \<longrightarrow> subs_of m' ch' = subs_of m ch') \<and> pubsub_numsub m' ch = pubsub_numsub m ch + 1 \<and>
    (let fds = filter (\<lambda>fd. fd \<ge> 0) (map cs_fd (take MAX_BATCH (\<lparr>cs_fd = fd, cs_wlock = w\<rparr> # subs_of m ch))) in
     pubsub_publish send m' ch msg =
       Inr (int (length (filter (\<lambda>fd. send fd (pubsub_message ch msg)) fds)), map (\<lambda>fd. (fd, pubsub_message ch msg)) fds))"
proof -
  obtain m' where m': "pubsub_subscribe m fd w ch = (0, m')"
    using pubsub_subscribe_ok(1) [OF assms(1,2)] by (metis prod.collapse)
  have s: "subs_of m' ch' = (if ch' = ch then \<lparr>cs_fd = fd, cs_wlock = w\<rparr> # subs_of m ch else subs_of m ch')" for ch'
    using pubsub_subscribe_ok(2) [OF assms(1,2), of fd w ch'] m' by simp
  have "ps_inv m'" using pubsub_subscribe_inv [OF assms(1), of fd w ch] m' by simp
  then show ?thesis using m' s pubsub_publish_ok [OF assms(3), of send m']
    by (intro exI [of _ m']) (simp add: pubsub_numsub_def filter_map comp_def filter_filter conj_commute Let_def del: take_Suc_Cons)
qed

theorem subscribe_then_publish_witness:
  "\<exists>m'. pubsub_subscribe pubsub_create 5 None ''c'' = (0, m') \<and>
     pubsub_publish (\<lambda>_ _. True) m' ''c'' ''hi'' = Inr (1, [(5, pubsub_message ''c'' ''hi'')])"
proof -
  have "ps_inv pubsub_create" "length ''c'' < CHANNEL_NAME_MAX" by (simp_all add: ps_inv_def pubsub_create_def CHANNEL_NAME_MAX_def)
  moreover have "length (pubsub_message ''c'' ''hi'') < BULK_MSG_MAX"
    by (simp add: pubsub_message_def resp_bulk_def CRLF_def BULK_MSG_MAX_def nat_dec.simps)
  ultimately show ?thesis
    using subscribe_then_publish [of pubsub_create "''c''" "''hi''" 5 None "\<lambda>_ _. True"]
    by (auto simp: pubsub_create_def MAX_BATCH_def)
qed

text \<open>A channel name of 256 bytes or more is cut when it is stored: the client that subscribed
  to it never receives what is published on it.\<close>

theorem long_channel_unreachable:
  assumes "ps_inv m" "length ch \<ge> CHANNEL_NAME_MAX" "length (pubsub_message ch msg) < BULK_MSG_MAX"
  shows "pubsub_publish send (snd (pubsub_subscribe m fd w ch)) ch msg = Inr (0, [])"
  using pubsub_publish_ok [OF assms(3)] pubsub_subscribe_long(1) [OF assms(1,2)] by simp

theorem long_channel_unreachable_witness:
  "pubsub_publish (\<lambda>_ _. True) (snd (pubsub_subscribe pubsub_create 5 None (replicate 300 CHR ''c''))) (replicate 300 CHR ''c'') ''hi''
     = Inr (0, [])"
proof (rule long_channel_unreachable)
  show "ps_inv pubsub_create" "CHANNEL_NAME_MAX \<le> length (replicate 300 CHR ''c'')"
    by (simp_all add: ps_inv_def pubsub_create_def CHANNEL_NAME_MAX_def)
  show "length (pubsub_message (replicate 300 CHR ''c'') ''hi'') < BULK_MSG_MAX"
    by (simp add: pubsub_message_def resp_bulk_def CRLF_def BULK_MSG_MAX_def nat_dec.simps)
qed

end
