(* ===== verification/C_Text.thy ===== *)
theory C_Text
  imports Decimal
begin

text \<open>
  The text functions of C's standard library that the server, the cluster and the client use,
  on C strings: case-insensitive comparison, \<open>strtok_r\<close>, \<open>strtoll\<close>, \<open>atoi\<close>, the conversions
  of \<open>sscanf\<close>, and the truncation of \<open>snprintf\<close>. The lemmas say what splitting and scanning
  give on text that was printed with separators.
\<close>

subsection \<open>Comparison\<close>

definition to_lower :: "char \<Rightarrow> char" where
  "to_lower c = (if 65 \<le> byte_of c \<and> byte_of c \<le> 90 then char_of (byte_of c + 32) else c)"

text \<open>\<open>strcasecmp(s, t) == 0\<close>, and \<open>strncasecmp(s, t, strlen(t)) == 0\<close>.\<close>

definition same_nocase :: "string \<Rightarrow> string \<Rightarrow> bool" where
  "same_nocase s t \<longleftrightarrow> map to_lower s = map to_lower t"

definition prefix_nocase :: "string \<Rightarrow> string \<Rightarrow> bool" where
  "prefix_nocase s t \<longleftrightarrow> map to_lower (take (length t) s) = map to_lower t"

subsection \<open>Splitting\<close>

text \<open>
  The first \<open>n\<close> tokens that repeated calls of \<open>strtok_r\<close> return for a set of delimiters.
\<close>

fun strtok_loop :: "(char \<Rightarrow> bool) \<Rightarrow> nat \<Rightarrow> string \<Rightarrow> string list" where
  "strtok_loop delim 0 s = []"
| "strtok_loop delim (Suc n) s =
     (let t = dropWhile delim s in
      if t = [] then []
      else takeWhile (\<lambda>c. \<not> delim c) t # strtok_loop delim n (dropWhile (\<lambda>c. \<not> delim c) t))"

lemma strtok_loop_numeral [simp]:
  "strtok_loop delim (numeral k) s =
     (let t = dropWhile delim s in
      if t = [] then []
      else takeWhile (\<lambda>c. \<not> delim c) t # strtok_loop delim (pred_numeral k) (dropWhile (\<lambda>c. \<not> delim c) t))"
  by (simp add: numeral_eq_Suc)

subsection \<open>Numbers\<close>

text \<open>\<open>strtoll(s, NULL, 10)\<close>: a number that does not fit is clipped to the range.\<close>

definition strtoll :: "string \<Rightarrow> int" where
  "strtoll s = (case scan_lld s of None \<Rightarrow> 0 | Some v \<Rightarrow> max i64_min (min i64_max v))"

text \<open>\<open>atoi\<close>, undefined where the number is no \<open>int\<close>.\<close>

definition in_i32 :: "int \<Rightarrow> bool" where
  "in_i32 x \<longleftrightarrow> - 2147483648 \<le> x \<and> x \<le> 2147483647"

definition atoi :: "string \<Rightarrow> int res" where
  "atoi s = (case scan_lld s of None \<Rightarrow> Inr 0 | Some v \<Rightarrow> if in_i32 v then Inr v else Inl SignedOverflow)"

lemma strtoll_range: "in_i64 (strtoll s)"
  by (auto simp: strtoll_def in_i64_def i64_min_def i64_max_def split: option.split)

lemma strtoll_int_dec: "in_i64 v \<Longrightarrow> strtoll (int_dec v) = v"
  using scan_int_dec [of "''''" v] by (simp add: strtoll_def in_i64_def)

lemma atoi_int_dec: "in_i32 v \<Longrightarrow> t = [] \<or> \<not> is_digit (hd t) \<Longrightarrow> atoi (int_dec v @ t) = Inr v"
  by (simp add: atoi_def scan_int_dec)

subsection \<open>Scanning\<close>

text \<open>\<open>%ns\<close> of \<open>sscanf\<close>: at most \<open>n\<close> bytes up to the next white space, and the rest.\<close>

definition scan_word :: "nat \<Rightarrow> string \<Rightarrow> (string \<times> string) option" where
  "scan_word n s =
     (let s = dropWhile is_space s; w = take n (takeWhile (\<lambda>c. \<not> is_space c) s) in
      if w = [] then None else Some (w, drop (length w) s))"

text \<open>The number at the start of the text and what follows it.\<close>

definition scan_num :: "string \<Rightarrow> (int \<times> string) option" where
  "scan_num s =
     (let s = dropWhile is_space s;
          t = (case s of CHR ''-'' # t \<Rightarrow> t | CHR ''+'' # t \<Rightarrow> t | _ \<Rightarrow> s) in
      case scan_lld s of None \<Rightarrow> None | Some v \<Rightarrow> Some (v, dropWhile is_digit t))"

text \<open>\<open>%llu\<close> and \<open>%d\<close>: a number that does not fit is undefined. \<open>%llu\<close> accepts a sign.\<close>

definition scan_llu :: "string \<Rightarrow> (u64 \<times> string) option res" where
  "scan_llu s = (case scan_num s of
       None \<Rightarrow> Inr None
     | Some (v, t) \<Rightarrow> if \<bar>v\<bar> < 2 ^ 64 then Inr (Some (of_int v, t)) else Inl SignedOverflow)"

definition scan_d :: "string \<Rightarrow> (int \<times> string) option res" where
  "scan_d s = (case scan_num s of
       None \<Rightarrow> Inr None
     | Some (v, t) \<Rightarrow> if in_i32 v then Inr (Some (v, t)) else Inl SignedOverflow)"

text \<open>What \<open>snprintf(buf, cap, \<dots>)\<close> leaves in the buffer, read as a C string.\<close>

definition snprintf_cut :: "nat \<Rightarrow> string \<Rightarrow> string" where
  "snprintf_cut cap s = take (cap - 1) s"

lemma snprintf_cut_id: "length s < cap \<Longrightarrow> snprintf_cut cap s = s"
  by (simp add: snprintf_cut_def)

text \<open>Words joined by spaces with \<open>strncat(buf, \<dots>, cap - strlen(buf) - 1)\<close> in a buffer of \<open>cap\<close> bytes.\<close>

definition strncat_buf :: "nat \<Rightarrow> string \<Rightarrow> string \<Rightarrow> string" where
  "strncat_buf cap msg s = msg @ take (cap - length msg - 1) s"

fun join_loop :: "nat \<Rightarrow> string \<Rightarrow> string list \<Rightarrow> string" where
  "join_loop cap msg [] = msg"
| "join_loop cap msg (a # as) = join_loop cap (strncat_buf cap (strncat_buf cap msg '' '') a) as"

definition join_words :: "nat \<Rightarrow> string list \<Rightarrow> string" where
  "join_words cap ws = (case ws of [] \<Rightarrow> [] | a # as \<Rightarrow> join_loop cap (strncat_buf cap [] a) as)"

text \<open>The same without a limit.\<close>

fun join_args :: "string list \<Rightarrow> string" where
  "join_args [] = []"
| "join_args [w] = w"
| "join_args (w # ws) = w @ '' '' @ join_args ws"

lemma join_loop_ok:
  "length (msg @ concat (map ((@) '' '') ws)) < cap \<Longrightarrow> join_loop cap msg ws = msg @ concat (map ((@) '' '') ws)"
  by (induction cap msg ws rule: join_loop.induct) (simp_all add: strncat_buf_def)

lemma join_args_Cons: "join_args (w # ws) = w @ concat (map ((@) '' '') ws)"
  by (induction "w # ws" arbitrary: w ws rule: join_args.induct) simp_all

lemma join_words_ok: "length (join_args ws) < cap \<Longrightarrow> join_words cap ws = join_args ws"
  by (cases ws) (simp_all add: join_words_def join_args_Cons join_loop_ok strncat_buf_def del: join_args.simps(3))

subsection \<open>Printed fields\<close>

text \<open>A field: some bytes without white space.\<close>

definition field :: "string \<Rightarrow> bool" where
  "field w \<longleftrightarrow> w \<noteq> [] \<and> (\<forall>c \<in> set w. \<not> is_space c)"

lemma field_hd: "field w \<Longrightarrow> \<exists>c cs. w = c # cs \<and> \<not> is_space c"
  by (cases w) (auto simp: field_def)

lemma dropWhile_hd: "\<not> P c \<Longrightarrow> dropWhile P (c # cs) = c # cs"
  by simp

lemma scan_word_field:
  assumes "field w" "length w \<le> n" "t = [] \<or> is_space (hd t)"
  shows "scan_word n (w @ t) = Some (w, t)" "scan_word n (CHR '' '' # w @ t) = Some (w, t)"
proof -
  obtain c cs where w: "w = c # cs" "\<not> is_space c" using field_hd [OF assms(1)] by blast
  have sp: "is_space CHR '' ''" by (simp add: is_space_def byte_of_def)
  have "takeWhile (\<lambda>c. \<not> is_space c) (w @ t) = w"
    using assms(1,3) by (subst takeWhile_append2) (auto simp: field_def takeWhile_eq_Nil_iff)
  moreover have "dropWhile is_space (w @ t) = w @ t" using w by simp
  ultimately show "scan_word n (w @ t) = Some (w, t)" "scan_word n (CHR '' '' # w @ t) = Some (w, t)"
    using assms(1,2) sp w(1) by (auto simp: scan_word_def field_def)
qed

lemma nat_dec_field: "field (nat_dec n)"
  using nat_dec_digits digit_chars by (auto simp: field_def)

lemma scan_llu_field:
  assumes "t = [] \<or> \<not> is_digit (hd t)"
  shows "scan_llu (CHR '' '' # nat_dec (unat w) @ t) = Inr (Some (w, t))" "scan_llu (nat_dec (unat w) @ t) = Inr (Some (w, t))"
proof -
  obtain c cs where nd: "nat_dec (unat w) = c # cs" "is_digit c" using nat_dec_hd by blast
  note c = digit_chars [OF nd(2)]
  have sp: "is_space CHR '' ''" by (simp add: is_space_def byte_of_def)
  have dw: "dropWhile is_space (nat_dec (unat w) @ t) = nat_dec (unat w) @ t" using nd c by simp
  have lld: "scan_lld (nat_dec (unat w) @ t) = Some (int (unat w))"
    using scan_int_dec [OF assms, of "int (unat w)"] by (simp add: int_dec_def)
  have "dropWhile is_digit (nat_dec (unat w) @ t) = t"
    using assms nat_dec_digits by (subst dropWhile_append2) (auto simp: dropWhile_eq_self_iff)
  moreover have "(case nat_dec (unat w) @ t of CHR ''-'' # t \<Rightarrow> t | CHR ''+'' # t \<Rightarrow> t | _ \<Rightarrow> nat_dec (unat w) @ t) = nat_dec (unat w) @ t"
    using nd c by (auto split: list.split char.split bool.split)
  ultimately have num: "scan_num (nat_dec (unat w) @ t) = Some (int (unat w), t)"
    using dw lld by (simp add: scan_num_def Let_def)
  have "uint w < 2 ^ LENGTH(64)" by (rule unsigned_less)
  then have "\<bar>int (unat w)\<bar> < 2 ^ 64" by simp
  with num show "scan_llu (nat_dec (unat w) @ t) = Inr (Some (w, t))" by (simp add: scan_llu_def)
  moreover have "scan_num (CHR '' '' # nat_dec (unat w) @ t) = scan_num (nat_dec (unat w) @ t)"
    using sp by (simp add: scan_num_def)
  ultimately show "scan_llu (CHR '' '' # nat_dec (unat w) @ t) = Inr (Some (w, t))" by (simp add: scan_llu_def)
qed

end
