(* ===== verification/Resp_Protocol.thy ===== *)
theory Resp_Protocol
  imports C_Text Pub_Sub "HOL-Library.Sublist"
begin

text \<open>
  The replies of the server and the splitting of a command line (\<open>send_raw\<close> to \<open>send_nil\<close>,
  \<open>parse_line\<close> and \<open>arg_i\<close> of \<open>src/src/server/server.c\<close>). A reply is the bytes handed to
  \<open>send_raw\<close>. The lemmas show that a reply of ordinary size is well-formed RESP, that sending
  makes progress, and how a line is split.
\<close>

definition MAX_ARGS :: nat where
  "MAX_ARGS = 64"

subsection \<open>Sending\<close>

text \<open>\<open>accept i bytes\<close> is what the \<open>i\<close>-th call of \<open>send\<close> returns; the result is what was sent.\<close>

function send_raw :: "(nat \<Rightarrow> string \<Rightarrow> int) \<Rightarrow> nat \<Rightarrow> string \<Rightarrow> string" where
  "send_raw accept i data =
     (if data = [] then []
      else
        let n = accept i data in
        if n \<le> 0 then [] else take (nat n) data @ send_raw accept (Suc i) (drop (nat n) data))"
  by auto
termination by (relation "measure (\<lambda>(_, _, data). length data)") auto

declare send_raw.simps [simp del]

text \<open>Nothing is sent twice or out of order, and everything is sent unless a call fails.\<close>

lemma send_raw_prefix: "prefix (send_raw accept i data) data"
proof (induction accept i data rule: send_raw.induct)
  case (1 accept i data)
  show ?case
  proof (cases "data = [] \<or> accept i data \<le> 0")
    case True
    then show ?thesis by (subst send_raw.simps) auto
  next
    case False
    then have "prefix (send_raw accept (Suc i) (drop (nat (accept i data)) data)) (drop (nat (accept i data)) data)"
      using 1 by auto
    then have "prefix (take (nat (accept i data)) data @ send_raw accept (Suc i) (drop (nat (accept i data)) data))
        (take (nat (accept i data)) data @ drop (nat (accept i data)) data)" by (simp only: same_prefix_prefix)
    with False show ?thesis by (subst send_raw.simps) (auto simp: Let_def)
  qed
qed

lemma send_raw_all: "(\<And>i d. d \<noteq> [] \<Longrightarrow> 0 < accept i d) \<Longrightarrow> send_raw accept i data = data"
proof (induction accept i data rule: send_raw.induct)
  case (1 accept i data)
  show ?case
  proof (cases "data = []")
    case True
    then show ?thesis by (subst send_raw.simps) simp
  next
    case False
    with "1.prems" [of data i] "1.IH" [OF False refl] "1.prems" show ?thesis
      by (subst send_raw.simps) (simp add: Let_def not_le)
  qed
qed

subsection \<open>Replies\<close>

definition send_reply :: "string \<Rightarrow> string" where
  "send_reply msg = msg @ CRLF"

definition send_int :: "int \<Rightarrow> string" where
  "send_int n = send_reply (snprintf_cut 64 ('':'' @ int_dec n))"

text \<open>The text is cut to the buffer but its whole length is sent.\<close>

definition send_bulk :: "string option \<Rightarrow> string res" where
  "send_bulk s = (case s of
       None \<Rightarrow> Inr (send_reply ''$-1'')
     | Some s \<Rightarrow>
         bindr (snprintf_bytes BULK_MSG_MAX (''$'' @ nat_dec (length s) @ CRLF @ s)) (\<lambda>bytes.
         Inr (bytes @ CRLF)))"

definition send_array_len :: "nat \<Rightarrow> string" where
  "send_array_len n = send_reply (snprintf_cut 32 (''*'' @ nat_dec n))"

definition send_err :: "string \<Rightarrow> string" where
  "send_err msg = send_reply (snprintf_cut 512 (''-'' @ msg))"

definition send_ok :: string where
  "send_ok = send_reply ''+OK''"

definition send_pong :: string where
  "send_pong = send_reply ''+PONG''"

definition send_nil :: string where
  "send_nil = send_reply ''$-1''"

text \<open>An array header and its elements.\<close>

fun bulk_loop :: "string list \<Rightarrow> string res" where
  "bulk_loop [] = Inr []"
| "bulk_loop (s # ss) = bindr (send_bulk (Some s)) (\<lambda>b. bindr (bulk_loop ss) (\<lambda>bs. Inr (b @ bs)))"

definition send_array :: "string list \<Rightarrow> string res" where
  "send_array ss = bindr (bulk_loop ss) (\<lambda>bs. Inr (send_array_len (length ss) @ bs))"

subsection \<open>Arguments\<close>

definition is_delim :: "char \<Rightarrow> bool" where
  "is_delim c \<longleftrightarrow> c = CHR '' '' \<or> c = CHR 0x09 \<or> c = CHR 0x0D"

definition parse_line :: "string \<Rightarrow> nat \<Rightarrow> string list" where
  "parse_line buf max_args = strtok_loop is_delim max_args buf"

definition arg_i :: "string list \<Rightarrow> nat \<Rightarrow> int" where
  "arg_i args idx = strtoll (args ! idx)"

subsection \<open>Shape of the replies\<close>

lemma nat_dec_length: "n < 10 ^ k \<Longrightarrow> 0 < k \<Longrightarrow> length (nat_dec n) \<le> k"
proof (induction n arbitrary: k rule: nat_dec.induct)
  case (1 n)
  show ?case
  proof (cases "n < 10")
    case True
    then show ?thesis using "1.prems" by (subst nat_dec.simps) simp
  next
    case False
    obtain j where k: "k = Suc j" using "1.prems"(2) by (cases k) auto
    have "j \<noteq> 0" using "1.prems"(1) False k by (cases j) auto
    moreover have "n div 10 < 10 ^ j" using "1.prems"(1) k by (simp add: less_mult_imp_div_less mult.commute)
    ultimately have "length (nat_dec (n div 10)) \<le> j" using "1.IH" [OF False, of j] by simp
    then show ?thesis using False k by (subst nat_dec.simps) simp
  qed
qed

lemma int_dec_length:
  assumes "in_i64 n"
  shows "length (int_dec n) \<le> 20"
proof -
  have "nat n \<le> nat 9223372036854775808" "nat (- n) \<le> nat 9223372036854775808"
    by (rule nat_mono, use assms in \<open>simp add: in_i64_def i64_min_def i64_max_def\<close>)+
  then have "nat n < 10 ^ 19" "nat (- n) < 10 ^ 19" by simp_all
  then show ?thesis using nat_dec_length [of "nat n" 19] nat_dec_length [of "nat (- n)" 19] by (simp add: int_dec_def)
qed

lemma send_int_ok: "in_i64 n \<Longrightarrow> send_int n = '':'' @ int_dec n @ CRLF"
  using int_dec_length [of n] by (simp add: send_int_def send_reply_def snprintf_cut_def)

lemma send_bulk_ok:
  assumes "length s < 8000"
  shows "send_bulk (Some s) = Inr (resp_bulk s)"
proof -
  have "length (nat_dec (length s)) \<le> 4" using assms by (intro nat_dec_length) simp_all
  then show ?thesis using assms by (simp add: send_bulk_def snprintf_bytes_def resp_bulk_def BULK_MSG_MAX_def CRLF_def)
qed

text \<open>A bulk string of 8192 bytes or more makes the server send bytes past its buffer.\<close>

lemma send_bulk_overread: "BULK_MSG_MAX \<le> length s \<Longrightarrow> send_bulk (Some s) = Inl OverRead"
  by (simp add: send_bulk_def snprintf_bytes_def CRLF_def BULK_MSG_MAX_def)

lemma bulk_loop_ok: "\<forall>s \<in> set ss. length s < 8000 \<Longrightarrow> bulk_loop ss = Inr (concat (map resp_bulk ss))"
  by (induction ss) (simp_all add: send_bulk_ok)

subsection \<open>Splitting a line\<close>

text \<open>A line of words separated by single spaces is split into these words, up to the limit.\<close>

definition word_arg :: "string \<Rightarrow> bool" where
  "word_arg w \<longleftrightarrow> w \<noteq> [] \<and> (\<forall>c \<in> set w. \<not> is_delim c)"

lemma delim_space [simp]: "is_delim CHR '' ''"
  by (simp add: is_delim_def)

lemma strtok_word:
  assumes "word_arg w" "t = [] \<or> is_delim (hd t)"
  shows "strtok_loop is_delim (Suc n) (w @ t) = w # strtok_loop is_delim n t"
proof -
  obtain c cs where w: "w = c # cs" "\<not> is_delim c" using assms(1) by (cases w) (auto simp: word_arg_def)
  have "dropWhile is_delim (w @ t) = w @ t" using w by simp
  moreover have "takeWhile (\<lambda>c. \<not> is_delim c) (w @ t) = w" "dropWhile (\<lambda>c. \<not> is_delim c) (w @ t) = t"
    using assms by (subst takeWhile_append2 dropWhile_append2; cases t; auto simp: word_arg_def)+
  ultimately show ?thesis using w by simp
qed

lemma strtok_skip: "is_delim c \<Longrightarrow> strtok_loop is_delim n (c # s) = strtok_loop is_delim n s"
  by (cases n) simp_all

lemma strtok_nil [simp]: "strtok_loop d n [] = []"
  by (cases n) simp_all

lemma parse_line_join:
  assumes "\<forall>w \<in> set ws. word_arg w" "t = [] \<or> t = [CHR 0x0D]"
  shows "parse_line (join_args ws @ t) n = take n ws"
  using assms(1)
proof (induction ws arbitrary: n rule: join_args.induct)
  case 1
  then show ?case using assms(2) by (cases n) (auto simp: parse_line_def is_delim_def)
next
  case (2 w)
  have "strtok_loop is_delim k t = []" for k using assms(2) by (cases k) (auto simp: is_delim_def)
  moreover have "t = [] \<or> is_delim (hd t)" using assms(2) by (auto simp: is_delim_def)
  ultimately show ?case using 2 strtok_word [of w t] by (cases n) (auto simp: parse_line_def)
next
  case (3 w v vs)
  have "strtok_loop is_delim (Suc k) (join_args (w # v # vs) @ t) = w # strtok_loop is_delim k (join_args (v # vs) @ t)" for k
    using strtok_word [of w "'' '' @ join_args (v # vs) @ t" k] "3.prems" strtok_skip [of "CHR '' ''"] by simp
  then show ?case using 3 by (cases n) (simp_all add: parse_line_def)
qed

end
