(* ===== verification/Cluster_Message.thy ===== *)
theory Cluster_Message
  imports C_Text Key_Space
begin

text \<open>
  The text protocol of the cluster bus (\<open>cluster_cmd_t\<close>, \<open>cluster_build_msg\<close>,
  \<open>cluster_parse_cmd\<close>, \<open>parse_meta\<close> and \<open>parse_join\<close> of \<open>src/src/cluster/cluster.c\<close>). A line is
  a C string; the buffers for keys and values hold 4095 bytes and start zeroed.

  The lemmas give the round trip of the messages a node sends for a write.
\<close>

definition CLUSTER_MSG_SIZE :: nat where
  "CLUSTER_MSG_SIZE = 8192"

datatype cluster_cmd =
    CMD_HEARTBEAT | CMD_SET | CMD_DEL | CMD_JOIN | CMD_SYNC_REQ | CMD_SNAPSHOT | CMD_SNAPSHOT_END | CMD_UNKNOWN

text \<open>The command of a line and the text after it.\<close>

definition cluster_parse_cmd :: "string \<Rightarrow> cluster_cmd \<times> string" where
  "cluster_parse_cmd line =
     (let p = dropWhile is_space line in
      if prefix_nocase p ''HEARTBEAT'' then (CMD_HEARTBEAT, drop 9 p)
      else if prefix_nocase p ''SET '' then (CMD_SET, drop 4 p)
      else if prefix_nocase p ''DEL '' then (CMD_DEL, drop 4 p)
      else if prefix_nocase p ''JOIN '' then (CMD_JOIN, drop 5 p)
      else if prefix_nocase p ''SYNC_REQ'' then (CMD_SYNC_REQ, drop 8 p)
      else if prefix_nocase p ''SNAPSHOT '' then (CMD_SNAPSHOT, drop 9 p)
      else if prefix_nocase p ''SNAPSHOT_END'' then (CMD_SNAPSHOT_END, drop 12 p)
      else (CMD_UNKNOWN, []))"

text \<open>
  \<open>sscanf(rest, "%15s %llu %llu %4095s %4095s", \<dots>) >= 3\<close>: the metadata, key and value when the
  first three conversions succeed. \<open>has_val\<close> says whether the pointer for the value is not null;
  a fifth field writes through it.
\<close>

definition parse_meta :: "string \<Rightarrow> bool \<Rightarrow> (kv_meta \<times> string \<times> string) option res" where
  "parse_meta rest has_val = (case scan_word 15 rest of
       None \<Rightarrow> Inr None
     | Some (origin, s) \<Rightarrow>
         bindr (scan_llu s) (\<lambda>p. case p of None \<Rightarrow> Inr None | Some (ver, s) \<Rightarrow>
         bindr (scan_llu s) (\<lambda>p. case p of None \<Rightarrow> Inr None | Some (wc, s) \<Rightarrow>
         (let m = \<lparr>m_version = ver, m_wallclock = wc, m_origin = origin\<rparr> in
          case scan_word 4095 s of
            None \<Rightarrow> Inr (Some (m, '''', ''''))
          | Some (key, s) \<Rightarrow>
              (case scan_word 4095 s of
                 None \<Rightarrow> Inr (Some (m, key, ''''))
               | Some (val, _) \<Rightarrow> if has_val then Inr (Some (m, key, val)) else Inl NullDeref)))))"

text \<open>\<open>sscanf(rest, "%15s %d", \<dots>) == 2\<close>.\<close>

definition parse_join :: "string \<Rightarrow> (string \<times> int) option res" where
  "parse_join rest = (case scan_word 15 rest of
       None \<Rightarrow> Inr None
     | Some (nid, s) \<Rightarrow> bindr (scan_d s) (\<lambda>p. Inr (map_option (\<lambda>(port, _). (nid, port)) p)))"

text \<open>
  The text in the buffer of size \<open>len\<close> after a call, \<open>None\<close> for the commands that have no
  message and return -1. Only \<open>SET\<close> and \<open>DEL\<close> read the metadata without a null check.
\<close>

definition u64_dec :: "u64 \<Rightarrow> string" where
  "u64_dec w = nat_dec (unat w)"

definition meta_fields :: "kv_meta \<Rightarrow> string" where
  "meta_fields m = m_origin m @ '' '' @ u64_dec (m_version m) @ '' '' @ u64_dec (m_wallclock m)"

definition meta_version_or_0 :: "kv_meta option \<Rightarrow> u64" where
  "meta_version_or_0 m = (case m of None \<Rightarrow> 0 | Some m \<Rightarrow> m_version m)"

definition NL :: string where
  "NL = [CHR 0x0A]"

definition cluster_build_msg ::
  "nat \<Rightarrow> cluster_cmd \<Rightarrow> string \<Rightarrow> string \<Rightarrow> kv_meta option \<Rightarrow> string option res" where
  "cluster_build_msg len cmd key val meta =
     (let put = (\<lambda>s. Inr (Some (snprintf_cut len s))) in
      case cmd of
        CMD_HEARTBEAT \<Rightarrow> put (''HEARTBEAT '' @ u64_dec (meta_version_or_0 meta) @ NL)
      | CMD_SET \<Rightarrow> (case meta of None \<Rightarrow> Inl NullDeref
                     | Some m \<Rightarrow> put (''SET '' @ meta_fields m @ '' '' @ key @ '' '' @ val @ NL))
      | CMD_DEL \<Rightarrow> (case meta of None \<Rightarrow> Inl NullDeref
                     | Some m \<Rightarrow> put (''DEL '' @ meta_fields m @ '' '' @ key @ NL))
      | CMD_SYNC_REQ \<Rightarrow> put (''SYNC_REQ '' @ key @ NL)
      | CMD_SNAPSHOT \<Rightarrow> put (''SNAPSHOT '' @ u64_dec (meta_version_or_0 meta) @ NL)
      | CMD_SNAPSHOT_END \<Rightarrow> put (''SNAPSHOT_END'' @ NL)
      | _ \<Rightarrow> Inr None)"

subsection \<open>Round trips\<close>

lemma prefix_nocase_self [simp]: "prefix_nocase (t @ s) t"
  by (simp add: prefix_nocase_def)

lemma prefix_nocase_diff: "\<exists>i < length t. i < length s \<and> to_lower (s ! i) \<noteq> to_lower (t ! i) \<Longrightarrow> \<not> prefix_nocase s t"
proof
  assume "\<exists>i < length t. i < length s \<and> to_lower (s ! i) \<noteq> to_lower (t ! i)" "prefix_nocase s t"
  then obtain i where i: "i < length t" "i < length s" "to_lower (s ! i) \<noteq> to_lower (t ! i)"
    and eq: "map to_lower (take (length t) s) = map to_lower t" by (auto simp: prefix_nocase_def)
  from arg_cong [OF eq, of "\<lambda>xs. xs ! i"] i show False by simp
qed

lemma cluster_parse_SET: "cluster_parse_cmd (''SET '' @ s) = (CMD_SET, s)"
proof -
  have "\<not> is_space CHR ''S''" by (simp add: is_space_def byte_of_def)
  moreover have "\<not> prefix_nocase (''SET '' @ s) ''HEARTBEAT''"
    by (rule prefix_nocase_diff, rule exI [of _ 0]) (simp add: to_lower_def byte_of_def)
  ultimately show ?thesis using prefix_nocase_self [of "''SET ''" s] by (simp add: cluster_parse_cmd_def)
qed

lemma cluster_parse_DEL: "cluster_parse_cmd (''DEL '' @ s) = (CMD_DEL, s)"
proof -
  have "\<not> is_space CHR ''D''" by (simp add: is_space_def byte_of_def)
  moreover have "\<not> prefix_nocase (''DEL '' @ s) ''HEARTBEAT''" "\<not> prefix_nocase (''DEL '' @ s) ''SET ''"
    by (rule prefix_nocase_diff, rule exI [of _ 0], simp add: to_lower_def byte_of_def)+
  ultimately show ?thesis using prefix_nocase_self [of "''DEL ''" s] by (simp add: cluster_parse_cmd_def)
qed

lemma space_space [simp]: "is_space CHR '' ''" "\<not> is_digit CHR '' ''"
  by (simp_all add: is_space_def is_digit_def byte_of_def)

definition good_meta :: "kv_meta \<Rightarrow> bool" where
  "good_meta m \<longleftrightarrow> field (m_origin m) \<and> length (m_origin m) \<le> 15"

lemma scan_word_none: "scan_word n [] = None"
  by (simp add: scan_word_def)

lemma parse_meta_SET:
  assumes "good_meta m" "field key" "length key \<le> 4095" "field val" "length val \<le> 4095"
  shows "parse_meta (meta_fields m @ '' '' @ key @ '' '' @ val) True = Inr (Some (m, key, val))"
proof -
  have o: "scan_word 15 (m_origin m @ '' '' @ t) = Some (m_origin m, '' '' @ t)" for t
    using assms(1) by (intro scan_word_field) (auto simp: good_meta_def)
  have k: "scan_word 4095 (CHR '' '' # key @ CHR '' '' # val) = Some (key, CHR '' '' # val)"
    using assms(2,3) by (intro scan_word_field(2)) auto
  have v: "scan_word 4095 (CHR '' '' # val) = Some (val, [])"
    using scan_word_field(2) [OF assms(4,5), of "[]"] by simp
  show ?thesis using o k v
    by (simp add: parse_meta_def meta_fields_def u64_dec_def scan_llu_field)
qed

lemma parse_meta_DEL:
  assumes "good_meta m" "field key" "length key \<le> 4095"
  shows "parse_meta (meta_fields m @ '' '' @ key) has_val = Inr (Some (m, key, ''''))"
proof -
  have o: "scan_word 15 (m_origin m @ '' '' @ t) = Some (m_origin m, '' '' @ t)" for t
    using assms(1) by (intro scan_word_field) (auto simp: good_meta_def)
  have k: "scan_word 4095 (CHR '' '' # key) = Some (key, [])"
    using scan_word_field(2) [OF assms(2,3), of "[]"] by simp
  show ?thesis using o k
    by (simp add: parse_meta_def meta_fields_def u64_dec_def scan_llu_field scan_word_none)
qed

end
