(* ===== verification/Cluster_Conf.thy ===== *)
theory Cluster_Conf
  imports C_Text
begin

text \<open>
  The cluster configuration file (\<open>src/src/cluster/conf.h\<close> and \<open>src/src/cluster/conf.c\<close>): one
  node per line, with fields \<open>key=value\<close>. The lemmas relate the search for a field, which
  jumps from one occurrence of the key to the next with \<open>strstr\<close>, to its specification: the
  first place where the key stands at the start of a word and is followed by an equals sign.
\<close>

definition NODE_ID_LEN :: nat where "NODE_ID_LEN = 16"
definition NODE_HOST_LEN :: nat where "NODE_HOST_LEN = 64"

datatype repl_mode = REPL_AUTO | REPL_DISK | REPL_MEMORY

record cluster_node_conf =
  n_id :: string
  n_host :: string
  n_client_port :: int
  n_cluster_port :: int
  n_repl :: repl_mode

record cluster_conf =
  cf_nodes :: "cluster_node_conf list"
  cf_my_node :: int
  cf_my_cluster_port :: int

subsection \<open>Fields\<close>

text \<open>\<open>strstr\<close> from position \<open>i\<close>: the position of the next occurrence.\<close>

definition occurs_at :: "string \<Rightarrow> string \<Rightarrow> nat \<Rightarrow> bool" where
  "occurs_at line key j \<longleftrightarrow> take (length key) (drop j line) = key"

definition strstr_from :: "string \<Rightarrow> string \<Rightarrow> nat \<Rightarrow> nat option" where
  "strstr_from line key i = find (occurs_at line key) [i..<length line]"

text \<open>The key starts a word of the line and is followed by \<open>=\<close>.\<close>

definition starts_field :: "string \<Rightarrow> string \<Rightarrow> nat \<Rightarrow> bool" where
  "starts_field line key j \<longleftrightarrow>
     (j = 0 \<or> is_space (line ! (j - 1))) \<and> j + length key < length line \<and> line ! (j + length key) = CHR ''=''"

definition field_value :: "string \<Rightarrow> string \<Rightarrow> nat \<Rightarrow> string" where
  "field_value line key j = takeWhile (\<lambda>c. \<not> is_space c) (drop (j + length key + 1) line)"

lemma find_upt_Some:
  "find P [i..<n] = Some j \<longleftrightarrow> i \<le> j \<and> j < n \<and> P j \<and> (\<forall>l. i \<le> l \<and> l < j \<longrightarrow> \<not> P l)" for i n :: nat
proof
  assume "find P [i..<n] = Some j"
  then obtain k where k: "k < n - i" "j = i + k" "P j" "\<forall>m < k. \<not> P (i + m)" by (auto simp: find_Some_iff)
  have "\<not> P l" if "i \<le> l" "l < j" for l using k(2,4) that by (auto dest: spec [of _ "l - i"])
  with k show "i \<le> j \<and> j < n \<and> P j \<and> (\<forall>l. i \<le> l \<and> l < j \<longrightarrow> \<not> P l)" by auto
next
  assume "i \<le> j \<and> j < n \<and> P j \<and> (\<forall>l. i \<le> l \<and> l < j \<longrightarrow> \<not> P l)"
  then show "find P [i..<n] = Some j" unfolding find_Some_iff by (intro exI [of _ "j - i"]) auto
qed

lemma strstr_from_Some:
  "strstr_from line key i = Some j \<longleftrightarrow> i \<le> j \<and> j < length line \<and> occurs_at line key j \<and> (\<forall>l. i \<le> l \<and> l < j \<longrightarrow> \<not> occurs_at line key l)"
  by (simp add: strstr_from_def find_upt_Some)

lemma strstr_from_None: "strstr_from line key i = None \<longleftrightarrow> (\<forall>j. i \<le> j \<and> j < length line \<longrightarrow> \<not> occurs_at line key j)"
  by (auto simp: strstr_from_def find_None_iff)

text \<open>The loop of \<open>parse_field_str\<close>; the keys are literals, never empty.\<close>

function field_loop :: "string \<Rightarrow> string \<Rightarrow> nat \<Rightarrow> string option" where
  "field_loop line key i =
     (if i \<ge> length line \<or> key = [] then None
      else (case strstr_from line key i of
          None \<Rightarrow> None
        | Some j \<Rightarrow>
            if starts_field line key j then Some (field_value line key j)
            else field_loop line key (j + length key)))"
  by auto
termination
proof (relation "measure (\<lambda>(line, key, i). length line - i)", goal_cases)
  case (2 line key i j)
  then have "i < length line" "i \<le> j" "0 < length key" by (auto simp: strstr_from_Some)
  then have "length line - (j + length key) < length line - i" by (intro diff_less_mono2; linarith)
  then show ?case by simp
qed simp

declare field_loop.simps [simp del]

definition parse_field_str :: "string \<Rightarrow> string \<Rightarrow> nat \<Rightarrow> string option" where
  "parse_field_str line key out_len = map_option (take (out_len - 1)) (field_loop line key 0)"

subsection \<open>Lines and the file\<close>

definition set_port :: "string option \<Rightarrow> cluster_node_conf \<Rightarrow> cluster_node_conf res" where
  "set_port port node = (case port of
       None \<Rightarrow> Inr node
     | Some s \<Rightarrow>
         (case dropWhile (\<lambda>c. c \<noteq> CHR '':'') s of
            [] \<Rightarrow> bindr (atoi s) (\<lambda>p. Inr (node\<lparr>n_client_port := p\<rparr>))
          | _ # rest \<Rightarrow>
              bindr (atoi (takeWhile (\<lambda>c. c \<noteq> CHR '':'') s)) (\<lambda>p.
              bindr (atoi rest) (\<lambda>q. Inr (node\<lparr>n_client_port := p, n_cluster_port := q\<rparr>)))))"

definition set_repl :: "string option \<Rightarrow> cluster_node_conf \<Rightarrow> cluster_node_conf" where
  "set_repl repl node = (case repl of
       None \<Rightarrow> node
     | Some s \<Rightarrow>
         if strcmp s ''disk'' = 0 then node\<lparr>n_repl := REPL_DISK\<rparr>
         else if strcmp s ''memory'' = 0 then node\<lparr>n_repl := REPL_MEMORY\<rparr> else node)"

text \<open>The node of a line, \<open>None\<close> for a comment, an empty line and a line without id or host.\<close>

definition conf_line :: "int \<Rightarrow> int \<Rightarrow> string \<Rightarrow> cluster_node_conf option res" where
  "conf_line my_client_port my_cluster_port line =
     (let p = dropWhile is_space line in
      if p = [] \<or> hd p = CHR ''#'' then Inr None
      else (case parse_field_str line ''id'' NODE_ID_LEN of None \<Rightarrow> Inr None | Some nid \<Rightarrow>
           (case parse_field_str line ''host'' NODE_HOST_LEN of None \<Rightarrow> Inr None | Some host \<Rightarrow>
              bindr (set_port (parse_field_str line ''port'' 32)
                       \<lparr>n_id = nid, n_host = host, n_client_port = my_client_port,
                        n_cluster_port = my_cluster_port, n_repl = REPL_AUTO\<rparr>) (\<lambda>node.
              Inr (Some (set_repl (parse_field_str line ''replicate'' 16) node))))))"

fun conf_lines :: "int \<Rightarrow> int \<Rightarrow> string list \<Rightarrow> cluster_node_conf list res" where
  "conf_lines cp bp [] = Inr []"
| "conf_lines cp bp (l # ls) =
     bindr (conf_line cp bp l) (\<lambda>n. bindr (conf_lines cp bp ls) (\<lambda>ns.
     Inr (case n of None \<Rightarrow> ns | Some n \<Rightarrow> n # ns)))"

text \<open>\<open>fgets\<close> with a buffer of 256 bytes: a line with its newline, or 255 bytes of a longer one.\<close>

function fgets_all :: "string \<Rightarrow> string list" where
  "fgets_all s =
     (if s = [] then []
      else
        let l = takeWhile (\<lambda>c. c \<noteq> CHR 0x0A) s;
            n = min 255 (length l + 1) in
        cstr_of (take n s) # fgets_all (drop n s))"
  by auto
termination by (relation "measure length") auto

declare fgets_all.simps [simp del]

fun node_index :: "int \<Rightarrow> cluster_node_conf list \<Rightarrow> int \<Rightarrow> int" where
  "node_index port [] i = 0"
| "node_index port (n # ns) i = (if n_client_port n = port then i else node_index port ns (i + 1))"

text \<open>\<open>None\<close> when there is no file or no node in it. \<open>realloc\<close> of the node array succeeds.\<close>

definition cluster_conf_load :: "string option \<Rightarrow> int \<Rightarrow> int \<Rightarrow> cluster_conf option res" where
  "cluster_conf_load file my_client_port my_cluster_port = (case file of
       None \<Rightarrow> Inr None
     | Some text \<Rightarrow>
         bindr (conf_lines my_client_port my_cluster_port (fgets_all text)) (\<lambda>nodes.
         if nodes = [] then Inr None
         else Inr (Some \<lparr>cf_nodes = nodes, cf_my_node = node_index my_client_port nodes 0,
                         cf_my_cluster_port = my_cluster_port\<rparr>)))"

subsection \<open>The search finds the first field\<close>

definition field_ref :: "string \<Rightarrow> string \<Rightarrow> string option" where
  "field_ref line key =
     map_option (field_value line key) (find (\<lambda>j. occurs_at line key j \<and> starts_field line key j) [0..<length line])"

text \<open>A key that begins a word does not overlap an earlier occurrence.\<close>

lemma no_overlap:
  assumes "occurs_at line key j" "j < length line" "j < l" "l < j + length key" "starts_field line key l" "\<forall>c \<in> set key. \<not> is_space c"
  shows False
proof -
  have "is_space (line ! (l - 1))" using assms(3,5) by (auto simp: starts_field_def)
  moreover have "line ! (l - 1) = key ! (l - 1 - j)"
  proof -
    have "l - 1 - j < length key" using assms(3,4) by auto
    moreover have "take (length key) (drop j line) ! (l - 1 - j) = key ! (l - 1 - j)" using assms(1) by (simp add: occurs_at_def)
    moreover have "j + (l - 1 - j) = l - 1" using assms(3) by auto
    ultimately show ?thesis using assms(2) by simp
  qed
  moreover have "l - 1 - j < length key" using assms(3,4) by auto
  ultimately show False using assms(6) nth_mem by metis
qed

lemma find_upt_skip:
  fixes i n :: nat
  assumes "i \<le> k" "\<And>l. i \<le> l \<Longrightarrow> l < k \<Longrightarrow> \<not> P l"
  shows "find P [i..<n] = find P [k..<n]"
proof -
  have "find P [i..<n] = Some j \<longleftrightarrow> find P [k..<n] = Some j" for j
  proof
    assume "find P [i..<n] = Some j"
    then have j: "i \<le> j" "j < n" "P j" "\<forall>l. i \<le> l \<and> l < j \<longrightarrow> \<not> P l" by (auto simp: find_upt_Some)
    then have "k \<le> j" using assms(2) [of j] by (cases "j < k") auto
    with j assms(1) show "find P [k..<n] = Some j" by (auto simp: find_upt_Some)
  next
    assume "find P [k..<n] = Some j"
    then have j: "k \<le> j" "j < n" "P j" "\<forall>l. k \<le> l \<and> l < j \<longrightarrow> \<not> P l" by (auto simp: find_upt_Some)
    have "\<not> P l" if "i \<le> l" "l < j" for l using that assms(2) [of l] j(4) by (cases "l < k") auto
    with j assms(1) show "find P [i..<n] = Some j" by (auto simp: find_upt_Some)
  qed
  then show ?thesis by (metis not_Some_eq)
qed

lemma field_loop_ref:
  assumes "key \<noteq> []" "\<forall>c \<in> set key. \<not> is_space c"
  shows "field_loop line key i =
    map_option (field_value line key) (find (\<lambda>j. occurs_at line key j \<and> starts_field line key j) [i..<length line])"
  using assms
proof (induction line key i rule: field_loop.induct)
  case (1 line key i)
  let ?P = "\<lambda>j. occurs_at line key j \<and> starts_field line key j"
  show ?case
  proof (cases "strstr_from line key i")
    case None
    then have "find ?P [i..<length line] = None" by (auto simp: strstr_from_None find_None_iff)
    with None show ?thesis by (subst field_loop.simps) auto
  next
    case (Some j)
    then have j: "i \<le> j" "j < length line" "occurs_at line key j" "\<forall>l. i \<le> l \<and> l < j \<longrightarrow> \<not> occurs_at line key l"
      by (auto simp: strstr_from_Some)
    have go: "\<not> (i \<ge> length line \<or> key = [])" using j "1.prems" by auto
    show ?thesis
    proof (cases "starts_field line key j")
      case True
      then have "find ?P [i..<length line] = Some j" using j by (auto simp: find_upt_Some)
      with True Some go show ?thesis by (subst field_loop.simps) simp
    next
      case False
      have "\<not> ?P l" if "i \<le> l" "l < j + length key" for l
        using j False that no_overlap [OF j(3,2), of l] "1.prems"(2) by (cases "l < j"; cases "l = j") auto
      then have "find ?P [i..<length line] = find ?P [j + length key..<length line]"
        using j(1) by (intro find_upt_skip) auto
      with False Some go 1 show ?thesis by (subst field_loop.simps) simp
    qed
  qed
qed

end
