(* ===== verification/Work_Queues.thy ===== *)
theory Work_Queues
  imports Heap_Cells
begin

text \<open>
  The two work queues of the program: the job list of the thread pool (\<open>tp_submit\<close>,
  \<open>tp_worker\<close>, \<open>tp_init\<close> and \<open>tp_shutdown\<close> of \<open>src/src/server/server.c\<close>) and the replication
  ring (\<open>repl_enqueue\<close> and the loop of \<open>repl_thread\<close> of \<open>src/src/cluster/cluster.c\<close>). Their
  critical sections are the steps. Both are interpretations of one contract, \<open>fifo\<close>; the ring
  keeps it only until its write index wraps around.
\<close>

subsection \<open>The contract\<close>

datatype 'x qevent = Put 'x | Take

text \<open>A run of producer and consumer steps, with what the consumer took.\<close>

fun qrun :: "('s \<Rightarrow> 'x \<Rightarrow> 's res) \<Rightarrow> ('s \<Rightarrow> ('x \<times> 's) option res) \<Rightarrow> 's \<Rightarrow> 'x qevent list \<Rightarrow> ('x list \<times> 's) res" where
  "qrun enq deq s [] = Inr ([], s)"
| "qrun enq deq s (Put x # es) = bindr (enq s x) (\<lambda>s. qrun enq deq s es)"
| "qrun enq deq s (Take # es) =
     bindr (deq s) (\<lambda>p. case p of
       None \<Rightarrow> qrun enq deq s es
     | Some (x, s) \<Rightarrow> bindr (qrun enq deq s es) (\<lambda>(out, s). Inr (x # out, s)))"

fun puts :: "'x qevent list \<Rightarrow> 'x list" where
  "puts [] = []"
| "puts (Put x # es) = x # puts es"
| "puts (Take # es) = puts es"

lemma puts_append [simp]: "puts (es @ fs) = puts es @ puts fs"
  by (induction es rule: puts.induct) simp_all

lemma puts_takes [simp]: "puts (replicate n Take) = []"
  by (induction n) simp_all

text \<open>\<open>room s n\<close>: there is room for \<open>n\<close> more items.\<close>

locale fifo =
  fixes enq :: "'s \<Rightarrow> 'x \<Rightarrow> 's res"
    and deq :: "'s \<Rightarrow> ('x \<times> 's) option res"
    and items :: "'s \<Rightarrow> 'x list"
    and inv :: "'s \<Rightarrow> bool"
    and room :: "'s \<Rightarrow> nat \<Rightarrow> bool"
  assumes enq_law: "inv s \<Longrightarrow> room s (Suc n) \<Longrightarrow>
      \<exists>s'. enq s x = Inr s' \<and> inv s' \<and> room s' n \<and> items s' = items s @ [x]"
    and deq_empty: "inv s \<Longrightarrow> items s = [] \<Longrightarrow> deq s = Inr None"
    and deq_law: "inv s \<Longrightarrow> items s = x # xs \<Longrightarrow>
      \<exists>s'. deq s = Inr (Some (x, s')) \<and> inv s' \<and> (\<forall>n. room s n \<longrightarrow> room s' n) \<and> items s' = xs"
begin

text \<open>Items leave in the order they came, none is lost or duplicated.\<close>

lemma run_fifo:
  "inv s \<Longrightarrow> room s (length (puts es)) \<Longrightarrow>
     \<exists>out s'. qrun enq deq s es = Inr (out, s') \<and> inv s' \<and> items s @ puts es = out @ items s'"
proof (induction es arbitrary: s rule: puts.induct)
  case (2 x es)
  then obtain s1 where s1: "enq s x = Inr s1" "inv s1" "room s1 (length (puts es))" "items s1 = items s @ [x]"
    using enq_law [of s "length (puts es)" x] by auto
  with "2.IH" [of s1] show ?case by auto
next
  case (3 es)
  show ?case
  proof (cases "items s")
    case Nil
    with "3.IH" [of s] "3.prems" deq_empty [of s] show ?thesis by simp
  next
    case (Cons x xs)
    obtain s1 where s1: "deq s = Inr (Some (x, s1))" "inv s1" "\<forall>n. room s n \<longrightarrow> room s1 n" "items s1 = xs"
      using deq_law [OF "3.prems"(1) Cons] by blast
    with "3.IH" [of s1] "3.prems" Cons show ?thesis by fastforce
  qed
qed simp

text \<open>As many consumer steps as there are items empty the queue.\<close>

lemma run_drain:
  "inv s \<Longrightarrow> length (items s) \<le> n \<Longrightarrow>
     \<exists>s'. qrun enq deq s (replicate n Take) = Inr (items s, s') \<and> inv s' \<and> items s' = []"
proof (induction n arbitrary: s)
  case (Suc n)
  show ?case
  proof (cases "items s")
    case Nil
    with Suc.IH [of s] Suc.prems deq_empty [of s] show ?thesis by simp
  next
    case (Cons x xs)
    obtain s1 where s1: "deq s = Inr (Some (x, s1))" "inv s1" "items s1 = xs"
      using deq_law [OF Suc.prems(1) Cons] by blast
    with Suc.IH [of s1] Suc.prems Cons show ?thesis by auto
  qed
qed simp

end

subsection \<open>The thread pool\<close>

record tp_job =
  j_fd :: int
  j_next :: "addr option"

record thread_pool =
  tp_head :: "addr option"
  tp_tail :: "addr option"
  tp_heap :: "tp_job heap"
  tp_brk :: addr
  tp_stop :: bool

definition tp_init :: thread_pool where
  "tp_init = \<lparr>tp_head = None, tp_tail = None, tp_heap = (\<lambda>_. None), tp_brk = 0, tp_stop = False\<rparr>"

definition tp_submit :: "thread_pool \<Rightarrow> int \<Rightarrow> thread_pool res" where
  "tp_submit tp fd =
     (let j = tp_brk tp;
          tp = tp\<lparr>tp_heap := (tp_heap tp)(j \<mapsto> \<lparr>j_fd = fd, j_next = None\<rparr>), tp_brk := Suc j\<rparr> in
      case tp_tail tp of
        None \<Rightarrow> Inr (tp\<lparr>tp_head := Some j, tp_tail := Some j\<rparr>)
      | Some t \<Rightarrow>
          bindr (store (tp_heap tp) t (\<lambda>n. n\<lparr>j_next := Some j\<rparr>)) (\<lambda>h.
          Inr (tp\<lparr>tp_heap := h, tp_tail := Some j\<rparr>)))"

text \<open>
  What a worker does with the lock held: it waits while there is no job, leaves when the pool is
  stopping and there is none, and else takes the first job. The job is freed once its connection
  has been handled, when nothing points to it any more.
\<close>

datatype tp_next = TP_Wait | TP_Exit | TP_Job int

definition tp_worker_take :: "thread_pool \<Rightarrow> (tp_next \<times> thread_pool) res" where
  "tp_worker_take tp = (case tp_head tp of
       None \<Rightarrow> Inr (if tp_stop tp then TP_Exit else TP_Wait, tp)
     | Some j \<Rightarrow>
         bindr (deref (tp_heap tp) j) (\<lambda>nd.
         let tp = tp\<lparr>tp_head := j_next nd\<rparr>;
             tp = (if tp_head tp = None then tp\<lparr>tp_tail := None\<rparr> else tp) in
         bindr (release (tp_heap tp) j) (\<lambda>h. Inr (TP_Job (j_fd nd), tp\<lparr>tp_heap := h\<rparr>))))"

definition tp_shutdown :: "thread_pool \<Rightarrow> thread_pool" where
  "tp_shutdown tp = tp\<lparr>tp_stop := True\<rparr>"

text \<open>The connections in the queue.\<close>

fun tp_walk :: "nat \<Rightarrow> tp_job heap \<Rightarrow> addr option \<Rightarrow> int list" where
  "tp_walk 0 h p = []"
| "tp_walk (Suc n) h None = []"
| "tp_walk (Suc n) h (Some a) = (case h a of None \<Rightarrow> [] | Some nd \<Rightarrow> j_fd nd # tp_walk n h (j_next nd))"

definition tp_jobs :: "thread_pool \<Rightarrow> int list" where
  "tp_jobs tp = tp_walk (tp_brk tp) (tp_heap tp) (tp_head tp)"

fun tpath :: "tp_job heap \<Rightarrow> addr option \<Rightarrow> addr list \<Rightarrow> bool" where
  "tpath h p [] \<longleftrightarrow> p = None"
| "tpath h p (a # as) \<longleftrightarrow> p = Some a \<and> (\<exists>nd. h a = Some nd \<and> tpath h (j_next nd) as)"

definition tp_rep :: "thread_pool \<Rightarrow> addr list \<Rightarrow> bool" where
  "tp_rep tp as \<longleftrightarrow> tpath (tp_heap tp) (tp_head tp) as \<and> tp_tail tp = last_or None as \<and> distinct as \<and>
     (\<forall>a \<in> set as. a < tp_brk tp)"

definition tp_inv :: "thread_pool \<Rightarrow> bool" where
  "tp_inv tp \<longleftrightarrow> (\<exists>as. tp_rep tp as)"

lemma tpath_frame: "(\<And>a. a \<in> set as \<Longrightarrow> h' a = h a) \<Longrightarrow> tpath h' p as = tpath h p as"
  by (induction as arbitrary: p) auto

lemma tpath_alloc: "tpath h p as \<Longrightarrow> a \<in> set as \<Longrightarrow> \<exists>nd. h a = Some nd"
  by (induction as arbitrary: p) auto

lemma tp_walk_path: "tpath h p as \<Longrightarrow> length as \<le> n \<Longrightarrow> tp_walk n h p = map (\<lambda>a. j_fd (the (h a))) as"
proof (induction as arbitrary: p n)
  case Nil
  then show ?case by (cases n) simp_all
next
  case (Cons a as)
  then show ?case by (cases n) auto
qed

lemma tp_rep_jobs:
  assumes "tp_rep tp as"
  shows "tp_jobs tp = map (\<lambda>a. j_fd (the (tp_heap tp a))) as"
proof -
  have "set as \<subseteq> {..<tp_brk tp}" using assms by (auto simp: tp_rep_def)
  from card_mono [OF _ this] have "length as \<le> tp_brk tp" using assms by (simp add: tp_rep_def distinct_card)
  with assms show ?thesis by (simp add: tp_jobs_def tp_rep_def tp_walk_path)
qed

lemma tpath_snoc:
  assumes "tpath h p (as @ [t])" "distinct (as @ [t])" "j \<notin> set (as @ [t])" "h j = Some nj" "j_next nj = None" "h t = Some nt"
  shows "tpath (h(t \<mapsto> nt\<lparr>j_next := Some j\<rparr>)) p (as @ [t, j])"
  using assms by (induction as arbitrary: p) auto

lemma tp_submit_rep:
  assumes "tp_rep tp as"
  shows "\<exists>tp'. tp_submit tp fd = Inr tp' \<and> tp_rep tp' (as @ [tp_brk tp]) \<and> tp_jobs tp' = tp_jobs tp @ [fd] \<and> tp_stop tp' = tp_stop tp"
proof -
  let ?j = "tp_brk tp" and ?nd = "\<lparr>j_fd = fd, j_next = None\<rparr>"
  let ?h = "(tp_heap tp)(?j \<mapsto> ?nd)"
  have fresh: "?j \<notin> set as" using assms by (auto simp: tp_rep_def)
  have p: "tpath ?h (tp_head tp) as" using assms fresh by (subst tpath_frame [where h = "tp_heap tp"]) (auto simp: tp_rep_def)
  show ?thesis
  proof (cases as rule: rev_cases)
    case Nil
    define tp' where "tp' = tp\<lparr>tp_heap := ?h, tp_brk := Suc ?j, tp_head := Some ?j, tp_tail := Some ?j\<rparr>"
    have r: "tp_rep tp' [?j]" by (simp add: tp'_def tp_rep_def)
    moreover have "tp_submit tp fd = Inr tp'" using assms Nil by (simp add: tp_submit_def tp_rep_def tp'_def Let_def)
    ultimately show ?thesis using Nil tp_rep_jobs [OF r] tp_rep_jobs [OF assms] by (simp add: tp'_def)
  next
    case (snoc bs t)
    then obtain nt where nt: "?h t = Some nt"
      using tpath_alloc [OF p, of t] by auto
    define tp' where "tp' = tp\<lparr>tp_heap := ?h(t \<mapsto> nt\<lparr>j_next := Some ?j\<rparr>), tp_brk := Suc ?j, tp_tail := Some ?j\<rparr>"
    have "tpath (?h(t \<mapsto> nt\<lparr>j_next := Some ?j\<rparr>)) (tp_head tp) (bs @ [t, ?j])"
      by (rule tpath_snoc [OF p [unfolded snoc]]) (use assms fresh snoc nt in \<open>auto simp: tp_rep_def\<close>)
    then have r: "tp_rep tp' (as @ [?j])" using assms fresh snoc by (auto simp: tp'_def tp_rep_def)
    have "tp_tail tp = Some t" using assms snoc by (simp add: tp_rep_def)
    then have "tp_submit tp fd = Inr tp'" using nt by (simp add: tp_submit_def tp'_def Let_def)
    moreover have "tp_jobs tp' = tp_jobs tp @ [fd]"
      using tp_rep_jobs [OF r] tp_rep_jobs [OF assms] fresh nt snoc by (auto simp: tp'_def split: if_splits)
    ultimately show ?thesis using r by (simp add: tp'_def)
  qed
qed

lemma tp_take_rep:
  assumes "tp_rep tp (a # as)"
  shows "\<exists>tp'. tp_worker_take tp = Inr (TP_Job (hd (tp_jobs tp)), tp') \<and> tp_rep tp' as \<and> tp_jobs tp' = tl (tp_jobs tp) \<and>
    tp_stop tp' = tp_stop tp"
proof -
  obtain nd where nd: "tp_heap tp a = Some nd" "tpath (tp_heap tp) (j_next nd) as" "tp_head tp = Some a"
    using assms by (auto simp: tp_rep_def)
  define tp' where "tp' = (let tp = tp\<lparr>tp_head := j_next nd\<rparr> in
      (if tp_head tp = None then tp\<lparr>tp_tail := None\<rparr> else tp)\<lparr>tp_heap := (tp_heap tp)(a := None)\<rparr>)"
  have "a \<notin> set as" using assms by (simp add: tp_rep_def)
  then have "tpath ((tp_heap tp)(a := None)) (j_next nd) as"
    using nd(2) by (subst tpath_frame [where h = "tp_heap tp"]) auto
  then have r: "tp_rep tp' as" using assms by (cases as) (auto simp: tp_rep_def tp'_def Let_def)
  have "tp_worker_take tp = Inr (TP_Job (j_fd nd), tp')" using nd by (auto simp: tp_worker_take_def tp'_def Let_def)
  moreover have "j_fd nd = hd (tp_jobs tp)" "tp_jobs tp' = tl (tp_jobs tp)"
    using tp_rep_jobs [OF r] tp_rep_jobs [OF assms] nd(1) \<open>a \<notin> set as\<close> by (auto simp: tp'_def Let_def)
  ultimately show ?thesis using r by (auto simp: tp'_def Let_def)
qed

lemma tp_take_empty:
  assumes "tp_inv tp" "tp_jobs tp = []"
  shows "tp_worker_take tp = Inr (if tp_stop tp then TP_Exit else TP_Wait, tp)"
proof -
  obtain as where "tp_rep tp as" using assms(1) by (auto simp: tp_inv_def)
  with tp_rep_jobs [OF this] assms(2) show ?thesis by (simp add: tp_rep_def tp_worker_take_def)
qed

definition tp_deq :: "thread_pool \<Rightarrow> (int \<times> thread_pool) option res" where
  "tp_deq tp = bindr (tp_worker_take tp) (\<lambda>(r, tp). Inr (case r of TP_Job fd \<Rightarrow> Some (fd, tp) | _ \<Rightarrow> None))"

interpretation tp: fifo tp_submit tp_deq tp_jobs tp_inv "\<lambda>_ _. True"
proof
  fix tp :: thread_pool and fd
  assume "tp_inv tp"
  then obtain as where "tp_rep tp as" by (auto simp: tp_inv_def)
  from tp_submit_rep [OF this, of fd]
  show "\<exists>tp'. tp_submit tp fd = Inr tp' \<and> tp_inv tp' \<and> True \<and> tp_jobs tp' = tp_jobs tp @ [fd]"
    by (auto simp: tp_inv_def)
next
  fix tp :: thread_pool
  assume "tp_inv tp" "tp_jobs tp = []"
  from tp_take_empty [OF this] show "tp_deq tp = Inr None" by (simp add: tp_deq_def)
next
  fix tp :: thread_pool and fd fds
  assume "tp_inv tp" and j: "tp_jobs tp = fd # fds"
  then obtain as where r: "tp_rep tp as" by (auto simp: tp_inv_def)
  then obtain a bs where "as = a # bs" using tp_rep_jobs [OF r] j by (cases as) auto
  with tp_take_rep [of tp a bs] r j
  show "\<exists>tp'. tp_deq tp = Inr (Some (fd, tp')) \<and> tp_inv tp' \<and> (\<forall>n::nat. True \<longrightarrow> True) \<and> tp_jobs tp' = fds"
    by (auto simp: tp_deq_def tp_inv_def)
qed

lemma tp_init_ok: "tp_inv tp_init" "tp_jobs tp_init = []"
proof -
  have "tp_rep tp_init []" by (simp add: tp_rep_def tp_init_def)
  then show "tp_inv tp_init" by (auto simp: tp_inv_def)
  show "tp_jobs tp_init = []" by (simp add: tp_jobs_def tp_init_def)
qed

subsection \<open>The replication ring\<close>

text \<open>A slot of \<open>repl_buf\<close>: null, a message, or a pointer to a message that was freed.\<close>

datatype repl_item = RNull | RItem string | RFreed

record repl_ring =
  rr_buf :: "repl_item list"
  rr_head :: nat
  rr_tail :: nat
  rr_cap :: nat

definition repl_ring_init :: "nat \<Rightarrow> repl_ring" where
  "repl_ring_init cap = \<lparr>rr_buf = replicate cap RNull, rr_head = 0, rr_tail = 0, rr_cap = cap\<rparr>"

definition free_item :: "repl_item \<Rightarrow> unit res" where
  "free_item i = (case i of RFreed \<Rightarrow> Inl UseAfterFree | _ \<Rightarrow> Inr ())"

definition repl_enqueue :: "repl_ring \<Rightarrow> string \<Rightarrow> repl_ring res" where
  "repl_enqueue r msg =
     (let next = (rr_head r + 1) mod rr_cap r in
      bindr (if next = rr_tail r
             then bindr (free_item (rr_buf r ! (rr_tail r mod rr_cap r))) (\<lambda>_.
                  let i = rr_tail r mod rr_cap r in
                  Inr (r\<lparr>rr_buf := (rr_buf r)[i := (if rr_buf r ! i = RNull then RNull else RFreed)], rr_tail := (rr_tail r + 1) mod rr_cap r\<rparr>))
             else Inr r) (\<lambda>r.
      Inr (r\<lparr>rr_buf := (rr_buf r)[rr_head r mod rr_cap r := RItem msg], rr_head := next\<rparr>)))"

text \<open>
  One turn of the daemon: \<open>None\<close> when it waits, else the item it takes, which it frees in the end.
  The read index is not reduced modulo the capacity.
\<close>

definition repl_take :: "repl_ring \<Rightarrow> (repl_item \<times> repl_ring) option res" where
  "repl_take r =
     (if rr_head r = rr_tail r then Inr None
      else
        let idx = rr_tail r mod rr_cap r; item = rr_buf r ! idx in
        bindr (free_item item) (\<lambda>_.
        Inr (Some (item, r\<lparr>rr_tail := rr_tail r + 1, rr_buf := (rr_buf r)[idx := (if item = RNull then RNull else RFreed)]\<rparr>))))"

definition repl_deq :: "repl_ring \<Rightarrow> (string \<times> repl_ring) option res" where
  "repl_deq r = bindr (repl_take r) (\<lambda>p. case p of
       None \<Rightarrow> Inr None
     | Some (RItem m, r) \<Rightarrow> Inr (Some (m, r))
     | Some (_, r) \<Rightarrow> Inl NullDeref)"

text \<open>Before the write index wraps around, the messages are those between the two indexes.\<close>

definition item_text :: "repl_item \<Rightarrow> string" where
  "item_text i = (case i of RItem m \<Rightarrow> m | _ \<Rightarrow> [])"

definition rr_items :: "repl_ring \<Rightarrow> string list" where
  "rr_items r = map (\<lambda>i. item_text (rr_buf r ! i)) [rr_tail r..<rr_head r]"

definition rr_inv :: "repl_ring \<Rightarrow> bool" where
  "rr_inv r \<longleftrightarrow> length (rr_buf r) = rr_cap r \<and> rr_tail r \<le> rr_head r \<and> rr_head r < rr_cap r \<and>
     (\<forall>i. rr_tail r \<le> i \<and> i < rr_head r \<longrightarrow> (\<exists>m. rr_buf r ! i = RItem m))"

definition rr_room :: "repl_ring \<Rightarrow> nat \<Rightarrow> bool" where
  "rr_room r n \<longleftrightarrow> rr_head r + n < rr_cap r"

interpretation repl: fifo repl_enqueue repl_deq rr_items rr_inv rr_room
proof
  fix r n m
  assume inv: "rr_inv r" and room: "rr_room r (Suc n)"
  define r' where "r' = r\<lparr>rr_buf := (rr_buf r)[rr_head r := RItem m], rr_head := rr_head r + 1\<rparr>"
  have "repl_enqueue r m = Inr r'" using inv room by (simp add: repl_enqueue_def rr_room_def rr_inv_def r'_def)
  moreover have "rr_inv r'" using inv room by (auto simp: rr_inv_def rr_room_def r'_def nth_list_update)
  moreover have "rr_items r' = rr_items r @ [m]"
    using inv room by (simp add: rr_items_def r'_def rr_inv_def item_text_def)
  moreover have "rr_room r' n" using room by (simp add: rr_room_def r'_def)
  ultimately show "\<exists>s'. repl_enqueue r m = Inr s' \<and> rr_inv s' \<and> rr_room s' n \<and> rr_items s' = rr_items r @ [m]" by blast
next
  fix r
  assume "rr_inv r" "rr_items r = []"
  then have "rr_head r = rr_tail r" by (auto simp: rr_items_def rr_inv_def)
  then show "repl_deq r = Inr None" by (simp add: repl_deq_def repl_take_def)
next
  fix r m ms
  assume inv: "rr_inv r" and it: "rr_items r = m # ms"
  have lt: "rr_tail r < rr_head r" using it by (cases "rr_tail r < rr_head r") (simp_all add: rr_items_def)
  then have up: "[rr_tail r..<rr_head r] = rr_tail r # [Suc (rr_tail r)..<rr_head r]" by (rule upt_conv_Cons)
  obtain m' where m': "rr_buf r ! rr_tail r = RItem m'" using inv lt by (auto simp: rr_inv_def)
  define r' where "r' = r\<lparr>rr_tail := rr_tail r + 1, rr_buf := (rr_buf r)[rr_tail r := RFreed]\<rparr>"
  have "repl_deq r = Inr (Some (m', r'))"
    using inv lt m' by (auto simp: repl_deq_def repl_take_def rr_inv_def free_item_def r'_def Let_def)
  moreover have "m' = m" using it m' by (simp add: rr_items_def up item_text_def)
  moreover have "rr_items r' = ms" using it by (auto simp: rr_items_def up r'_def)
  moreover have "rr_inv r'" using inv lt by (auto simp: rr_inv_def r'_def)
  moreover have "\<forall>n. rr_room r n \<longrightarrow> rr_room r' n" by (simp add: rr_room_def r'_def)
  ultimately show "\<exists>s'. repl_deq r = Inr (Some (m, s')) \<and> rr_inv s' \<and> (\<forall>n. rr_room r n \<longrightarrow> rr_room s' n) \<and> rr_items s' = ms" by blast
qed

text \<open>
  After as many messages as the ring has slots the read index has left the range the write index
  wraps around in, and the daemon takes a message a second time.
\<close>

definition drained :: "repl_ring \<Rightarrow> nat \<Rightarrow> bool" where
  "drained r i \<longleftrightarrow> length (rr_buf r) = rr_cap r \<and> rr_head r = i \<and> rr_tail r = i \<and> (\<forall>j < i. rr_buf r ! j = RFreed)"

lemma put_take:
  assumes "drained r i" "i < rr_cap r" "1 < rr_cap r"
  shows "\<exists>r'. qrun repl_enqueue repl_deq r (Put m # Take # es) = bindr (qrun repl_enqueue repl_deq r' es) (\<lambda>(out, r). Inr (m # out, r)) \<and>
    rr_cap r' = rr_cap r \<and> (if i + 1 < rr_cap r then drained r' (i + 1) else rr_head r' = 0 \<and> rr_tail r' = rr_cap r \<and> rr_buf r' ! 0 = RFreed)"
proof -
  let ?r1 = "r\<lparr>rr_buf := (rr_buf r)[i := RItem m], rr_head := (i + 1) mod rr_cap r\<rparr>"
  let ?r2 = "r\<lparr>rr_buf := (rr_buf r)[i := RFreed], rr_head := (i + 1) mod rr_cap r, rr_tail := i + 1\<rparr>"
  have ne: "(i + 1) mod rr_cap r \<noteq> i"
    using assms(2,3) by (cases "i + 1 < rr_cap r") (auto simp: not_less dest: le_antisym)
  have "repl_enqueue r m = Inr ?r1" using assms ne by (simp add: repl_enqueue_def drained_def)
  moreover have "repl_deq ?r1 = Inr (Some (m, ?r2))"
    using assms ne by (auto simp: repl_deq_def repl_take_def drained_def free_item_def Let_def)
  ultimately have "qrun repl_enqueue repl_deq r (Put m # Take # es) =
      bindr (qrun repl_enqueue repl_deq ?r2 es) (\<lambda>(out, r). Inr (m # out, r))" by simp
  moreover have "if i + 1 < rr_cap r then drained ?r2 (i + 1) else rr_head ?r2 = 0 \<and> rr_tail ?r2 = rr_cap r \<and> rr_buf ?r2 ! 0 = RFreed"
  proof (cases "i + 1 < rr_cap r")
    case True
    then show ?thesis using assms by (auto simp: drained_def nth_list_update less_Suc_eq)
  next
    case False
    then have "i + 1 = rr_cap r" using assms(2) by simp
    then have "(i + 1) mod rr_cap r = 0" by simp
    moreover have "rr_buf r ! 0 = RFreed" using assms \<open>i + 1 = rr_cap r\<close> by (auto simp: drained_def)
    ultimately show ?thesis using assms False by (simp add: drained_def nth_list_update)
  qed
  ultimately show ?thesis by (intro exI [of _ ?r2]) simp
qed

lemma ring_wraps:
  assumes "drained r i" "1 < rr_cap r" "i + length ms = rr_cap r" "ms \<noteq> []"
  shows "qrun repl_enqueue repl_deq r (concat (map (\<lambda>m. [Put m, Take]) ms) @ [Take]) = Inl UseAfterFree"
  using assms
proof (induction ms arbitrary: r i)
  case (Cons m ms)
  let ?es = "concat (map (\<lambda>m. [Put m, Take]) ms) @ [Take]"
  have "i < rr_cap r" using Cons.prems(3) by simp
  from put_take [OF Cons.prems(1) this Cons.prems(2), of m ?es] obtain r' where
    r': "qrun repl_enqueue repl_deq r (Put m # Take # ?es) = bindr (qrun repl_enqueue repl_deq r' ?es) (\<lambda>(out, r). Inr (m # out, r))"
      "rr_cap r' = rr_cap r" "if i + 1 < rr_cap r then drained r' (i + 1) else rr_head r' = 0 \<and> rr_tail r' = rr_cap r \<and> rr_buf r' ! 0 = RFreed"
    by blast
  have "qrun repl_enqueue repl_deq r' ?es = Inl UseAfterFree"
  proof (cases ms)
    case Nil
    with r' Cons.prems show ?thesis by (simp add: repl_deq_def repl_take_def free_item_def)
  next
    case (Cons m' ms')
    then have "drained r' (i + 1)" using r'(3) Cons.prems(3) by (simp split: if_splits)
    from Cons.IH [OF this] r'(2) Cons.prems Cons show ?thesis by simp
  qed
  with r'(1) show ?case by simp
qed simp

lemma repl_init_drained: "drained (repl_ring_init cap) 0"
  by (simp add: drained_def repl_ring_init_def)

lemma repl_init_ok: "0 < cap \<Longrightarrow> rr_inv (repl_ring_init cap)" "rr_items (repl_ring_init cap) = []"
  "rr_room (repl_ring_init cap) n \<longleftrightarrow> n < cap"
  by (simp_all add: rr_inv_def repl_ring_init_def rr_items_def rr_room_def)

text \<open>Worker turns leave the stop flag alone.\<close>

lemma tp_run_stop:
  "tp_inv tp \<Longrightarrow> qrun tp_submit tp_deq tp (replicate n Take) = Inr (out, tp') \<Longrightarrow> tp_stop tp' = tp_stop tp"
proof (induction n arbitrary: tp out)
  case (Suc n)
  show ?case
  proof (cases "tp_jobs tp")
    case Nil
    with Suc tp.deq_empty [OF Suc.prems(1)] show ?thesis by auto
  next
    case (Cons fd fds)
    obtain as where r: "tp_rep tp as" using Suc.prems(1) by (auto simp: tp_inv_def)
    then obtain a bs where as: "as = a # bs" using tp_rep_jobs [OF r] Cons by (cases as) auto
    from tp_take_rep [OF r [unfolded as]] obtain tp1 where
      t: "tp_worker_take tp = Inr (TP_Job (hd (tp_jobs tp)), tp1)" "tp_rep tp1 bs" "tp_stop tp1 = tp_stop tp" by blast
    have d: "tp_deq tp = Inr (Some (hd (tp_jobs tp), tp1))" using t(1) by (simp add: tp_deq_def)
    have "tp_inv tp1" using t(2) by (auto simp: tp_inv_def)
    moreover obtain out' where "qrun tp_submit tp_deq tp1 (replicate n Take) = Inr (out', tp')"
      using Suc.prems(2) d by auto
    ultimately show ?thesis using Suc.IH t(3) by auto
  qed
qed simp

end
