(* ===== verification/Line_Buffer.thy ===== *)
theory Line_Buffer
  imports Prelude
begin

text \<open>
  The receive loop that the client handler of the server (\<open>handle_client_unlocked\<close> in
  \<open>src/src/server/server.c\<close>) and the handler of the cluster bus (\<open>handle_client\<close> in
  \<open>src/src/cluster/cluster.c\<close>) both contain: bytes are read into a buffer of \<open>bufsize\<close> bytes,
  every complete line is cut to \<open>linesize - 1\<close> bytes and handled, and the rest is moved to the
  front of the buffer. \<open>handle l s\<close> is the body for one line; it says whether to leave the loop.

  The kernel hands out the bytes of the connection in pieces of its choice; \<open>pieces i\<close> bounds the
  \<open>i\<close>-th one. The main lemma shows that the pieces do not matter.
\<close>

abbreviation newline :: char where "newline \<equiv> CHR 0x0A"

text \<open>\<open>strchr(p, newline)\<close> on the zero-terminated buffer: the line and what follows the newline.\<close>

definition next_line :: "string \<Rightarrow> (string \<times> string) option" where
  "next_line p =
     (let s = cstr_of p; l = takeWhile (\<lambda>c. c \<noteq> newline) s in
      if length l < length s then Some (l, drop (Suc (length l)) p) else None)"

lemma next_line_shorter: "next_line p = Some (l, r) \<Longrightarrow> length r < length p"
proof -
  assume a: "next_line p = Some (l, r)"
  have "length (cstr_of p) \<le> length p" by (simp add: cstr_of_def length_takeWhile_le)
  with a show ?thesis by (auto simp: next_line_def Let_def split: if_splits)
qed

type_synonym 's line_handler = "string \<Rightarrow> 's \<Rightarrow> ('s \<times> bool) res"

function each_line :: "nat \<Rightarrow> 's line_handler \<Rightarrow> string \<Rightarrow> 's \<Rightarrow> ('s \<times> bool \<times> string) res" where
  "each_line linesize handle p s = (case next_line p of
       None \<Rightarrow> Inr (s, False, p)
     | Some (l, rest) \<Rightarrow>
         bindr (handle (take (linesize - 1) l) s) (\<lambda>(s, quit).
         if quit then Inr (s, True, p) else each_line linesize handle rest s))"
  by auto
termination
  by (relation "measure (\<lambda>(_, _, p, _). length p)") (auto dest: next_line_shorter)

declare each_line.simps [simp del]

function read_loop :: "nat \<Rightarrow> nat \<Rightarrow> 's line_handler \<Rightarrow> (nat \<Rightarrow> nat) \<Rightarrow> nat \<Rightarrow> string \<Rightarrow> string \<Rightarrow> 's \<Rightarrow> 's res" where
  "read_loop bufsize linesize handle pieces i stream rx s =
     (let n = min (length stream) (min (bufsize - length rx - 1) (max 1 (pieces i))) in
      if n = 0 then Inr s
      else
        bindr (each_line linesize handle (rx @ take n stream) s) (\<lambda>(s, quit, rest).
        if quit then Inr s
        else read_loop bufsize linesize handle pieces (Suc i) (drop n stream) rest s))"
  by auto
termination
  by (relation "measure (\<lambda>(_, _, _, _, _, stream, _, _). length stream)") auto

declare read_loop.simps [simp del]

subsection \<open>Lines without a NUL byte\<close>

lemma next_line_append:
  assumes "is_cstr (p @ q)" "next_line p = Some (l, r)"
  shows "next_line (p @ q) = Some (l, r @ q)"
proof -
  have c: "cstr_of p = p" "cstr_of (p @ q) = p @ q" using assms(1) by (auto intro!: cstr_of_id simp: is_cstr_def)
  have l: "l = takeWhile (\<lambda>c. c \<noteq> newline) p" "length l < length p" "r = drop (Suc (length l)) p"
    using assms(2) c(1) by (auto simp: next_line_def Let_def split: if_splits)
  have "\<exists>x \<in> set p. x = newline"
  proof (rule ccontr)
    assume "\<not> ?thesis"
    then have "takeWhile (\<lambda>c. c \<noteq> newline) p = p" by (auto simp: takeWhile_eq_all_conv)
    with l show False by simp
  qed
  then have "takeWhile (\<lambda>c. c \<noteq> newline) (p @ q) = l" using l(1) by (auto intro: takeWhile_append1)
  with l c show ?thesis by (simp add: next_line_def Let_def)
qed

lemma next_line_None: "is_cstr p \<Longrightarrow> next_line p = None \<longleftrightarrow> newline \<notin> set p"
proof -
  assume "is_cstr p"
  then have "cstr_of p = p" by (rule cstr_of_id)
  moreover have "length (takeWhile (\<lambda>c. c \<noteq> newline) p) < length p \<longleftrightarrow> newline \<in> set p"
    by (induction p) auto
  ultimately show ?thesis by (simp add: next_line_def Let_def)
qed

lemma next_line_cstr: "is_cstr p \<Longrightarrow> next_line p = Some (l, r) \<Longrightarrow> is_cstr r"
  by (auto simp: next_line_def is_cstr_def Let_def split: if_splits dest: in_set_dropD)

text \<open>Handling a prefix and then the rest is handling the whole.\<close>

lemma each_line_append:
  assumes "is_cstr (p @ q)"
  shows "each_line L handle (p @ q) s =
    bindr (each_line L handle p s) (\<lambda>(s, quit, rest). if quit then Inr (s, True, rest @ q) else each_line L handle (rest @ q) s)"
  using assms
proof (induction L handle p s rule: each_line.induct)
  case (1 L handle p s)
  show ?case
  proof (cases "next_line p")
    case None
    then show ?thesis by (simp add: each_line.simps [of L handle p])
  next
    case (Some lr)
    then obtain l r where lr: "next_line p = Some (l, r)" by (cases lr) auto
    note n = next_line_append [OF "1.prems" lr]
    have "is_cstr (r @ q)" using next_line_cstr [OF "1.prems" n] .
    then show ?thesis using "1.IH" [OF lr refl]
      unfolding each_line.simps [of L handle p] each_line.simps [of L handle "p @ q"] n lr
      by (cases "handle (take (L - 1) l) s") auto
  qed
qed

lemma each_line_rest:
  "is_cstr p \<Longrightarrow> each_line L handle p s = Inr (s', False, rest) \<Longrightarrow> newline \<notin> set rest \<and> (\<exists>u. p = u @ rest)"
proof (induction L handle p s rule: each_line.induct)
  case (1 L handle p s)
  show ?case
  proof (cases "next_line p")
    case None
    with 1 show ?thesis by (auto simp: each_line.simps [of L handle p] next_line_None)
  next
    case (Some lr)
    then obtain l r where lr: "next_line p = Some (l, r)" by (cases lr) auto
    with "1.prems"(2) obtain s1 where "handle (take (L - 1) l) s = Inr (s1, False)" "each_line L handle r s1 = Inr (s', False, rest)"
      by (auto simp: each_line.simps [of L handle p] split: if_splits)
    then have "newline \<notin> set rest \<and> (\<exists>u. r = u @ rest)"
      using "1.IH" [OF lr refl] next_line_cstr [OF "1.prems"(1) lr] by blast
    moreover have "\<exists>u. p = u @ r" using lr by (auto simp: next_line_def Let_def split: if_splits) (metis append_take_drop_id)
    ultimately show ?thesis by auto
  qed
qed

text \<open>No line, complete or not, fills the buffer.\<close>

definition lines_fit :: "nat \<Rightarrow> string \<Rightarrow> bool" where
  "lines_fit bufsize p \<longleftrightarrow> (\<forall>u v w. p = u @ v @ w \<and> newline \<notin> set v \<longrightarrow> Suc (length v) < bufsize)"

lemma lines_fit_suffix: "lines_fit B (u @ p) \<Longrightarrow> lines_fit B p"
  unfolding lines_fit_def by (metis append.assoc)

lemma read_loop_stream:
  assumes "is_cstr (rx @ stream)" "lines_fit B (rx @ stream)" "newline \<notin> set rx"
  shows "read_loop B L handle pieces i stream rx s = bindr (each_line L handle (rx @ stream) s) (\<lambda>t. Inr (fst t))"
  using assms
proof (induction B L handle pieces i stream rx s rule: read_loop.induct)
  case (1 B L handle pieces i stream rx s)
  define n where "n = min (length stream) (min (B - length rx - 1) (max 1 (pieces i)))"
  have room: "Suc (length rx) < B" using "1.prems"(2,3) unfolding lines_fit_def by (metis append_Nil)
  show ?case
  proof (cases "stream = []")
    case True
    have "is_cstr rx" using "1.prems"(1) True by simp
    then have "each_line L handle rx s = Inr (s, False, rx)"
      using "1.prems"(3) next_line_None [of rx] by (subst each_line.simps) simp
    then show ?thesis using True by (subst read_loop.simps) simp
  next
    case False
    then have n0: "n \<noteq> 0" using room by (auto simp: n_def)
    let ?p = "rx @ take n stream" and ?q = "drop n stream"
    have pq: "rx @ stream = ?p @ ?q" by simp
    have cs: "is_cstr (?p @ ?q)" using "1.prems"(1) by simp
    have step: "read_loop B L handle pieces i stream rx s = bindr (each_line L handle ?p s) (\<lambda>(s, quit, rest).
        if quit then Inr s else read_loop B L handle pieces (Suc i) ?q rest s)"
      unfolding read_loop.simps [of B L handle pieces i stream rx s] Let_def n_def [symmetric] using n0 by (simp only: if_False)
    show ?thesis
    proof (cases "each_line L handle ?p s")
      case (Inl e)
      then show ?thesis using step each_line_append [OF cs, of L handle s] by simp
    next
      case (Inr t)
      then obtain s1 quit rest where t: "each_line L handle ?p s = Inr (s1, quit, rest)" by (cases t) auto
      show ?thesis
      proof (cases quit)
        case True
        then show ?thesis using step t each_line_append [OF cs, of L handle s] by simp
      next
        case f: False
        have "is_cstr ?p" using cs by (auto simp: is_cstr_def simp del: append_take_drop_id)
        then obtain u where u: "newline \<notin> set rest" "?p = u @ rest"
          using each_line_rest [of ?p L handle s s1 rest] t f by auto
        have "rx @ stream = u @ (rest @ ?q)" using pq u(2) by (metis append.assoc)
        then have "is_cstr (rest @ ?q)" "lines_fit B (rest @ ?q)"
          using "1.prems"(1,2) lines_fit_suffix [of B u "rest @ ?q"] by (auto simp: is_cstr_def)
        then have "read_loop B L handle pieces (Suc i) ?q rest s1 = bindr (each_line L handle (rest @ ?q) s1) (\<lambda>t. Inr (fst t))"
          using u(1) by (intro "1.IH" [OF n_def n0 f])
        with step t f each_line_append [OF cs, of L handle s] show ?thesis by simp
      qed
    qed
  qed
qed

subsection \<open>Streams of lines\<close>

lemma next_line_newline:
  assumes "is_cstr l" "newline \<notin> set l"
  shows "next_line (l @ newline # r) = Some (l, r)"
proof -
  have "cstr_of (l @ newline # r) = l @ newline # cstr_of r"
    using assms(1) unfolding cstr_of_def is_cstr_def by (subst takeWhile_append2) auto
  moreover have "takeWhile (\<lambda>c. c \<noteq> newline) (l @ newline # x) = l" for x
    using assms(2) by (subst takeWhile_append2) auto
  ultimately show ?thesis by (simp add: next_line_def)
qed

lemma lines_fit_concat:
  assumes "\<forall>l \<in> set ls. newline \<notin> set l \<and> Suc (length l) < B" "1 < B"
  shows "lines_fit B (concat (map (\<lambda>l. l @ [newline]) ls))"
  using assms(1)
proof (induction ls)
  case Nil
  then show ?case using assms(2) by (simp add: lines_fit_def)
next
  case (Cons l ls)
  let ?r = "concat (map (\<lambda>l. l @ [newline]) ls)"
  have IH: "lines_fit B ?r" using Cons by simp
  show ?case
    unfolding lines_fit_def
  proof (intro allI impI; elim conjE)
    fix u v w
    assume e: "concat (map (\<lambda>l. l @ [newline]) (l # ls)) = u @ v @ w" and v: "newline \<notin> set v"
    have e': "l @ newline # ?r = u @ v @ w" using e by simp
    show "Suc (length v) < B"
    proof (cases "length u \<le> length l")
      case True
      have "length (u @ v) \<le> length l"
      proof (rule ccontr)
        assume "\<not> ?thesis"
        then have "length l - length u < length v" "(u @ v @ w) ! length l = v ! (length l - length u)"
          using True by (auto simp: nth_append)
        moreover have "(u @ v @ w) ! length l = newline" using e' by (metis nth_append_length)
        ultimately show False using v nth_mem by metis
      qed
      then show ?thesis using Cons.prems by auto
    next
      case False
      then obtain u' where "u = l @ newline # u'" using e'
        by (auto simp: append_eq_append_conv2 Cons_eq_append_conv)
      then have "?r = u' @ v @ w" using e' by simp
      with IH v show ?thesis unfolding lines_fit_def by blast
    qed
  qed
qed

end
