(* ===== verification/Persistence.thy ===== *)
theory Persistence
  imports Key_Space
begin

text \<open>
  Saving and loading the database (\<open>kv_save\<close>, \<open>kv_open\<close> and \<open>kv_close\<close> of
  \<open>src/src/core/kvdb.c\<close>). A file system is a map from paths to bytes; \<open>writable p\<close> says whether
  \<open>fopen(p, "w")\<close> succeeds. Integers are written as they lie in memory, least significant byte
  first. The unused bytes of an \<open>origin\<close> array are NUL in the model. A buffer that holds bytes read
  from the file can be allocated; the size \<open>kl + 1\<close> passed to \<open>malloc\<close> wraps around.

  The lemmas give the round trip through the file, also for a file that was cut short, and what
  survives of the database.
\<close>

subsection \<open>Integers as bytes\<close>

fun le_bytes :: "nat \<Rightarrow> nat \<Rightarrow> string" where
  "le_bytes 0 n = []"
| "le_bytes (Suc k) n = char_of (n mod 256) # le_bytes k (n div 256)"

fun le_val :: "string \<Rightarrow> nat" where
  "le_val [] = 0"
| "le_val (c # cs) = byte_of c + 256 * le_val cs"

definition put_u64 :: "u64 \<Rightarrow> string" where
  "put_u64 w = le_bytes 8 (unat w)"

definition get_u64 :: "string \<Rightarrow> u64" where
  "get_u64 bs = of_nat (le_val bs)"

text \<open>\<open>fread\<close> of \<open>n\<close> bytes: the bytes and the rest of the file, \<open>None\<close> when there are fewer.\<close>

definition fread :: "nat \<Rightarrow> string \<Rightarrow> (string \<times> string) option" where
  "fread n bs = (if n \<le> length bs then Some (take n bs, drop n bs) else None)"

text \<open>\<open>malloc(len + 1)\<close> and \<open>fread\<close> of \<open>len\<close> bytes into it: the sum wraps for the largest \<open>len\<close>.\<close>

definition fread_string :: "u64 \<Rightarrow> string \<Rightarrow> (string \<times> string) option res" where
  "fread_string len bs =
     (if len + 1 = 0 \<and> bs \<noteq> [] then Inl OverWrite else Inr (fread (unat len) bs))"

subsection \<open>Saving\<close>

definition orig_bytes :: "string \<Rightarrow> string" where
  "orig_bytes origin = take 15 (origin @ replicate 15 NUL)"

definition save_record :: "string \<Rightarrow> string \<Rightarrow> u64 \<Rightarrow> u64 \<Rightarrow> string \<Rightarrow> string" where
  "save_record k v ver wc origin =
     put_u64 (of_nat (length k)) @ k @ put_u64 (of_nat (length v)) @ v @
     put_u64 ver @ put_u64 wc @ orig_bytes origin"

definition save_entry :: "db_object kv_entry \<Rightarrow> string" where
  "save_entry e = (case e of
       E_OCCUPIED k obj \<Rightarrow>
         (case o_val obj of
            OBJ_STRING v \<Rightarrow> save_record k v (o_version obj) (o_wallclock obj) (o_origin obj)
          | _ \<Rightarrow> [])
     | _ \<Rightarrow> [])"

definition save_file :: "kv_table \<Rightarrow> string" where
  "save_file db = put_u64 (of_nat (t_count db)) @ concat (map save_entry (t_entries db))"

type_synonym file_system = "string \<rightharpoonup> string"

definition kv_save :: "(string \<Rightarrow> bool) \<Rightarrow> kv_table \<Rightarrow> file_system \<Rightarrow> int \<times> file_system" where
  "kv_save writable db fs = (case t_path db of
       None \<Rightarrow> (-1, fs)
     | Some p \<Rightarrow> if writable p then (0, fs(p \<mapsto> save_file db)) else (-1, fs))"

text \<open>Closing saves the table and frees every object.\<close>

fun free_entries :: "db_object kv_entry list \<Rightarrow> unit res" where
  "free_entries [] = Inr ()"
| "free_entries (E_OCCUPIED k obj # es) = bindr (obj_free obj) (\<lambda>_. free_entries es)"
| "free_entries (e # es) = free_entries es"

definition kv_close :: "(string \<Rightarrow> bool) \<Rightarrow> kv_table \<Rightarrow> file_system \<Rightarrow> file_system res" where
  "kv_close writable db fs =
     (let (_, fs) = kv_save writable db fs in bindr (free_entries (t_entries db)) (\<lambda>_. Inr fs))"

subsection \<open>Loading\<close>

definition load_meta :: "string \<Rightarrow> (kv_meta \<times> string) option" where
  "load_meta bs =
     Option.bind (fread 8 bs) (\<lambda>(ver, bs).
     Option.bind (fread 8 bs) (\<lambda>(wc, bs).
     Option.bind (fread 15 bs) (\<lambda>(origin, bs).
     Some (\<lparr>m_version = get_u64 ver, m_wallclock = get_u64 wc, m_origin = cstr_of origin\<rparr>, bs))))"

text \<open>A length and that many bytes; \<open>None\<close> leaves the loop.\<close>

definition load_string :: "string \<Rightarrow> (string \<times> string) option res" where
  "load_string bs = (case fread 8 bs of
       None \<Rightarrow> Inr None
     | Some (n, bs) \<Rightarrow> fread_string (get_u64 n) bs)"

definition load_record :: "string \<Rightarrow> ((string \<times> string \<times> kv_meta) \<times> string) option res" where
  "load_record bs =
     bindr (load_string bs) (\<lambda>p. case p of None \<Rightarrow> Inr None | Some (k, bs) \<Rightarrow>
     bindr (load_string bs) (\<lambda>p. case p of None \<Rightarrow> Inr None | Some (v, bs) \<Rightarrow>
     (case load_meta bs of None \<Rightarrow> Inr None | Some (m, bs) \<Rightarrow> Inr (Some ((cstr_of k, cstr_of v, m), bs)))))"

fun load_loop :: "(nat \<Rightarrow> bool) \<Rightarrow> u64 \<Rightarrow> nat \<Rightarrow> string \<Rightarrow> kv_table \<Rightarrow> kv_table res" where
  "load_loop mem now 0 bs db = Inr db"
| "load_loop mem now (Suc n) bs db =
     bindr (load_record bs) (\<lambda>p. case p of
       None \<Rightarrow> Inr db
     | Some ((k, v, m), bs) \<Rightarrow>
         bindr (kv_set_meta mem now db k v m) (\<lambda>(_, db). load_loop mem now n bs db))"

definition load_file :: "(nat \<Rightarrow> bool) \<Rightarrow> u64 \<Rightarrow> string \<Rightarrow> kv_table \<Rightarrow> kv_table res" where
  "load_file mem now bs db = (case fread 8 bs of
       None \<Rightarrow> Inr db
     | Some (n, bs) \<Rightarrow> load_loop mem now (unat (get_u64 n)) bs db)"

definition kv_open :: "(nat \<Rightarrow> bool) \<Rightarrow> u64 \<Rightarrow> string option \<Rightarrow> file_system \<Rightarrow> kv_table res" where
  "kv_open mem now path fs = (case path of
       None \<Rightarrow> Inr (kv_init path)
     | Some p \<Rightarrow> (case fs p of
           None \<Rightarrow> Inr (kv_init path)
         | Some bs \<Rightarrow> load_file mem now bs (kv_init path)))"

subsection \<open>Bytes\<close>

lemma le_bytes_length [simp]: "length (le_bytes k n) = k"
  by (induction k n rule: le_bytes.induct) simp_all

lemma le_val_bytes: "le_val (le_bytes k n) = n mod 256 ^ k"
  by (induction k n rule: le_bytes.induct) (simp_all add: byte_of_def mod_mult2_eq)

lemma put_u64_length [simp]: "length (put_u64 w) = 8"
  by (simp add: put_u64_def)

lemma get_put_u64 [simp]: "get_u64 (put_u64 w) = w"
proof -
  have "unat w < 2 ^ LENGTH(64)" by (rule unsigned_less)
  then have "unat w < 256 ^ 8" by simp
  then show ?thesis by (simp add: get_u64_def put_u64_def le_val_bytes)
qed

lemma fread_append [simp]: "length xs = n \<Longrightarrow> fread n (xs @ ys) = Some (xs, ys)"
  by (auto simp: fread_def)

lemma fread_short: "length bs < n \<Longrightarrow> fread n bs = None"
  by (simp add: fread_def)

subsection \<open>One record\<close>

text \<open>A C string that fits its length field.\<close>

definition saveable :: "string \<Rightarrow> bool" where
  "saveable s \<longleftrightarrow> is_cstr s \<and> length s + 1 < 2 ^ 64"

lemma saveable_len:
  assumes "saveable s"
  shows "unat (of_nat (length s) :: u64) = length s" "(of_nat (length s) + 1 :: u64) \<noteq> 0"
proof -
  have len: "length s < 2 ^ 64" "length s + 1 < 2 ^ 64" using assms by (auto simp: saveable_def)
  then show "unat (of_nat (length s) :: u64) = length s" by (simp add: unsigned_of_nat take_bit_nat_eq_self)
  have "unat (of_nat (Suc (length s)) :: u64) = Suc (length s)" using len(2) by (simp add: unsigned_of_nat take_bit_nat_eq_self del: of_nat_Suc)
  then have "(of_nat (Suc (length s)) :: u64) \<noteq> 0" by (metis unat_0 Suc_neq_Zero)
  then show "(of_nat (length s) + 1 :: u64) \<noteq> 0" by (simp add: add.commute)
qed

lemma load_string_ok:
  assumes "saveable s"
  shows "load_string (put_u64 (of_nat (length s)) @ s @ t) = Inr (Some (s, t))"
  using saveable_len [OF assms] by (simp add: load_string_def fread_string_def)

lemma orig_bytes_length [simp]: "length (orig_bytes origin) = 15"
  by (simp add: orig_bytes_def)

lemma orig_bytes_cstr: "is_cstr origin \<Longrightarrow> length origin \<le> 15 \<Longrightarrow> cstr_of (orig_bytes origin) = origin"
  by (simp add: orig_bytes_def cstr_of_append_NULs)

lemma load_meta_ok:
  assumes "is_cstr origin" "length origin \<le> 15"
  shows "load_meta (put_u64 ver @ put_u64 wc @ orig_bytes origin @ t)
    = Some (\<lparr>m_version = ver, m_wallclock = wc, m_origin = origin\<rparr>, t)"
  by (simp add: load_meta_def orig_bytes_cstr [OF assms])

lemma load_record_ok:
  assumes "saveable k" "saveable v" "is_cstr origin" "length origin \<le> 15"
  shows "load_record (save_record k v ver wc origin @ t)
    = Inr (Some ((k, v, \<lparr>m_version = ver, m_wallclock = wc, m_origin = origin\<rparr>), t))"
proof -
  have "load_record (save_record k v ver wc origin @ t) =
    (case load_meta (put_u64 ver @ put_u64 wc @ orig_bytes origin @ t) of
       None \<Rightarrow> Inr None | Some (m, bs) \<Rightarrow> Inr (Some ((cstr_of k, cstr_of v, m), bs)))"
    unfolding load_record_def save_record_def using load_string_ok [OF assms(1)] load_string_ok [OF assms(2)]
    by (simp del: bindr_eq_Inr)
  then show ?thesis using assms by (simp add: load_meta_ok cstr_of_id saveable_def)
qed

text \<open>A record that is cut short is not read.\<close>

lemma load_string_short:
  assumes "saveable s" "j < 8 + length s"
  shows "load_string (take j (put_u64 (of_nat (length s)) @ s @ t)) = Inr None"
proof (cases "j < 8")
  case True
  then show ?thesis by (simp add: load_string_def fread_short)
next
  case False
  then have "take j (put_u64 (of_nat (length s)) @ s @ t) = put_u64 (of_nat (length s)) @ take (j - 8) s"
    using assms(2) by simp
  moreover have "fread (length s) (take (j - 8) s) = None" using assms(2) False by (simp add: fread_short)
  ultimately show ?thesis using saveable_len [OF assms(1)] by (simp add: load_string_def fread_string_def)
qed

lemma load_string_long:
  assumes "saveable s" "8 + length s \<le> j"
  shows "load_string (take j (put_u64 (of_nat (length s)) @ s @ t)) = Inr (Some (s, take (j - 8 - length s) t))"
  using load_string_ok [OF assms(1), of "take (j - 8 - length s) t"] assms(2) by simp

lemma load_meta_short: "length bs < 31 \<Longrightarrow> load_meta bs = None"
  by (auto simp: load_meta_def fread_def bind_eq_None_conv)

lemma save_record_length [simp]: "length (save_record k v ver wc origin) = 47 + length k + length v"
  by (simp add: save_record_def)

lemma load_record_short:
  assumes "saveable k" "saveable v" "j < length (save_record k v ver wc origin)"
  shows "load_record (take j (save_record k v ver wc origin)) = Inr None"
proof (cases "j < 8 + length k")
  case True
  then show ?thesis using load_string_short [OF assms(1) True]
    unfolding load_record_def save_record_def by (simp del: take_append)
next
  case k: False
  note 1 = load_string_long [OF assms(1), of j]
  show ?thesis
  proof (cases "j - 8 - length k < 8 + length v")
    case True
    with k 1 load_string_short [OF assms(2) True] show ?thesis
      unfolding load_record_def save_record_def by (simp del: take_append)
  next
    case False
    with k 1 load_string_long [OF assms(2), of "j - 8 - length k"] assms(3) show ?thesis
      unfolding load_record_def save_record_def by (simp add: load_meta_short del: take_append)
  qed
qed

subsection \<open>The whole file\<close>

text \<open>The records of a table, in the order of its slots.\<close>

fun rec_of :: "string \<times> db_object \<Rightarrow> (string \<times> string \<times> kv_meta) list" where
  "rec_of (k, obj) = (case o_val obj of OBJ_STRING v \<Rightarrow> [(k, v, obj_meta obj)] | _ \<Rightarrow> [])"

definition saved_recs :: "kv_table \<Rightarrow> (string \<times> string \<times> kv_meta) list" where
  "saved_recs db = concat (map rec_of (occs (t_entries db)))"

fun rec_bytes :: "string \<times> string \<times> kv_meta \<Rightarrow> string" where
  "rec_bytes (k, v, m) = save_record k v (m_version m) (m_wallclock m) (m_origin m)"

fun storable :: "string \<times> string \<times> kv_meta \<Rightarrow> bool" where
  "storable (k, v, m) \<longleftrightarrow> saveable k \<and> saveable v \<and> is_cstr (m_origin m) \<and> length (m_origin m) \<le> 15"

fun restore :: "(nat \<Rightarrow> bool) \<Rightarrow> u64 \<Rightarrow> kv_table \<Rightarrow> (string \<times> string \<times> kv_meta) list \<Rightarrow> kv_table res" where
  "restore mem now db [] = Inr db"
| "restore mem now db ((k, v, m) # rs) = bindr (kv_set_meta mem now db k v m) (\<lambda>(_, db). restore mem now db rs)"

lemma orig_bytes_take [simp]: "orig_bytes (take 15 origin) = orig_bytes origin"
  by (simp add: orig_bytes_def)

lemma save_entries: "concat (map save_entry es) = concat (map rec_bytes (concat (map rec_of (occs es))))"
proof (induction es)
  case (Cons e es)
  have "save_entry e = concat (map rec_bytes (concat (map rec_of (occ e))))"
    by (cases e) (auto simp: save_entry_def obj_meta_def save_record_def split: obj_val.splits)
  with Cons show ?case by simp
qed simp

lemma save_file_recs: "save_file db = put_u64 (of_nat (t_count db)) @ concat (map rec_bytes (saved_recs db))"
  by (simp add: save_file_def saved_recs_def save_entries)

lemma saved_recs_count:
  assumes "kv_inv db"
  shows "length (saved_recs db) \<le> t_count db"
proof -
  have "length (concat (map rec_of ps)) \<le> length ps" for ps
  proof (induction ps)
    case (Cons p ps)
    then show ?case by (cases p) (auto split: obj_val.splits)
  qed simp
  with assms show ?thesis by (auto simp: saved_recs_def kv_inv_def intro: order.trans)
qed

lemma load_record_nil [simp]: "load_record [] = Inr None"
  by (simp add: load_record_def load_string_def fread_def)

lemma load_rec_bytes: "storable r \<Longrightarrow> load_record (rec_bytes r @ t) = Inr (Some (r, t))"
  by (cases r) (simp add: load_record_ok)

lemma load_rec_short: "storable r \<Longrightarrow> j < length (rec_bytes r) \<Longrightarrow> load_record (take j (rec_bytes r)) = Inr None"
  by (cases r) (simp add: load_record_short)

text \<open>A file that was cut short at any place restores a prefix of the records.\<close>

lemma load_loop_cut:
  assumes "list_all storable rs" "length rs \<le> n"
  shows "\<exists>i \<le> length rs. load_loop mem now n (take j (concat (map rec_bytes rs))) db = restore mem now db (take i rs) \<and>
    (length (concat (map rec_bytes rs)) \<le> j \<longrightarrow> i = length rs)"
  using assms
proof (induction rs arbitrary: n j db)
  case Nil
  then show ?case by (cases n) simp_all
next
  case (Cons r rs)
  obtain k v m where r: "r = (k, v, m)" by (cases r)
  obtain n' where n: "n = Suc n'" "length rs \<le> n'" using Cons.prems(2) by (cases n) auto
  have st: "storable r" "list_all storable rs" using Cons.prems(1) by auto
  show ?case
  proof (cases "j < length (rec_bytes r)")
    case True
    then show ?thesis using load_rec_short [OF st(1) True] n by (intro exI [of _ 0]) simp
  next
    case False
    define t where "t = take (j - length (rec_bytes r)) (concat (map rec_bytes rs))"
    have tk: "take j (concat (map rec_bytes (r # rs))) = rec_bytes r @ t" using False by (simp add: t_def)
    have step: "load_loop mem now n (rec_bytes r @ t) db =
        bindr (kv_set_meta mem now db k v m) (\<lambda>(_, db). load_loop mem now n' t db)"
      using load_rec_bytes [OF st(1), of t] by (simp add: n(1) r del: bindr_eq_Inr rec_bytes.simps)
    show ?thesis
    proof (cases "kv_set_meta mem now db k v m")
      case (Inl e)
      then show ?thesis unfolding tk step by (intro exI [of _ "length (r # rs)"]) (simp add: r)
    next
      case (Inr p)
      then obtain ret db1 where p: "kv_set_meta mem now db k v m = Inr (ret, db1)" by (cases p) auto
      obtain i where i: "i \<le> length rs" "load_loop mem now n' t db1 = restore mem now db1 (take i rs)"
        "length (concat (map rec_bytes rs)) \<le> j - length (rec_bytes r) \<longrightarrow> i = length rs"
        using Cons.IH [OF st(2) n(2)] unfolding t_def by blast
      then show ?thesis unfolding tk step by (intro exI [of _ "Suc i"]) (use False in \<open>simp add: p r\<close>)
    qed
  qed
qed

subsection \<open>What a restored table holds\<close>

definition rec_obj :: "string \<Rightarrow> kv_meta \<Rightarrow> db_object" where
  "rec_obj v m = \<lparr>o_val = OBJ_STRING v, o_ttl = -1, o_version = m_version m, o_wallclock = m_wallclock m, o_origin = take 15 (m_origin m)\<rparr>"

lemma stamped_create: "stamped (Some m) (stamp m (obj_create_string now v)) = rec_obj v m"
  by (simp add: stamped_def stamp_def obj_create_string_def rec_obj_def)

lemma create_stamp_inv [simp]: "obj_inv (stamp m (obj_create_string now v))"
  by (simp add: obj_inv_def stamp_def obj_create_string_def)

lemma kv_set_object_version:
  "kv_set_object mem db k obj (Some m) = Inr (0, db') \<Longrightarrow> t_version db \<le> t_version db' \<and> m_version m \<le> t_version db'"
  by (auto simp: kv_set_object_def put_obj_def bump_def resize_def Let_def split: prod.splits option.splits if_splits)

lemma kv_set_meta_ok:
  assumes "kv_inv db"
  shows "\<exists>r db'. kv_set_meta mem now db k v m = Inr (r, db') \<and> kv_inv db' \<and>
    (\<forall>k' o'. kv_map db' k' = Some o' \<longrightarrow> kv_map db k' = Some o' \<or> k' = k \<and> o' = rec_obj v m)"
proof -
  obtain db' where "kv_set_meta mem now db k v m = Inr (if can_grow mem db then 0 else -1, db')" "kv_inv db'"
    "kv_map db' = (if can_grow mem db then (kv_map db |` (- victims (grown mem db) k))(k \<mapsto> rec_obj v m) else kv_map db)"
    using kv_set_object_ok [OF assms create_stamp_inv, of mem k m now v "Some m"]
    unfolding kv_set_meta_def stamped_create by blast
  then show ?thesis by (auto simp: restrict_map_def split: if_splits)
qed

text \<open>Loading never invents a binding.\<close>

lemma restore_sub:
  assumes "kv_inv db"
  shows "\<exists>db'. restore mem now db rs = Inr db' \<and> kv_inv db' \<and>
    (\<forall>k obj. kv_map db' k = Some obj \<longrightarrow> kv_map db k = Some obj \<or> (\<exists>v m. (k, v, m) \<in> set rs \<and> obj = rec_obj v m))"
  using assms
proof (induction rs arbitrary: db)
  case (Cons r rs)
  obtain k v m where r: "r = (k, v, m)" by (cases r)
  obtain ret d where d: "kv_set_meta mem now db k v m = Inr (ret, d)" "kv_inv d"
    "\<forall>k' o'. kv_map d k' = Some o' \<longrightarrow> kv_map db k' = Some o' \<or> k' = k \<and> o' = rec_obj v m"
    using kv_set_meta_ok [OF Cons.prems, of mem now k v m] by blast
  from Cons.IH [OF d(2)] obtain db' where
    "restore mem now d rs = Inr db'" "kv_inv db'"
    "\<forall>k obj. kv_map db' k = Some obj \<longrightarrow> kv_map d k = Some obj \<or> (\<exists>v m. (k, v, m) \<in> set rs \<and> obj = rec_obj v m)" by blast
  moreover from this(3) d(3) have "kv_map db k' = Some obj \<or> (\<exists>v m. (k', v, m) \<in> set (r # rs) \<and> obj = rec_obj v m)"
    if "kv_map db' k' = Some obj" for k' obj
    using that unfolding r list.set by blast
  ultimately show ?case using d(1) r by (intro exI [of _ db']) simp
qed simp

text \<open>While fewer than half of the slots are in use nothing is lost either.\<close>

definition rec_binding :: "string \<times> string \<times> kv_meta \<Rightarrow> string \<times> db_object" where
  "rec_binding r = (case r of (k, v, m) \<Rightarrow> (k, rec_obj v m))"

lemma restore_exact:
  assumes "kv_inv db" "2 * (used (t_entries db) + length rs) \<le> t_capacity db" "4 * (t_count db + length rs) \<le> 3 * t_capacity db"
    "distinct (map fst rs)"
  shows "\<exists>db'. restore mem now db rs = Inr db' \<and> kv_inv db' \<and> kv_map db' = kv_map db ++ map_of (map rec_binding rs) \<and>
    t_version db \<le> t_version db' \<and> (\<forall>(k, v, m) \<in> set rs. m_version m \<le> t_version db')"
  using assms
proof (induction rs arbitrary: db)
  case (Cons r rs)
  obtain k v m where r: "r = (k, v, m)" by (cases r)
  have no: "\<not> overfull db" using Cons.prems(3) by (simp add: overfull_def)
  then have grow: "can_grow mem db" by (simp add: can_grow_def)
  have "2 * used (t_entries db) < t_capacity db" using Cons.prems(2) by simp
  then have vict: "victims (grown mem db) k = {}" using no_victims [OF Cons.prems(1) grow] by blast
  obtain d where d: "kv_set_meta mem now db k v m = Inr (0, d)" "kv_inv d" "kv_map d = (kv_map db)(k \<mapsto> rec_obj v m)"
    using kv_set_object_ok [OF Cons.prems(1) create_stamp_inv, of mem k m now v "Some m"] grow vict
    unfolding kv_set_meta_def stamped_create by (auto simp: restrict_map_def)
  note size = kv_set_object_size [OF no d(1) [unfolded kv_set_meta_def]]
  have le: "2 * (used (t_entries d) + length rs) \<le> t_capacity d" "4 * (t_count d + length rs) \<le> 3 * t_capacity d"
    "distinct (map fst rs)" using size Cons.prems(2-4) by simp_all
  from Cons.IH [OF d(2) le] obtain db' where d': "restore mem now d rs = Inr db'" "kv_inv db'"
    "kv_map db' = kv_map d ++ map_of (map rec_binding rs)" "t_version d \<le> t_version db'"
    "\<forall>(k, v, m) \<in> set rs. m_version m \<le> t_version db'" by blast
  have "fst ` set rs = dom (map_of (map rec_binding rs))"
    by (force simp: dom_map_of_conv_image_fst rec_binding_def image_iff split: prod.splits)
  then have "k \<notin> dom (map_of (map rec_binding rs))" using Cons.prems(4) r by auto
  then have "kv_map db' = kv_map db ++ map_of (map rec_binding (r # rs))"
    using d'(3) d(3) r map_add_upd_left [of k "map_of (map rec_binding rs)" "kv_map db" "rec_obj v m"]
    by (simp add: rec_binding_def)
  moreover have "t_version db \<le> t_version d \<and> m_version m \<le> t_version d"
    using kv_set_object_version d(1) unfolding kv_set_meta_def by blast
  ultimately show ?case using d(1) d'(1,2,4,5) r
    by (intro exI [of _ db'] conjI) (auto intro: order.trans simp del: list.map map_of.simps)
qed simp

subsection \<open>Save and reopen\<close>

definition savable_db :: "kv_table \<Rightarrow> bool" where
  "savable_db db \<longleftrightarrow> t_count db < 2 ^ 64 \<and> list_all storable (saved_recs db)"

lemma count_u64: "n < 2 ^ 64 \<Longrightarrow> unat (of_nat n :: u64) = n"
  by (simp add: unsigned_of_nat take_bit_nat_eq_self)

lemma load_file_cut:
  assumes "kv_inv db" "savable_db db"
  shows "\<exists>i \<le> length (saved_recs db). load_file mem now (take j (save_file db)) d = restore mem now d (take i (saved_recs db)) \<and>
    (length (save_file db) \<le> j \<longrightarrow> i = length (saved_recs db))"
proof (cases "j < 8")
  case True
  then show ?thesis by (intro exI [of _ 0]) (simp add: load_file_def save_file_recs fread_short)
next
  case False
  have st: "list_all storable (saved_recs db)" and n: "unat (of_nat (t_count db) :: u64) = t_count db"
    using assms(2) by (simp_all add: savable_db_def count_u64)
  obtain i where "i \<le> length (saved_recs db)"
    "load_loop mem now (t_count db) (take (j - 8) (concat (map rec_bytes (saved_recs db)))) d = restore mem now d (take i (saved_recs db))"
    "length (concat (map rec_bytes (saved_recs db))) \<le> j - 8 \<longrightarrow> i = length (saved_recs db)"
    using load_loop_cut [OF st saved_recs_count [OF assms(1)]] by blast
  with False n show ?thesis
    by (intro exI [of _ i]) (auto simp: load_file_def save_file_recs)
qed

lemma load_file_all:
  assumes "kv_inv db" "savable_db db"
  shows "load_file mem now (save_file db) d = restore mem now d (saved_recs db)"
  using load_file_cut [OF assms, of mem now "length (save_file db)" d] by auto

text \<open>The binding a string object leaves in the file; its expiry time is not saved.\<close>

definition reborn :: "db_object \<Rightarrow> db_object option" where
  "reborn obj = (case o_val obj of OBJ_STRING v \<Rightarrow> Some (rec_obj v (obj_meta obj)) | _ \<Rightarrow> None)"

lemma reborn_string:
  "o_val obj = OBJ_STRING v \<Longrightarrow> length (o_origin obj) \<le> 15 \<Longrightarrow> reborn obj = Some (obj\<lparr>o_ttl := -1\<rparr>)"
  by (simp add: reborn_def rec_obj_def obj_meta_def)

lemma saved_recs_map:
  assumes "kv_inv db"
  shows "distinct (map fst (saved_recs db))" "map_of (map rec_binding (saved_recs db)) k = Option.bind (kv_map db k) reborn"
proof -
  have dist: "distinct (map fst (occs (t_entries db)))" using assms by (simp add: kv_inv_def tbl_wf_distinct)
  have sub: "fst ` set (concat (map rec_of ps)) \<subseteq> fst ` set ps" for ps :: "(string \<times> db_object) list"
  proof (induction ps)
    case (Cons p ps)
    then show ?case by (cases p) (auto split: obj_val.splits)
  qed simp
  have "distinct (map fst (concat (map rec_of ps))) \<and>
      map_of (map rec_binding (concat (map rec_of ps))) k = Option.bind (map_of ps k) reborn"
    if "distinct (map fst ps)" for ps :: "(string \<times> db_object) list"
    using that
  proof (induction ps)
    case (Cons p ps)
    obtain k' obj where p: "p = (k', obj)" by (cases p)
    then have k': "k' \<notin> fst ` set ps" "k' \<notin> fst ` set (concat (map rec_of ps))" using Cons.prems sub [of ps] by auto
    then have "map_of ps k' = None" by (simp add: map_of_eq_None_iff)
    with Cons p k' show ?case
      by (cases "o_val obj") (auto simp: rec_binding_def reborn_def)
  qed simp
  from this [OF dist] show "distinct (map fst (saved_recs db))"
    "map_of (map rec_binding (saved_recs db)) k = Option.bind (kv_map db k) reborn"
    by (simp_all add: saved_recs_def kv_map_def tbl_map_def)
qed

lemma saved_recs_reborn:
  assumes "kv_inv db" "(k, v, m) \<in> set (saved_recs db)"
  shows "\<exists>obj. kv_map db k = Some obj \<and> reborn obj = Some (rec_obj v m)"
proof -
  have "map_of (map rec_binding (saved_recs db)) k = Some (rec_obj v m)"
  proof (rule map_of_is_SomeI)
    have "fst \<circ> rec_binding = fst" by (auto simp: rec_binding_def)
    then show "distinct (map fst (map rec_binding (saved_recs db)))" using saved_recs_map(1) [OF assms(1)] by simp
    show "(k, rec_obj v m) \<in> set (map rec_binding (saved_recs db))" using assms(2) by (force simp: rec_binding_def)
  qed
  then show ?thesis using saved_recs_map(2) [OF assms(1), of k] by (cases "kv_map db k") auto
qed

text \<open>Closing a well-formed table frees every object safely.\<close>

lemma free_entries_ok: "\<forall>(k, obj) \<in> set (occs es). obj_inv obj \<Longrightarrow> free_entries es = Inr ()"
  by (induction es rule: free_entries.induct) (auto simp: obj_free_ok)

lemma kv_close_ok:
  assumes "kv_inv db"
  shows "kv_close writable db fs = Inr (snd (kv_save writable db fs))"
  using free_entries_ok [of "t_entries db"] assms by (simp add: kv_close_def kv_inv_def split: prod.split)

end
