(* ===== verification/Cluster_Node.thy ===== *)
theory Cluster_Node
  imports Cluster_Message Cluster_Conf Work_Queues Line_Buffer Persistence
begin

text \<open>
  A node of the cluster (\<open>src/src/cluster/cluster.h\<close> and \<open>src/src/cluster/cluster.c\<close>): its peers,
  the queue of writes to replicate, one turn of the replication and of the heartbeat daemon, and the
  handler of an incoming bus connection. Sockets are parameters: \<open>wr fd msg\<close> says whether
  \<open>write\<close> accepts the whole message, \<open>dial info\<close> is the descriptor a connection attempt gives, or
  a negative number. The bytes handed to the sockets are part of the results. \<open>now\<close> is the clock in
  milliseconds.
\<close>

definition CLUSTER_DEAD_MS :: u64 where
  "CLUSTER_DEAD_MS = 2000"

record cluster_peer =
  p_info :: cluster_node_conf
  p_out_fd :: int
  p_in_fd :: int
  p_last_seen :: u64
  p_last_version :: u64
  p_alive :: bool

record cluster_state =
  c_my_id :: string
  c_bus_port :: int
  c_conf :: cluster_conf
  c_peers :: "cluster_peer list"
  c_peer_count :: nat
  c_ring :: repl_ring
  c_listener_fd :: int
  c_stop :: bool

type_synonym sends = "(int \<times> string) list"

subsection \<open>Peers\<close>

definition cluster_send :: "(int \<Rightarrow> string \<Rightarrow> bool) \<Rightarrow> cluster_peer \<Rightarrow> string \<Rightarrow> cluster_peer \<times> sends" where
  "cluster_send wr peer msg =
     (if p_out_fd peer \<ge> 0 \<and> p_alive peer
      then (if wr (p_out_fd peer) msg then peer else peer\<lparr>p_alive := False, p_out_fd := -1\<rparr>, [(p_out_fd peer, msg)])
      else (peer, []))"

fun find_peer :: "cluster_peer list \<Rightarrow> string \<Rightarrow> cluster_peer option" where
  "find_peer [] i = None"
| "find_peer (p # ps) i = (if strcmp (n_id (p_info p)) i = 0 then Some p else find_peer ps i)"

definition add_peer :: "cluster_state \<Rightarrow> cluster_peer \<Rightarrow> cluster_state" where
  "add_peer cs peer = cs\<lparr>c_peers := peer # c_peers cs, c_peer_count := c_peer_count cs + 1\<rparr>"

text \<open>The port a node announces when it joins.\<close>

definition my_client_port :: "cluster_conf \<Rightarrow> int" where
  "my_client_port conf =
     (if 0 \<le> cf_my_node conf \<and> cf_my_node conf < int (length (cf_nodes conf))
      then n_client_port (cf_nodes conf ! nat (cf_my_node conf)) else 0)"

definition join_msg :: "cluster_state \<Rightarrow> string" where
  "join_msg cs = snprintf_cut 256 (''JOIN '' @ c_my_id cs @ '' '' @ int_dec (my_client_port (c_conf cs)) @ NL)"

definition connect_peer ::
  "(cluster_node_conf \<Rightarrow> int) \<Rightarrow> u64 \<Rightarrow> cluster_state \<Rightarrow> cluster_peer \<Rightarrow> int \<times> cluster_peer \<times> sends" where
  "connect_peer dial now cs peer =
     (if p_out_fd peer \<ge> 0 then (0, peer, [])
      else
        let fd = dial (p_info peer) in
        if fd < 0 then (-1, peer, [])
        else (0, peer\<lparr>p_out_fd := fd, p_last_seen := now, p_alive := True\<rparr>, [(fd, join_msg cs)]))"

text \<open>Running over the list of peers.\<close>

fun for_peers :: "(cluster_peer \<Rightarrow> cluster_peer \<times> sends) \<Rightarrow> cluster_peer list \<Rightarrow> cluster_peer list \<times> sends" where
  "for_peers f [] = ([], [])"
| "for_peers f (p # ps) = (let (q, out) = f p; (qs, outs) = for_peers f ps in (q # qs, out @ outs))"

fun set_first :: "('a \<Rightarrow> bool) \<Rightarrow> ('a \<Rightarrow> 'a) \<Rightarrow> 'a list \<Rightarrow> 'a list" where
  "set_first P f [] = []"
| "set_first P f (x # xs) = (if P x then f x # xs else x # set_first P f xs)"

subsection \<open>Start\<close>

definition fresh_peer :: "cluster_node_conf \<Rightarrow> cluster_peer" where
  "fresh_peer info = \<lparr>p_info = info, p_out_fd = -1, p_in_fd = -1, p_last_seen = 0, p_last_version = 0, p_alive = False\<rparr>"

fun init_peers :: "int \<Rightarrow> int \<Rightarrow> cluster_node_conf list \<Rightarrow> cluster_state \<Rightarrow> cluster_state" where
  "init_peers me i [] cs = cs"
| "init_peers me i (n # ns) cs = init_peers me (i + 1) ns (if i = me then cs else add_peer cs (fresh_peer n))"

definition cluster_init :: "(cluster_node_conf \<Rightarrow> int) \<Rightarrow> u64 \<Rightarrow> cluster_conf \<Rightarrow> cluster_state \<times> sends" where
  "cluster_init dial now conf =
     (let me = cf_my_node conf;
          cs = \<lparr>c_my_id = (if 0 \<le> me \<and> me < int (length (cf_nodes conf))
                          then take (NODE_ID_LEN - 1) (n_id (cf_nodes conf ! nat me)) else ''''),
                c_bus_port = (if cf_my_cluster_port conf \<noteq> 0 then cf_my_cluster_port conf else 16380),
                c_conf = conf, c_peers = [], c_peer_count = 0, c_ring = repl_ring_init 1024, c_listener_fd = 0, c_stop = False\<rparr>;
          cs = init_peers me 0 (cf_nodes conf) cs;
          (ps, out) = for_peers (\<lambda>p. snd (connect_peer dial now cs p)) (c_peers cs) in
      (cs\<lparr>c_peers := ps\<rparr>, out))"

text \<open>
  The end: the daemons have left their loops; the descriptors are closed and the messages that were
  not sent are freed. The result lists the descriptors in the order they are closed.
\<close>

fun free_range :: "nat \<Rightarrow> repl_item list \<Rightarrow> nat list \<Rightarrow> repl_item list res" where
  "free_range cap buf [] = Inr buf"
| "free_range cap buf (i # is) =
     (let item = buf ! (i mod cap) in
      bindr (free_item item) (\<lambda>_. free_range cap (buf[i mod cap := (if item = RNull then RNull else RFreed)]) is))"

definition cluster_shutdown :: "cluster_state \<Rightarrow> int list res" where
  "cluster_shutdown cs =
     (let r = c_ring cs in
      bindr (free_range (rr_cap r) (rr_buf r) [rr_tail r..<rr_head r]) (\<lambda>_.
      Inr (filter (\<lambda>fd. fd \<ge> 0) (c_listener_fd cs # concat (map (\<lambda>p. [p_out_fd p, p_in_fd p]) (c_peers cs))))))"

subsection \<open>Replication\<close>

definition cluster_replicate_set :: "cluster_state \<Rightarrow> string \<Rightarrow> string \<Rightarrow> kv_meta \<Rightarrow> cluster_state res" where
  "cluster_replicate_set cs key val meta =
     bindr (cluster_build_msg CLUSTER_MSG_SIZE CMD_SET key val (Some meta)) (\<lambda>msg.
     bindr (repl_enqueue (c_ring cs) (case msg of Some m \<Rightarrow> m | None \<Rightarrow> [])) (\<lambda>r. Inr (cs\<lparr>c_ring := r\<rparr>)))"

definition cluster_replicate_del :: "cluster_state \<Rightarrow> string \<Rightarrow> kv_meta \<Rightarrow> cluster_state res" where
  "cluster_replicate_del cs key meta =
     bindr (cluster_build_msg CLUSTER_MSG_SIZE CMD_DEL key '''' (Some meta)) (\<lambda>msg.
     bindr (repl_enqueue (c_ring cs) (case msg of Some m \<Rightarrow> m | None \<Rightarrow> [])) (\<lambda>r. Inr (cs\<lparr>c_ring := r\<rparr>)))"

text \<open>One turn of \<open>repl_thread\<close>; a null item faults when there is a peer to send it to.\<close>

definition repl_turn :: "(int \<Rightarrow> string \<Rightarrow> bool) \<Rightarrow> cluster_state \<Rightarrow> (cluster_state \<times> sends) res" where
  "repl_turn wr cs =
     bindr (repl_take (c_ring cs)) (\<lambda>p. case p of
       None \<Rightarrow> Inr (cs, [])
     | Some (item, r) \<Rightarrow>
         (case item of
            RItem msg \<Rightarrow>
              (let (ps, out) = for_peers (\<lambda>p. cluster_send wr p msg) (c_peers cs) in
               Inr (cs\<lparr>c_ring := r, c_peers := ps\<rparr>, out))
          | _ \<Rightarrow>
              if list_ex (\<lambda>p. p_out_fd p \<ge> 0 \<and> p_alive p) (c_peers cs) then Inl NullDeref
              else Inr (cs\<lparr>c_ring := r\<rparr>, [])))"

text \<open>One turn of \<open>hb_thread\<close>: connect and greet every peer, then drop those not seen for too long.\<close>

definition hb_reap :: "u64 \<Rightarrow> cluster_peer \<Rightarrow> cluster_peer" where
  "hb_reap now p =
     (if p_alive p \<and> now - p_last_seen p > CLUSTER_DEAD_MS
      then p\<lparr>p_alive := False, p_out_fd := (if p_out_fd p \<ge> 0 then -1 else p_out_fd p)\<rparr> else p)"

definition hb_turn ::
  "(cluster_node_conf \<Rightarrow> int) \<Rightarrow> (int \<Rightarrow> string \<Rightarrow> bool) \<Rightarrow> u64 \<Rightarrow> u64 \<Rightarrow> cluster_state \<Rightarrow> (cluster_state \<times> sends) res" where
  "hb_turn dial wr now version cs =
     bindr (cluster_build_msg 256 CMD_HEARTBEAT '''' '''' (Some \<lparr>m_version = version, m_wallclock = 0, m_origin = ''''\<rparr>)) (\<lambda>msg.
     let msg = (case msg of Some m \<Rightarrow> m | None \<Rightarrow> []);
         (ps, out) = for_peers (\<lambda>p.
            let (_, p, out1) = connect_peer dial now cs p; (p, out2) = cluster_send wr p msg in (p, out1 @ out2)) (c_peers cs) in
     Inr (cs\<lparr>c_peers := map (hb_reap now) ps\<rparr>, out))"

subsection \<open>Incoming connections\<close>

record bus_state =
  b_cs :: cluster_state
  b_db :: kv_table
  b_identified :: bool
  b_peer_id :: string
  b_out :: sends

definition register_incoming_fd :: "u64 \<Rightarrow> cluster_state \<Rightarrow> string \<Rightarrow> int \<Rightarrow> cluster_state" where
  "register_incoming_fd now cs i fd =
     cs\<lparr>c_peers := set_first (\<lambda>p. strcmp (n_id (p_info p)) i = 0)
                    (\<lambda>p. p\<lparr>p_in_fd := fd, p_last_seen := now, p_alive := True\<rparr>) (c_peers cs)\<rparr>"

definition bus_heartbeat :: "u64 \<Rightarrow> int \<Rightarrow> string \<Rightarrow> bus_state \<Rightarrow> bus_state res" where
  "bus_heartbeat now fd rest b =
     bindr (scan_llu rest) (\<lambda>p. case p of
       None \<Rightarrow> Inr b
     | Some (v, _) \<Rightarrow>
         Inr (b\<lparr>b_cs := (b_cs b)\<lparr>c_peers :=
           set_first (\<lambda>p. p_in_fd p = fd \<or> b_identified b \<and> strcmp (n_id (p_info p)) (b_peer_id b) = 0)
             (\<lambda>p. p\<lparr>p_last_seen := now, p_in_fd := (if p_in_fd p < 0 then fd else p_in_fd p), p_last_version := v\<rparr>)
             (c_peers (b_cs b))\<rparr>\<rparr>))"

definition bus_set :: "(nat \<Rightarrow> bool) \<Rightarrow> u64 \<Rightarrow> string \<Rightarrow> bus_state \<Rightarrow> bus_state res" where
  "bus_set mem now rest b =
     bindr (parse_meta rest True) (\<lambda>p. case p of
       None \<Rightarrow> Inr b
     | Some (meta, key, val) \<Rightarrow>
         bindr (kv_set_meta mem now (b_db b) key val meta) (\<lambda>(_, db). Inr (b\<lparr>b_db := db\<rparr>)))"

definition bus_del :: "string \<Rightarrow> bus_state \<Rightarrow> bus_state res" where
  "bus_del rest b =
     bindr (parse_meta rest False) (\<lambda>p. case p of
       None \<Rightarrow> Inr b
     | Some (meta, key, _) \<Rightarrow>
         bindr (kv_del_meta (b_db b) key meta) (\<lambda>(_, db). Inr (b\<lparr>b_db := db\<rparr>)))"

definition bus_join :: "u64 \<Rightarrow> int \<Rightarrow> string \<Rightarrow> bus_state \<Rightarrow> bus_state res" where
  "bus_join now fd rest b =
     bindr (parse_join rest) (\<lambda>p. case p of
       None \<Rightarrow> Inr b
     | Some (nid, _) \<Rightarrow>
         Inr (b\<lparr>b_identified := True, b_peer_id := take 15 nid, b_cs := register_incoming_fd now (b_cs b) nid fd\<rparr>))"

text \<open>The answer to \<open>SYNC_REQ\<close>: a header, a \<open>SET\<close> line for every string key, a trailer.\<close>

definition sync_line :: "kv_table \<Rightarrow> string \<Rightarrow> string list" where
  "sync_line db k = (case kv_get_meta db k of
       None \<Rightarrow> []
     | Some (v, m) \<Rightarrow>
         (case cluster_build_msg CLUSTER_MSG_SIZE CMD_SET k v (Some m) of Inr (Some msg) \<Rightarrow> [msg] | _ \<Rightarrow> []))"

definition sync_reply :: "kv_table \<Rightarrow> string list" where
  "sync_reply db =
     (let (_, ks) = kv_keys db in
      snprintf_cut CLUSTER_MSG_SIZE (''SNAPSHOT '' @ u64_dec (kv_db_version db) @ NL) #
      concat (map (sync_line db) ks) @ [snprintf_cut CLUSTER_MSG_SIZE (''SNAPSHOT_END'' @ NL)])"

definition bus_line :: "(nat \<Rightarrow> bool) \<Rightarrow> u64 \<Rightarrow> int \<Rightarrow> bus_state line_handler" where
  "bus_line mem now fd line b =
     (case cluster_parse_cmd line of (cmd, rest) \<Rightarrow>
      bindr (case cmd of
          CMD_HEARTBEAT \<Rightarrow> bus_heartbeat now fd rest b
        | CMD_SET \<Rightarrow> bus_set mem now rest b
        | CMD_DEL \<Rightarrow> bus_del rest b
        | CMD_JOIN \<Rightarrow> bus_join now fd rest b
        | CMD_SYNC_REQ \<Rightarrow> Inr (b\<lparr>b_out := b_out b @ map (Pair fd) (sync_reply (b_db b))\<rparr>)
        | _ \<Rightarrow> Inr b) (\<lambda>b. Inr (b, False)))"

definition bus_client ::
  "(nat \<Rightarrow> bool) \<Rightarrow> u64 \<Rightarrow> int \<Rightarrow> (nat \<Rightarrow> nat) \<Rightarrow> string \<Rightarrow> cluster_state \<Rightarrow> kv_table \<Rightarrow> bus_state res" where
  "bus_client mem now fd pieces stream cs db =
     bindr (read_loop 4096 4096 (bus_line mem now fd) pieces 0 stream []
              \<lparr>b_cs = cs, b_db = db, b_identified = False, b_peer_id = '''', b_out = []\<rparr>) (\<lambda>b.
     Inr (b\<lparr>b_cs := (b_cs b)\<lparr>c_peers := map (\<lambda>p. if p_in_fd p = fd then p\<lparr>p_in_fd := -1\<rparr> else p) (c_peers (b_cs b))\<rparr>\<rparr>))"

subsection \<open>Replicated writes\<close>

text \<open>A write that the bus can carry: its fields are words, and the line fits the receiver's buffer.\<close>

type_synonym rep_write = "string \<times> string \<times> kv_meta"

fun set_line :: "rep_write \<Rightarrow> string" where
  "set_line (k, v, m) = ''SET '' @ meta_fields m @ '' '' @ k @ '' '' @ v"

fun good_write :: "rep_write \<Rightarrow> bool" where
  "good_write (k, v, m) \<longleftrightarrow> good_meta m \<and> field k \<and> field v \<and> is_cstr (m_origin m @ k @ v) \<and> Suc (length (set_line (k, v, m))) < 4096"

lemma field_no_newline: "field w \<Longrightarrow> newline \<notin> set w"
  by (auto simp: field_def is_space_def byte_of_def)

lemma good_write_line:
  assumes "good_write w"
  shows "newline \<notin> set (set_line w)" "is_cstr (set_line w)" "Suc (length (set_line w)) < 4096"
proof -
  obtain k v m where w: "w = (k, v, m)" by (cases w)
  have d: "newline \<notin> set (u64_dec x)" "NUL \<notin> set (u64_dec x)" for x
    using nat_dec_digits digit_chars unfolding u64_dec_def by blast+
  show "newline \<notin> set (set_line w)" "is_cstr (set_line w)"
    using assms d field_no_newline by (auto simp: w meta_fields_def good_meta_def is_cstr_def)
  show "Suc (length (set_line w)) < 4096" using assms by (simp add: w)
qed

lemma set_line_parse:
  assumes "good_write (k, v, m)"
  shows "cluster_parse_cmd (set_line (k, v, m)) = (CMD_SET, meta_fields m @ '' '' @ k @ '' '' @ v)"
    "parse_meta (meta_fields m @ '' '' @ k @ '' '' @ v) True = Inr (Some (m, k, v))"
proof -
  show "cluster_parse_cmd (set_line (k, v, m)) = (CMD_SET, meta_fields m @ '' '' @ k @ '' '' @ v)"
    using cluster_parse_SET by simp
  show "parse_meta (meta_fields m @ '' '' @ k @ '' '' @ v) True = Inr (Some (m, k, v))"
    using assms by (intro parse_meta_SET) auto
qed

lemma bus_line_SET:
  assumes "good_write (k, v, m)"
  shows "bus_line mem now fd (set_line (k, v, m)) b = bindr (kv_set_meta mem now (b_db b) k v m) (\<lambda>(_, db). Inr (b\<lparr>b_db := db\<rparr>, False))"
  unfolding bus_line_def set_line_parse(1) [OF assms] using set_line_parse(2) [OF assms]
  by (cases "kv_set_meta mem now (b_db b) k v m") (auto simp: bus_set_def)

text \<open>The message that is queued is that line.\<close>

lemma replicate_set_line:
  assumes "good_write (k, v, m)" "rr_inv (c_ring cs)" "rr_room (c_ring cs) (Suc n)"
  shows "\<exists>r. cluster_replicate_set cs k v m = Inr (cs\<lparr>c_ring := r\<rparr>) \<and> rr_inv r \<and> rr_room r n \<and>
    rr_items r = rr_items (c_ring cs) @ [set_line (k, v, m) @ NL]"
proof -
  have "cluster_build_msg CLUSTER_MSG_SIZE CMD_SET k v (Some m) = Inr (Some (set_line (k, v, m) @ NL))"
    using good_write_line(3) [OF assms(1)]
    by (simp add: cluster_build_msg_def snprintf_cut_def CLUSTER_MSG_SIZE_def NL_def)
  with repl.enq_law [OF assms(2,3), of "set_line (k, v, m) @ NL"] show ?thesis
    by (auto simp: cluster_replicate_set_def simp del: set_line.simps)
qed

text \<open>A bus connection that carries such lines applies the writes in order.\<close>

lemma each_line_writes:
  assumes "\<forall>w \<in> set ws. good_write w"
  shows "each_line 4096 (bus_line mem now fd) (concat (map (\<lambda>w. set_line w @ [newline]) ws)) b =
    bindr (restore mem now (b_db b) ws) (\<lambda>db. Inr (b\<lparr>b_db := db\<rparr>, False, []))"
  using assms
proof (induction ws arbitrary: b)
  case Nil
  then show ?case by (simp add: each_line.simps [of _ _ "[]"] next_line_def cstr_of_def)
next
  case (Cons w ws)
  obtain k v m where w: "w = (k, v, m)" by (cases w)
  have g: "good_write w" "\<forall>w \<in> set ws. good_write w" using Cons.prems by auto
  note l = good_write_line [OF g(1)]
  let ?r = "concat (map (\<lambda>w. set_line w @ [newline]) ws)"
  have tk: "take 4095 (set_line w) = set_line w" using l(3) by simp
  have "each_line 4096 (bus_line mem now fd) (set_line w @ newline # ?r) b =
      bindr (bus_line mem now fd (set_line w) b) (\<lambda>(b, quit).
      if quit then Inr (b, True, set_line w @ newline # ?r) else each_line 4096 (bus_line mem now fd) ?r b)"
    by (subst each_line.simps) (simp add: next_line_newline [OF l(2,1)] tk)
  also have "\<dots> = bindr (kv_set_meta mem now (b_db b) k v m) (\<lambda>(_, db). each_line 4096 (bus_line mem now fd) ?r (b\<lparr>b_db := db\<rparr>))"
    using g(1) by (cases "kv_set_meta mem now (b_db b) k v m") (auto simp: w bus_line_SET simp del: set_line.simps)
  also have "\<dots> = bindr (restore mem now (b_db b) (w # ws)) (\<lambda>db. Inr (b\<lparr>b_db := db\<rparr>, False, []))"
    using Cons.IH [OF g(2)] by (cases "kv_set_meta mem now (b_db b) k v m") (auto simp: w)
  finally show ?case by simp
qed

lemma bus_client_writes:
  assumes "\<forall>w \<in> set ws. good_write w"
  shows "\<exists>cs'. bus_client mem now fd pieces (concat (map (\<lambda>w. set_line w @ [newline]) ws)) cs db =
    bindr (restore mem now db ws) (\<lambda>db. Inr \<lparr>b_cs = cs', b_db = db, b_identified = False, b_peer_id = '''', b_out = []\<rparr>)"
proof -
  let ?s = "concat (map (\<lambda>w. set_line w @ [newline]) ws)"
  have e: "?s = concat (map (\<lambda>l. l @ [newline]) (map set_line ws))" by (simp add: comp_def)
  have "is_cstr ?s" using good_write_line(2) assms by (auto simp: is_cstr_def)
  moreover have "lines_fit 4096 ?s"
    unfolding e by (rule lines_fit_concat) (use assms good_write_line(1,3) in auto)
  ultimately show ?thesis
    using read_loop_stream [of "[]" ?s 4096 4096 "bus_line mem now fd" pieces 0] each_line_writes [OF assms, of mem now fd]
    by (cases "restore mem now db ws") (auto simp: bus_client_def)
qed

subsection \<open>The daemons\<close>

lemma for_peers_map: "for_peers f ps = (map (\<lambda>p. fst (f p)) ps, concat (map (\<lambda>p. snd (f p)) ps))"
  by (induction ps) (simp_all split: prod.split)

definition live :: "cluster_peer \<Rightarrow> bool" where
  "live p \<longleftrightarrow> p_out_fd p \<ge> 0 \<and> p_alive p"

text \<open>A turn of the replication daemon sends the oldest message to every live peer, once.\<close>

lemma repl_turn_sends:
  assumes "rr_inv (c_ring cs)" "rr_items (c_ring cs) = msg # msgs"
  shows "\<exists>cs'. repl_turn wr cs = Inr (cs', map (\<lambda>p. (p_out_fd p, msg)) (filter live (c_peers cs))) \<and>
    rr_inv (c_ring cs') \<and> rr_items (c_ring cs') = msgs \<and>
    c_peers cs' = map (\<lambda>p. if live p \<and> \<not> wr (p_out_fd p) msg then p\<lparr>p_alive := False, p_out_fd := -1\<rparr> else p) (c_peers cs)"
proof -
  obtain r where r: "repl_deq (c_ring cs) = Inr (Some (msg, r))" "rr_inv r" "rr_items r = msgs"
    using repl.deq_law [OF assms] by blast
  have t: "repl_take (c_ring cs) = Inr (Some (RItem msg, r))"
  proof -
    obtain item r1 where "repl_take (c_ring cs) = Inr (Some (item, r1))"
      using r(1) by (cases "repl_take (c_ring cs)") (auto simp: repl_deq_def split: option.splits)
    with r(1) show ?thesis by (cases item) (simp_all add: repl_deq_def)
  qed
  have "concat (map (\<lambda>p. snd (cluster_send wr p msg)) ps) = map (\<lambda>p. (p_out_fd p, msg)) (filter live ps)" for ps
    by (induction ps) (auto simp: cluster_send_def live_def)
  moreover have "map (\<lambda>p. fst (cluster_send wr p msg)) ps =
      map (\<lambda>p. if live p \<and> \<not> wr (p_out_fd p) msg then p\<lparr>p_alive := False, p_out_fd := -1\<rparr> else p) ps" for ps
    by (induction ps) (auto simp: cluster_send_def live_def)
  ultimately show ?thesis using t r(2,3) by (simp add: repl_turn_def for_peers_map)
qed

text \<open>After a heartbeat turn every peer that counts as alive was seen within the last two seconds.\<close>

lemma hb_reap_fresh: "p_alive (hb_reap now p) \<Longrightarrow> now - p_last_seen (hb_reap now p) \<le> CLUSTER_DEAD_MS"
  by (auto simp: hb_reap_def split: if_splits)

lemma hb_turn_fresh:
  "\<exists>cs' out. hb_turn dial wr now v cs = Inr (cs', out) \<and> length (c_peers cs') = length (c_peers cs) \<and> c_ring cs' = c_ring cs \<and>
     (\<forall>p \<in> set (c_peers cs'). p_alive p \<longrightarrow> now - p_last_seen p \<le> CLUSTER_DEAD_MS)"
  by (auto simp: hb_turn_def cluster_build_msg_def for_peers_map hb_reap_fresh Let_def split: prod.splits)

subsection \<open>Incoming lines keep the store well-formed\<close>

lemma bus_line_inv:
  assumes "kv_inv (b_db b)" "bus_line mem now fd line b = Inr (b', q)"
  shows "kv_inv (b_db b')" "\<not> q"
proof -
  have s: "kv_inv (b_db b1)" if "bus_set mem now rest b = Inr b1" for rest b1
    using that assms(1) kv_set_meta_ok [OF assms(1), of mem now]
    by (auto simp: bus_set_def split: option.splits) (metis Inr_inject prod.inject)+
  have d: "kv_inv (b_db b1)" if "bus_del rest b = Inr b1" for rest b1
    using that assms(1) kv_del_meta_ok [OF assms(1)]
    by (auto simp: bus_del_def split: option.splits) (metis Inr_inject prod.inject)+
  have "kv_inv (b_db b') \<and> \<not> q"
    using assms s d by (auto simp: bus_line_def bus_heartbeat_def bus_join_def split: cluster_cmd.splits option.splits prod.splits)
  then show "kv_inv (b_db b')" "\<not> q" by auto
qed

subsection \<open>Order of replicated writes\<close>

lemma restore_last:
  assumes "kv_inv db" "can_grow mem db" "kv_set_meta mem now db k v1 m1 = Inr (0, d)" "can_grow mem d"
  shows "\<exists>db'. restore mem now db [(k, v1, m1), (k, v2, m2)] = Inr db' \<and> kv_inv db' \<and> kv_map db' k = Some (rec_obj v2 m2)"
proof -
  have d: "kv_inv d" using kv_set_meta_ok [OF assms(1), of mem now k v1 m1] assms(3) by auto
  obtain db' where "kv_set_meta mem now d k v2 m2 = Inr (0, db')" "kv_inv db'" "kv_map db' k = Some (rec_obj v2 m2)"
    using kv_set_object_ok [OF d create_stamp_inv, of mem k m2 now v2 "Some m2"] assms(4)
    unfolding kv_set_meta_def stamped_create by auto
  with assms(3) show ?thesis by simp
qed

subsection \<open>Shutdown\<close>

lemma free_range_ok:
  "distinct is \<Longrightarrow> \<forall>i \<in> set is. i < cap \<and> buf ! i \<noteq> RFreed \<Longrightarrow> \<exists>buf'. free_range cap buf is = Inr buf'"
proof (induction "is" arbitrary: buf)
  case (Cons i "is")
  let ?buf = "buf[i := (if buf ! i = RNull then RNull else RFreed)]"
  have "\<forall>j \<in> set is. j < cap \<and> ?buf ! j \<noteq> RFreed" using Cons.prems by (metis distinct.simps(2) list.set_intros(2) nth_list_update_neq)
  from Cons.IH [OF _ this] Cons.prems show ?case by (auto simp: Let_def free_item_def split: repl_item.split)
qed simp

lemma cluster_shutdown_ok:
  assumes "rr_inv (c_ring cs)"
  shows "cluster_shutdown cs = Inr (filter (\<lambda>fd. fd \<ge> 0) (c_listener_fd cs # concat (map (\<lambda>p. [p_out_fd p, p_in_fd p]) (c_peers cs))))"
proof -
  let ?r = "c_ring cs"
  have "\<forall>i \<in> set [rr_tail ?r..<rr_head ?r]. i < rr_cap ?r \<and> rr_buf ?r ! i \<noteq> RFreed"
    using assms by (fastforce simp: rr_inv_def)
  from free_range_ok [OF distinct_upt this] show ?thesis by (auto simp: cluster_shutdown_def)
qed

subsection \<open>From one node to the next\<close>

text \<open>A series of writes that are queued, and a series of turns of the replication daemon.\<close>

fun replicate_all :: "cluster_state \<Rightarrow> rep_write list \<Rightarrow> cluster_state res" where
  "replicate_all cs [] = Inr cs"
| "replicate_all cs ((k, v, m) # ws) = bindr (cluster_replicate_set cs k v m) (\<lambda>cs. replicate_all cs ws)"

fun repl_turns :: "(int \<Rightarrow> string \<Rightarrow> bool) \<Rightarrow> nat \<Rightarrow> cluster_state \<Rightarrow> (cluster_state \<times> sends) res" where
  "repl_turns wr 0 cs = Inr (cs, [])"
| "repl_turns wr (Suc n) cs =
     bindr (repl_turn wr cs) (\<lambda>(cs, out). bindr (repl_turns wr n cs) (\<lambda>(cs, out'). Inr (cs, out @ out')))"

lemma replicate_all_queues:
  assumes "\<forall>w \<in> set ws. good_write w" "rr_inv (c_ring cs)" "rr_room (c_ring cs) (length ws)"
  shows "\<exists>r. replicate_all cs ws = Inr (cs\<lparr>c_ring := r\<rparr>) \<and> rr_inv r \<and>
    rr_items r = rr_items (c_ring cs) @ map (\<lambda>w. set_line w @ NL) ws"
  using assms
proof (induction ws arbitrary: cs)
  case Nil
  then show ?case by (intro exI [of _ "c_ring cs"]) simp
next
  case (Cons w ws)
  obtain k v m where w: "w = (k, v, m)" by (cases w)
  from replicate_set_line [of k v m cs "length ws"] Cons.prems w obtain r where
    r: "cluster_replicate_set cs k v m = Inr (cs\<lparr>c_ring := r\<rparr>)" "rr_inv r" "rr_room r (length ws)"
      "rr_items r = rr_items (c_ring cs) @ [set_line w @ NL]" by auto
  from Cons.IH [of "cs\<lparr>c_ring := r\<rparr>"] Cons.prems r w show ?case by (auto simp del: set_line.simps)
qed

lemma repl_turns_drain:
  assumes "rr_inv (c_ring cs)" "rr_items (c_ring cs) = msgs" "c_peers cs = [p]" "live p" "\<forall>msg \<in> set msgs. wr (p_out_fd p) msg"
  shows "\<exists>cs'. repl_turns wr (length msgs) cs = Inr (cs', map (Pair (p_out_fd p)) msgs) \<and> rr_items (c_ring cs') = []"
  using assms
proof (induction msgs arbitrary: cs)
  case (Cons msg msgs)
  from repl_turn_sends [OF Cons.prems(1,2), of wr] Cons.prems(3-5) obtain cs1 where
    c: "repl_turn wr cs = Inr (cs1, [(p_out_fd p, msg)])" "rr_inv (c_ring cs1)" "rr_items (c_ring cs1) = msgs" "c_peers cs1 = [p]" by auto
  from Cons.IH [OF c(2,3,4) Cons.prems(4)] Cons.prems(5) c(1) show ?case by auto
qed simp

end
