(* ===== verification/Server_Commands.thy ===== *)
theory Server_Commands
  imports String_Commands List_Commands Table_Commands Zset_Commands Resp_Protocol Cluster_Node
begin

text \<open>
  The command interpreter of the server (\<open>process_command\<close> of \<open>src/src/server/server.c\<close>): one
  definition per command, in the order of the source, and the routing by name and number of
  arguments. \<open>args ! 0\<close> is the name of the command. A command maps the server's state to a new
  state and the bytes it sends, first to its own descriptor \<open>fd\<close>; \<open>PUBLISH\<close> also sends to
  others.

  An environment gives what the commands ask the system for: memory, the clock (which stands
  still during one command), random numbers, the conversion of scores from and to text
  (\<open>strtod\<close> and \<open>%g\<close>), whether \<open>send\<close> succeeds and whether a file can be written. A variable that
  is read although the call that should set it failed is the fault \<open>Uninit\<close>.
\<close>

record env =
  e_mem :: "nat \<Rightarrow> bool"
  e_us :: u64
  e_rand :: "nat \<Rightarrow> nat \<Rightarrow> nat"
  e_strtod :: "string \<Rightarrow> double"
  e_fmt_g :: "double \<Rightarrow> string"
  e_send :: "int \<Rightarrow> string \<Rightarrow> bool"
  e_writable :: "string \<Rightarrow> bool"

record server =
  sv_db :: kv_table
  sv_ps :: pubsub_mgr
  sv_cs :: "cluster_state option"
  sv_id :: string
  sv_fs :: file_system

definition now_ms :: "env \<Rightarrow> int" where
  "now_ms e = int (unat (e_us e)) div 1000"

type_synonym command = "env \<Rightarrow> int \<Rightarrow> server \<Rightarrow> string list \<Rightarrow> (server \<times> sends) res"

text \<open>Answering with given bytes, and with a bulk string.\<close>

definition answer :: "int \<Rightarrow> server \<Rightarrow> string \<Rightarrow> (server \<times> sends) res" where
  "answer fd sv bytes = Inr (sv, [(fd, bytes)])"

definition answer_bulk :: "int \<Rightarrow> server \<Rightarrow> string option \<Rightarrow> (server \<times> sends) res" where
  "answer_bulk fd sv s = bindr (send_bulk s) (answer fd sv)"

definition answer_array :: "int \<Rightarrow> server \<Rightarrow> string list \<Rightarrow> (server \<times> sends) res" where
  "answer_array fd sv ss = bindr (send_array ss) (answer fd sv)"

subsection \<open>Connection and strings\<close>

definition cmd_ping :: command where
  "cmd_ping e fd sv args = (if length args \<ge> 2 then answer_bulk fd sv (Some (args ! 1)) else answer fd sv send_pong)"

definition cmd_quit :: command where
  "cmd_quit e fd sv args = answer fd sv send_ok"

text \<open>The options after key and value of \<open>SET\<close>.\<close>

fun ttl_loop :: "env \<Rightarrow> string \<Rightarrow> string list \<Rightarrow> kv_table \<Rightarrow> kv_table res" where
  "ttl_loop e k (opt # t # rest) db =
     (if same_nocase opt ''EX''
      then bindr (i64 (strtoll t * 1000)) (\<lambda>d. bindr (i64 (now_ms e + d)) (\<lambda>ttl. ttl_loop e k rest (snd (kv_set_ttl db k ttl))))
      else if same_nocase opt ''PX''
      then bindr (i64 (now_ms e + strtoll t)) (\<lambda>ttl. ttl_loop e k rest (snd (kv_set_ttl db k ttl)))
      else Inr db)"
| "ttl_loop e k _ db = Inr db"

text \<open>The part of \<open>SET\<close> that is compiled with clusters: the write is queued for the peers.\<close>

definition replicate_write :: "string \<Rightarrow> string \<Rightarrow> server \<Rightarrow> server res" where
  "replicate_write k v sv = (case sv_cs sv of
       None \<Rightarrow> Inr sv
     | Some cs \<Rightarrow>
         (case kv_get_meta (sv_db sv) k of
            None \<Rightarrow> Inr sv
          | Some (_, m) \<Rightarrow>
              bindr (cluster_replicate_set cs k v (m\<lparr>m_origin := take 15 (sv_id sv)\<rparr>)) (\<lambda>cs.
              Inr (sv\<lparr>sv_cs := Some cs\<rparr>))))"

definition cmd_set :: command where
  "cmd_set e fd sv args =
     (let k = args ! 1; v = args ! 2 in
      bindr (kv_set (e_mem e) (e_us e) (sv_db sv) k v) (\<lambda>(r, db).
      if r = 0
      then bindr (ttl_loop e k (drop 3 args) db) (\<lambda>db.
           bindr (replicate_write k v (sv\<lparr>sv_db := db\<rparr>)) (\<lambda>sv. answer fd sv send_ok))
      else answer fd (sv\<lparr>sv_db := db\<rparr>) (send_err ''ERR'')))"

definition cmd_setnx :: command where
  "cmd_setnx e fd sv args =
     bindr (kv_setnx (e_mem e) (e_us e) (sv_db sv) (args ! 1) (args ! 2)) (\<lambda>(r, db).
     answer fd (sv\<lparr>sv_db := db\<rparr>) (send_int (if r = 0 then 1 else 0)))"

definition cmd_setex :: command where
  "cmd_setex e fd sv args =
     bindr (i64 (arg_i args 2 * 1000)) (\<lambda>ms.
     bindr (kv_setex (e_mem e) (e_us e) (now_ms e) (sv_db sv) (args ! 1) (args ! 3) ms) (\<lambda>(_, db).
     answer fd (sv\<lparr>sv_db := db\<rparr>) send_ok))"

definition cmd_get :: command where
  "cmd_get e fd sv args = answer_bulk fd sv (kv_get (sv_db sv) (args ! 1))"

definition cmd_getrange :: command where
  "cmd_getrange e fd sv args =
     bindr (kv_getrange (sv_db sv) (args ! 1) (arg_i args 2) (arg_i args 3)) (\<lambda>s. answer_bulk fd sv (Some s))"

definition cmd_append :: command where
  "cmd_append e fd sv args =
     bindr (kv_append (e_mem e) (e_us e) (sv_db sv) (args ! 1) (args ! 2)) (\<lambda>((r, len), db).
     answer fd (sv\<lparr>sv_db := db\<rparr>) (case len of Some n \<Rightarrow> if r = 0 then send_int (int n) else send_err ''ERR'' | None \<Rightarrow> send_err ''ERR''))"

definition cmd_strlen :: command where
  "cmd_strlen e fd sv args =
     answer fd sv (case kv_strlen (sv_db sv) (args ! 1) of (_, Some n) \<Rightarrow> send_int (int n) | (_, None) \<Rightarrow> send_nil)"

text \<open>The reply of the four counting commands.\<close>

definition answer_counter :: "int \<Rightarrow> server \<Rightarrow> string \<Rightarrow> ((int \<times> int option) \<times> kv_table) res \<Rightarrow> (server \<times> sends) res" where
  "answer_counter fd sv err m =
     bindr m (\<lambda>((r, out), db).
     answer fd (sv\<lparr>sv_db := db\<rparr>) (case out of Some n \<Rightarrow> if r = 0 then send_int n else send_err err | None \<Rightarrow> send_err err))"

definition cmd_incr :: command where
  "cmd_incr e fd sv args =
     answer_counter fd sv ''ERR value is not an integer'' (kv_incr (e_mem e) (e_us e) (sv_db sv) (args ! 1))"

definition cmd_decr :: command where
  "cmd_decr e fd sv args =
     answer_counter fd sv ''ERR value is not an integer'' (kv_decr (e_mem e) (e_us e) (sv_db sv) (args ! 1))"

definition cmd_incrby :: command where
  "cmd_incrby e fd sv args =
     answer_counter fd sv ''ERR'' (kv_incrby (e_mem e) (e_us e) (sv_db sv) (args ! 1) (arg_i args 2))"

definition cmd_decrby :: command where
  "cmd_decrby e fd sv args =
     answer_counter fd sv ''ERR'' (kv_decrby (e_mem e) (e_us e) (sv_db sv) (args ! 1) (arg_i args 2))"

subsection \<open>Keys\<close>

fun del_loop :: "string list \<Rightarrow> kv_table \<Rightarrow> int \<Rightarrow> (int \<times> kv_table) res" where
  "del_loop [] db ok = Inr (ok, db)"
| "del_loop (k # ks) db ok = bindr (kv_del db k) (\<lambda>(r, db). del_loop ks db (if r = 0 then ok + 1 else ok))"

definition cmd_del :: command where
  "cmd_del e fd sv args =
     bindr (del_loop (drop 1 args) (sv_db sv) 0) (\<lambda>(ok, db). answer fd (sv\<lparr>sv_db := db\<rparr>) (send_int ok))"

definition cmd_exists :: command where
  "cmd_exists e fd sv args =
     answer fd sv (send_int (int (length (filter (kv_exists (sv_db sv)) (drop 1 args)))))"

definition type_reply :: "db_object option \<Rightarrow> string" where
  "type_reply obj = send_reply (case obj of
       None \<Rightarrow> ''+none''
     | Some obj \<Rightarrow> (case o_val obj of
           OBJ_STRING _ \<Rightarrow> ''+string'' | OBJ_LIST _ \<Rightarrow> ''+list'' | OBJ_SET _ \<Rightarrow> ''+set''
         | OBJ_HASH _ \<Rightarrow> ''+hash'' | OBJ_ZSET _ \<Rightarrow> ''+zset''))"

definition cmd_type :: command where
  "cmd_type e fd sv args = answer fd sv (type_reply (map_option snd (kv_get_object (sv_db sv) (args ! 1))))"

definition cmd_keys :: command where
  "cmd_keys e fd sv args = (case kv_keys (sv_db sv) of (r, ks) \<Rightarrow>
     if r = 0 then answer_array fd sv ks else answer fd sv (send_err ''ERR''))"

definition cmd_save :: command where
  "cmd_save e fd sv args = (case kv_save (e_writable e) (sv_db sv) (sv_fs sv) of (r, fs) \<Rightarrow>
     answer fd (sv\<lparr>sv_fs := fs\<rparr>) (if r = 0 then send_ok else send_err ''ERR''))"

text \<open>C division truncates towards zero.\<close>

definition c_div :: "int \<Rightarrow> int \<Rightarrow> int" where
  "c_div a b = (if (a < 0) = (b < 0) then \<bar>a\<bar> div \<bar>b\<bar> else - (\<bar>a\<bar> div \<bar>b\<bar>))"

definition cmd_ttl :: command where
  "cmd_ttl e fd sv args =
     (let t = kv_ttl_ms (sv_db sv) (args ! 1) in
      if t = -2 then answer fd sv (send_int (-2))
      else if t = -1 then answer fd sv (send_int (-1))
      else bindr (i64 (t - now_ms e)) (\<lambda>d. answer fd sv (send_int (c_div d 1000))))"

definition cmd_pttl :: command where
  "cmd_pttl e fd sv args =
     (let t = kv_ttl_ms (sv_db sv) (args ! 1) in
      if t = -2 then answer fd sv (send_int (-2))
      else if t = -1 then answer fd sv (send_int (-1))
      else bindr (i64 (t - now_ms e)) (\<lambda>d. answer fd sv (send_int d)))"

definition cmd_expire :: command where
  "cmd_expire e fd sv args =
     bindr (i64 (arg_i args 2 * 1000)) (\<lambda>ms.
     bindr (kv_expire (now_ms e) (sv_db sv) (args ! 1) ms) (\<lambda>(r, db).
     answer fd (sv\<lparr>sv_db := db\<rparr>) (send_int (if r = 0 then 1 else 0))))"

definition cmd_persist :: command where
  "cmd_persist e fd sv args = (case kv_persist (sv_db sv) (args ! 1) of (r, db) \<Rightarrow>
     answer fd (sv\<lparr>sv_db := db\<rparr>) (send_int (if r = 0 then 1 else 0)))"

subsection \<open>Lists\<close>

text \<open>The loop of \<open>LPUSH\<close> and \<open>RPUSH\<close>; \<open>len\<close> is \<open>None\<close> until a push sets it.\<close>

fun push_loop :: "(kv_table \<Rightarrow> string \<Rightarrow> ((int \<times> nat option) \<times> kv_table) res) \<Rightarrow> string list \<Rightarrow> kv_table \<Rightarrow> nat option \<Rightarrow> (nat option \<times> kv_table) res" where
  "push_loop push [] db len = Inr (len, db)"
| "push_loop push (v # vs) db len =
     bindr (push db v) (\<lambda>((_, n), db). push_loop push vs db (case n of None \<Rightarrow> len | Some n \<Rightarrow> Some n))"

definition answer_len :: "int \<Rightarrow> server \<Rightarrow> (nat option \<times> kv_table) res \<Rightarrow> (server \<times> sends) res" where
  "answer_len fd sv m =
     bindr m (\<lambda>(len, db). case len of None \<Rightarrow> Inl Uninit | Some n \<Rightarrow> answer fd (sv\<lparr>sv_db := db\<rparr>) (send_int (int n)))"

definition cmd_lpush :: command where
  "cmd_lpush e fd sv args =
     answer_len fd sv (push_loop (\<lambda>db v. kv_lpush (e_mem e) db (args ! 1) v) (drop 2 args) (sv_db sv) None)"

definition cmd_rpush :: command where
  "cmd_rpush e fd sv args =
     answer_len fd sv (push_loop (\<lambda>db v. kv_rpush (e_mem e) db (args ! 1) v) (drop 2 args) (sv_db sv) None)"

definition cmd_lpop :: command where
  "cmd_lpop e fd sv args = bindr (kv_lpop (sv_db sv) (args ! 1)) (\<lambda>(v, db). answer_bulk fd (sv\<lparr>sv_db := db\<rparr>) v)"

definition cmd_rpop :: command where
  "cmd_rpop e fd sv args = bindr (kv_rpop (sv_db sv) (args ! 1)) (\<lambda>(v, db). answer_bulk fd (sv\<lparr>sv_db := db\<rparr>) v)"

definition cmd_llen :: command where
  "cmd_llen e fd sv args = (case kv_llen (sv_db sv) (args ! 1) of (r, n) \<Rightarrow>
     answer fd sv (send_int (if r = 0 then int n else 0)))"

definition cmd_lindex :: command where
  "cmd_lindex e fd sv args = bindr (kv_lindex (sv_db sv) (args ! 1) (arg_i args 2)) (\<lambda>v. answer_bulk fd sv v)"

definition cmd_lset :: command where
  "cmd_lset e fd sv args =
     bindr (kv_lset (sv_db sv) (args ! 1) (arg_i args 2) (args ! 3)) (\<lambda>(r, db).
     answer fd (sv\<lparr>sv_db := db\<rparr>) (if r = 0 then send_ok else send_err ''ERR index out of range''))"

definition cmd_lrem :: command where
  "cmd_lrem e fd sv args =
     bindr (kv_lrem (sv_db sv) (args ! 1) (arg_i args 2) (args ! 3)) (\<lambda>((_, rm), db).
     answer fd (sv\<lparr>sv_db := db\<rparr>) (send_int rm))"

definition cmd_rpoplpush :: command where
  "cmd_rpoplpush e fd sv args =
     bindr (kv_lpoprpush (e_mem e) (sv_db sv) (args ! 1) (args ! 2)) (\<lambda>(v, db). answer_bulk fd (sv\<lparr>sv_db := db\<rparr>) v)"

subsection \<open>Sets and hashes\<close>

definition cmd_sadd :: command where
  "cmd_sadd e fd sv args =
     bindr (kv_sadd (e_mem e) (sv_db sv) (args ! 1) (drop 2 args)) (\<lambda>((_, added), db).
     answer fd (sv\<lparr>sv_db := db\<rparr>) (send_int (case added of None \<Rightarrow> 0 | Some n \<Rightarrow> n)))"

definition cmd_srem :: command where
  "cmd_srem e fd sv args = (case kv_srem (sv_db sv) (args ! 1) (drop 2 args) of ((_, removed), db) \<Rightarrow>
     answer fd (sv\<lparr>sv_db := db\<rparr>) (send_int removed))"

definition cmd_sismember :: command where
  "cmd_sismember e fd sv args = answer fd sv (send_int (kv_sismember (sv_db sv) (args ! 1) (args ! 2)))"

definition cmd_scard :: command where
  "cmd_scard e fd sv args = answer fd sv (send_int (int (snd (kv_scard (sv_db sv) (args ! 1)))))"

text \<open>The commands that reply with a list of strings.\<close>

definition answer_list :: "int \<Rightarrow> server \<Rightarrow> int \<times> string list \<Rightarrow> (server \<times> sends) res" where
  "answer_list fd sv p = (case p of (r, ss) \<Rightarrow> if r = 0 then answer_array fd sv ss else answer fd sv (send_err ''ERR''))"

definition cmd_smembers :: command where
  "cmd_smembers e fd sv args = answer_list fd sv (kv_smembers (sv_db sv) (args ! 1))"

definition cmd_hset :: command where
  "cmd_hset e fd sv args =
     bindr (kv_hset (e_mem e) (sv_db sv) (args ! 1) (args ! 2) (args ! 3)) (\<lambda>((_, created), db).
     case created of None \<Rightarrow> Inl Uninit | Some c \<Rightarrow> answer fd (sv\<lparr>sv_db := db\<rparr>) (send_int c))"

definition cmd_hget :: command where
  "cmd_hget e fd sv args = answer_bulk fd sv (kv_hget (sv_db sv) (args ! 1) (args ! 2))"

definition cmd_hdel :: command where
  "cmd_hdel e fd sv args = (case kv_hdel (sv_db sv) (args ! 1) (drop 2 args) of ((_, removed), db) \<Rightarrow>
     answer fd (sv\<lparr>sv_db := db\<rparr>) (send_int removed))"

definition cmd_hexists :: command where
  "cmd_hexists e fd sv args = answer fd sv (send_int (kv_hexists (sv_db sv) (args ! 1) (args ! 2)))"

definition cmd_hlen :: command where
  "cmd_hlen e fd sv args = answer fd sv (send_int (int (snd (kv_hlen (sv_db sv) (args ! 1)))))"

definition cmd_hkeys :: command where
  "cmd_hkeys e fd sv args = answer_list fd sv (kv_hkeys (sv_db sv) (args ! 1))"

definition cmd_hvals :: command where
  "cmd_hvals e fd sv args = answer_list fd sv (kv_hvals (sv_db sv) (args ! 1))"

definition cmd_hgetall :: command where
  "cmd_hgetall e fd sv args = answer_list fd sv (kv_hgetall (sv_db sv) (args ! 1))"

subsection \<open>Sorted sets\<close>

text \<open>Each turn of the loop overwrites \<open>added\<close>.\<close>

fun zadd_loop :: "env \<Rightarrow> nat \<Rightarrow> string \<Rightarrow> string list \<Rightarrow> kv_table \<Rightarrow> int \<Rightarrow> (int \<times> kv_table) res" where
  "zadd_loop e i k (s # m # rest) db added =
     bindr (kv_zadd (e_mem e) (e_rand e i) db k (e_strtod e s) m) (\<lambda>((_, a), db).
     zadd_loop e (Suc i) k rest db (case a of None \<Rightarrow> added | Some a \<Rightarrow> a))"
| "zadd_loop e i k _ db added = Inr (added, db)"

definition cmd_zadd :: command where
  "cmd_zadd e fd sv args =
     bindr (zadd_loop e 0 (args ! 1) (drop 2 args) (sv_db sv) 0) (\<lambda>(added, db).
     answer fd (sv\<lparr>sv_db := db\<rparr>) (send_int added))"

fun zrem_loop :: "string \<Rightarrow> string list \<Rightarrow> kv_table \<Rightarrow> int \<Rightarrow> (int \<times> kv_table) res" where
  "zrem_loop k [] db removed = Inr (removed, db)"
| "zrem_loop k (m # ms) db removed = bindr (kv_zrem db k m) (\<lambda>((_, r), db). zrem_loop k ms db r)"

definition cmd_zrem :: command where
  "cmd_zrem e fd sv args =
     bindr (zrem_loop (args ! 1) (drop 2 args) (sv_db sv) 0) (\<lambda>(removed, db).
     answer fd (sv\<lparr>sv_db := db\<rparr>) (send_int removed))"

definition cmd_zscore :: command where
  "cmd_zscore e fd sv args =
     bindr (kv_zscore (sv_db sv) (args ! 1) (args ! 2)) (\<lambda>(sc, found).
     if found \<noteq> 0 then answer_bulk fd sv (Some (snprintf_cut 32 (e_fmt_g e sc))) else answer fd sv send_nil)"

definition cmd_zcard :: command where
  "cmd_zcard e fd sv args = answer fd sv (send_int (int (snd (kv_zcard (sv_db sv) (args ! 1)))))"

definition cmd_zrank :: command where
  "cmd_zrank e fd sv args = bindr (kv_zrank (sv_db sv) (args ! 1) (args ! 2)) (\<lambda>(_, r). answer fd sv (send_int r))"

definition cmd_zrevrank :: command where
  "cmd_zrevrank e fd sv args = bindr (kv_zrevrank (sv_db sv) (args ! 1) (args ! 2)) (\<lambda>(_, r). answer fd sv (send_int r))"

definition cmd_zrange :: command where
  "cmd_zrange e fd sv args =
     bindr (kv_zrange (sv_db sv) (args ! 1) (arg_i args 2) (arg_i args 3)) (\<lambda>(_, ms). answer_array fd sv ms)"

definition cmd_zrevrange :: command where
  "cmd_zrevrange e fd sv args =
     bindr (kv_zrevrange (sv_db sv) (args ! 1) (arg_i args 2) (arg_i args 3)) (\<lambda>(_, ms). answer_array fd sv ms)"

subsection \<open>Publishing\<close>

definition publish_text :: "string list \<Rightarrow> string" where
  "publish_text ws = join_words BULK_MSG_MAX ws"

definition cmd_publish :: command where
  "cmd_publish e fd sv args =
     bindr (pubsub_publish (e_send e) (sv_ps sv) (args ! 1) (publish_text (drop 2 args))) (\<lambda>(c, out).
     Inr (sv, out @ [(fd, send_int c)]))"

subsection \<open>Routing\<close>

text \<open>The commands with their least number of arguments, the name included, in the order they are tried.\<close>

definition command_table :: "(string \<times> nat \<times> command) list" where
  "command_table =
     [(''PING'', 1, cmd_ping), (''QUIT'', 1, cmd_quit),
      (''SET'', 3, cmd_set), (''SETNX'', 3, cmd_setnx), (''SETEX'', 4, cmd_setex), (''GET'', 2, cmd_get),
      (''GETRANGE'', 4, cmd_getrange), (''APPEND'', 3, cmd_append), (''STRLEN'', 2, cmd_strlen),
      (''INCR'', 2, cmd_incr), (''DECR'', 2, cmd_decr), (''INCRBY'', 3, cmd_incrby), (''DECRBY'', 3, cmd_decrby),
      (''DEL'', 2, cmd_del), (''EXISTS'', 2, cmd_exists), (''TYPE'', 2, cmd_type), (''KEYS'', 1, cmd_keys), (''SAVE'', 1, cmd_save),
      (''TTL'', 2, cmd_ttl), (''PTTL'', 2, cmd_pttl), (''EXPIRE'', 3, cmd_expire), (''PERSIST'', 2, cmd_persist),
      (''LPUSH'', 3, cmd_lpush), (''RPUSH'', 3, cmd_rpush), (''LPOP'', 2, cmd_lpop), (''RPOP'', 2, cmd_rpop),
      (''LLEN'', 2, cmd_llen), (''LINDEX'', 3, cmd_lindex), (''LSET'', 4, cmd_lset), (''LREM'', 4, cmd_lrem),
      (''RPOPLPUSH'', 3, cmd_rpoplpush),
      (''SADD'', 3, cmd_sadd), (''SREM'', 3, cmd_srem), (''SISMEMBER'', 3, cmd_sismember), (''SCARD'', 2, cmd_scard),
      (''SMEMBERS'', 2, cmd_smembers),
      (''HSET'', 4, cmd_hset), (''HGET'', 3, cmd_hget), (''HDEL'', 3, cmd_hdel), (''HEXISTS'', 3, cmd_hexists),
      (''HLEN'', 2, cmd_hlen), (''HKEYS'', 2, cmd_hkeys), (''HVALS'', 2, cmd_hvals), (''HGETALL'', 2, cmd_hgetall),
      (''ZADD'', 4, cmd_zadd), (''ZREM'', 3, cmd_zrem), (''ZSCORE'', 3, cmd_zscore), (''ZCARD'', 2, cmd_zcard),
      (''ZRANK'', 3, cmd_zrank), (''ZREVRANK'', 3, cmd_zrevrank), (''ZRANGE'', 4, cmd_zrange), (''ZREVRANGE'', 4, cmd_zrevrange),
      (''PUBLISH'', 3, cmd_publish)]"

fun route :: "(string \<times> nat \<times> command) list \<Rightarrow> string list \<Rightarrow> command option" where
  "route [] args = None"
| "route ((name, least, f) # t) args =
     (if same_nocase (hd args) name \<and> least \<le> length args then Some f else route t args)"

definition process_command :: "env \<Rightarrow> int \<Rightarrow> server \<Rightarrow> string \<Rightarrow> (server \<times> sends) res" where
  "process_command e fd sv line =
     (let args = parse_line line MAX_ARGS in
      if args = [] then Inr (sv, [])
      else (case route command_table args of
          Some f \<Rightarrow> f e fd sv args
        | None \<Rightarrow> answer fd sv (send_err ''ERR unknown command'')))"

lemma route_in: "route t args = Some f \<Longrightarrow> \<exists>name least. (name, least, f) \<in> set t \<and> least \<le> length args"
  by (induction t args rule: route.induct) (auto split: if_splits)

end
