(* ===== verification/Command_Spec.thy ===== *)
theory Command_Spec
  imports Server_Commands
begin

text \<open>
  What the data commands promise a client, on the abstract database: no slots, no pointers, no
  buffers. A specification maps the arguments of a command and a database to the new database and
  the reply, which are those of the command reference in \<open>src/README.md\<close>. It is \<open>None\<close> where nothing is
  promised: a number or an expiry time that leaves 64 bits, a score that is no number, a sorted set out of order,
  the commands that speak about time, files and other clients, and the cases in which the server does
  not do what is documented. These are \<open>SETNX\<close> of a key that is there (documented reply 0, sent 1), \<open>ZADD\<close> of
  several pairs or of a member that is there (documented the number added, sent 1), commands that store into a key
  of another type (documented an error, the value is replaced), a counter that is no number (taken for 0) and
  \<open>STRLEN\<close> of a key that holds no string (documented an integer, sent nil). An array
  reply is the set of the listings that may be sent, since the order of keys, members and fields is
  not fixed.
\<close>

type_synonym adb = "string \<rightharpoonup> aval"

datatype reply =
    RStatus string
  | RErr string
  | RInt int
  | RBulk "string option"
  | RArray "string list set"

type_synonym spec = "env \<Rightarrow> string list \<Rightarrow> adb \<Rightarrow> (adb \<times> reply) option"

subsection \<open>Replies on the wire\<close>

fun encodes :: "reply \<Rightarrow> string \<Rightarrow> bool" where
  "encodes (RStatus s) b = (b = ''+'' @ s @ CRLF)"
| "encodes (RErr s) b = (b = ''-'' @ s @ CRLF)"
| "encodes (RInt n) b = (b = '':'' @ int_dec n @ CRLF)"
| "encodes (RBulk None) b = (b = ''$-1'' @ CRLF)"
| "encodes (RBulk (Some s)) b = (b = resp_bulk s)"
| "encodes (RArray X) b = (\<exists>xs \<in> X. b = ''*'' @ nat_dec (length xs) @ CRLF @ concat (map resp_bulk xs))"

text \<open>The replies the server's buffers can hold.\<close>

fun fits :: "reply \<Rightarrow> bool" where
  "fits (RInt n) = in_i64 n"
| "fits (RBulk (Some s)) = (length s < 8000)"
| "fits (RArray X) = (\<forall>xs \<in> X. in_i64 (int (length xs)) \<and> (\<forall>s \<in> set xs. length s < 8000))"
| "fits r = True"

subsection \<open>Values\<close>

definition astr :: "adb \<Rightarrow> string \<Rightarrow> string option" where
  "astr a k = (case a k of Some (AStr s) \<Rightarrow> Some s | _ \<Rightarrow> None)"

definition alist :: "adb \<Rightarrow> string \<Rightarrow> string list" where
  "alist a k = (case a k of Some (AList xs) \<Rightarrow> xs | _ \<Rightarrow> [])"

definition is_list :: "adb \<Rightarrow> string \<Rightarrow> bool" where
  "is_list a k = (case a k of Some (AList xs) \<Rightarrow> True | _ \<Rightarrow> False)"

definition aset :: "adb \<Rightarrow> string \<Rightarrow> string set" where
  "aset a k = (case a k of Some (ASet s) \<Rightarrow> s | _ \<Rightarrow> {})"

definition ahash :: "adb \<Rightarrow> string \<Rightarrow> string \<rightharpoonup> string option" where
  "ahash a k = (case a k of Some (AHash h) \<Rightarrow> h | _ \<Rightarrow> Map.empty)"

definition azset :: "adb \<Rightarrow> string \<Rightarrow> zentry list" where
  "azset a k = (case a k of Some (AZset es) \<Rightarrow> es | _ \<Rightarrow> [])"

definition anumber :: "adb \<Rightarrow> string \<Rightarrow> int option" where
  "anumber a k = (case a k of
       None \<Rightarrow> Some 0
     | Some (AStr s) \<Rightarrow> Some (case scan_lld s of None \<Rightarrow> 0 | Some v \<Rightarrow> v)
     | Some _ \<Rightarrow> None)"

text \<open>A list that is there is replaced, one that is not there stays absent.\<close>

definition put_list :: "adb \<Rightarrow> string \<Rightarrow> string list \<Rightarrow> adb" where
  "put_list a k xs = (if is_list a k then a(k \<mapsto> AList xs) else a)"

definition type_name :: "aval option \<Rightarrow> string" where
  "type_name v = (case v of
       None \<Rightarrow> ''none'' | Some (AStr _) \<Rightarrow> ''string'' | Some (AList _) \<Rightarrow> ''list'' | Some (ASet _) \<Rightarrow> ''set''
     | Some (AHash _) \<Rightarrow> ''hash'' | Some (AZset _) \<Rightarrow> ''zset'')"

text \<open>The key is free or holds a value of this type.\<close>

definition of_type :: "adb \<Rightarrow> string \<Rightarrow> string \<Rightarrow> bool" where
  "of_type a k t \<longleftrightarrow> type_name (a k) \<in> {''none'', t}"

text \<open>A string that is there is a number.\<close>

definition numeric :: "adb \<Rightarrow> string \<Rightarrow> bool" where
  "numeric a k = (case astr a k of None \<Rightarrow> True | Some s \<Rightarrow> scan_lld s \<noteq> None)"

text \<open>Positions from the end are negative.\<close>

definition position :: "'a list \<Rightarrow> int \<Rightarrow> nat option" where
  "position xs i = (let i = (if i < 0 then i + int (length xs) else i) in
     if 0 \<le> i \<and> i < int (length xs) then Some (nat i) else None)"

subsection \<open>Strings and keys\<close>

abbreviation status_ok :: "adb \<Rightarrow> (adb \<times> reply) option" where
  "status_ok a \<equiv> Some (a, RStatus ''OK'')"

abbreviation reads :: "adb \<Rightarrow> reply \<Rightarrow> (adb \<times> reply) option" where
  "reads a r \<equiv> Some (a, r)"

definition s_ping :: spec where
  "s_ping e args a = reads a (if length args \<ge> 2 then RBulk (Some (args ! 1)) else RStatus ''PONG'')"

definition s_quit :: spec where
  "s_quit e args a = status_ok a"

fun times_fit :: "env \<Rightarrow> string list \<Rightarrow> bool" where
  "times_fit e (opt # t # rest) =
     (if same_nocase opt ''EX'' then in_i64 (strtoll t * 1000) \<and> in_i64 (now_ms e + strtoll t * 1000) \<and> times_fit e rest
      else if same_nocase opt ''PX'' then in_i64 (now_ms e + strtoll t) \<and> times_fit e rest
      else True)"
| "times_fit e _ = True"

definition s_set :: spec where
  "s_set e args a = (if times_fit e (drop 3 args) then status_ok (a(args ! 1 \<mapsto> AStr (args ! 2))) else None)"

definition s_setnx :: spec where
  "s_setnx e args a = (if args ! 1 \<notin> dom a then Some (a(args ! 1 \<mapsto> AStr (args ! 2)), RInt 1) else None)"

definition s_setex :: spec where
  "s_setex e args a =
     (if in_i64 (arg_i args 2 * 1000) \<and> in_i64 (now_ms e + arg_i args 2 * 1000)
      then status_ok (a(args ! 1 \<mapsto> AStr (args ! 3))) else None)"

definition s_get :: spec where
  "s_get e args a = reads a (RBulk (astr a (args ! 1)))"

definition s_getrange :: spec where
  "s_getrange e args a =
     (if of_type a (args ! 1) ''string''
      then reads a (RBulk (Some (zslice (arg_i args 2) (arg_i args 3) (case astr a (args ! 1) of Some s \<Rightarrow> s | None \<Rightarrow> ''''))))
      else None)"

definition s_append :: spec where
  "s_append e args a =
     (let s = (case astr a (args ! 1) of Some s \<Rightarrow> s | None \<Rightarrow> '''') @ args ! 2 in
      if of_type a (args ! 1) ''string'' then Some (a(args ! 1 \<mapsto> AStr s), RInt (int (length s))) else None)"

definition s_strlen :: spec where
  "s_strlen e args a = (case astr a (args ! 1) of Some s \<Rightarrow> reads a (RInt (int (length s))) | None \<Rightarrow> None)"

definition s_add :: "string \<Rightarrow> int \<Rightarrow> string \<Rightarrow> adb \<Rightarrow> (adb \<times> reply) option" where
  "s_add err d k a = (case anumber a k of
       None \<Rightarrow> Some (a, RErr err)
     | Some v \<Rightarrow> if numeric a k \<and> in_i64 v \<and> in_i64 (v + d) then Some (a(k \<mapsto> AStr (int_dec (v + d))), RInt (v + d)) else None)"

definition s_incr :: spec where
  "s_incr e args a = s_add ''ERR value is not an integer'' 1 (args ! 1) a"

definition s_decr :: spec where
  "s_decr e args a = s_add ''ERR value is not an integer'' (- 1) (args ! 1) a"

definition s_incrby :: spec where
  "s_incrby e args a = s_add ''ERR'' (arg_i args 2) (args ! 1) a"

definition s_decrby :: spec where
  "s_decrby e args a = (if in_i64 (- arg_i args 2) then s_add ''ERR'' (- arg_i args 2) (args ! 1) a else None)"

definition s_del :: spec where
  "s_del e args a = (let ks = set (drop 1 args) in Some (a |` (- ks), RInt (int (card (ks \<inter> dom a)))))"

definition s_exists :: spec where
  "s_exists e args a = reads a (RInt (int (length (filter (\<lambda>k. k \<in> dom a) (drop 1 args)))))"

definition s_type :: spec where
  "s_type e args a = reads a (RStatus (type_name (a (args ! 1))))"

definition s_keys :: spec where
  "s_keys e args a = reads a (RArray {ks. distinct ks \<and> set ks = dom a})"

definition s_expire :: spec where
  "s_expire e args a =
     (if in_i64 (arg_i args 2 * 1000) \<and> in_i64 (now_ms e + arg_i args 2 * 1000)
      then reads a (RInt (if args ! 1 \<in> dom a then 1 else 0)) else None)"

definition s_persist :: spec where
  "s_persist e args a = reads a (RInt (if args ! 1 \<in> dom a then 1 else 0))"

subsection \<open>Lists\<close>

definition s_lpush :: spec where
  "s_lpush e args a = (let xs = rev (drop 2 args) @ alist a (args ! 1) in
     if of_type a (args ! 1) ''list'' then Some (a(args ! 1 \<mapsto> AList xs), RInt (int (length xs))) else None)"

definition s_rpush :: spec where
  "s_rpush e args a = (let xs = alist a (args ! 1) @ drop 2 args in
     if of_type a (args ! 1) ''list'' then Some (a(args ! 1 \<mapsto> AList xs), RInt (int (length xs))) else None)"

definition s_lpop :: spec where
  "s_lpop e args a = (let xs = alist a (args ! 1) in
     Some (put_list a (args ! 1) (tl xs), RBulk (if xs = [] then None else Some (hd xs))))"

definition s_rpop :: spec where
  "s_rpop e args a = (let xs = alist a (args ! 1) in
     Some (put_list a (args ! 1) (butlast xs), RBulk (if xs = [] then None else Some (last xs))))"

definition s_llen :: spec where
  "s_llen e args a = reads a (RInt (int (length (alist a (args ! 1)))))"

definition s_lindex :: spec where
  "s_lindex e args a = (let xs = alist a (args ! 1) in reads a (RBulk (map_option ((!) xs) (position xs (arg_i args 2)))))"

definition s_lset :: spec where
  "s_lset e args a = (let xs = alist a (args ! 1) in
     case position xs (arg_i args 2) of
       Some i \<Rightarrow> status_ok (a(args ! 1 \<mapsto> AList (xs[i := args ! 3])))
     | None \<Rightarrow> reads a (RErr ''ERR index out of range''))"

definition s_lrem :: spec where
  "s_lrem e args a = (let xs = alist a (args ! 1); c = arg_i args 2; v = args ! 3 in
     Some (put_list a (args ! 1) (rem_list c v xs), RInt (rem_count c v xs)))"

definition s_rpoplpush :: spec where
  "s_rpoplpush e args a = (let src = args ! 1; dst = args ! 2; xs = alist a src in
     if xs = [] then reads a (RBulk None)
     else let a' = a(src \<mapsto> AList (butlast xs)) in
       if of_type a dst ''list'' then Some (a'(dst \<mapsto> AList (last xs # alist a' dst)), RBulk (Some (last xs))) else None)"

subsection \<open>Sets and hashes\<close>

definition s_sadd :: spec where
  "s_sadd e args a = (let s = aset a (args ! 1); ms = set (drop 2 args) in
     if of_type a (args ! 1) ''set'' then Some (a(args ! 1 \<mapsto> ASet (s \<union> ms)), RInt (int (card (ms - s)))) else None)"

definition s_srem :: spec where
  "s_srem e args a = (let ms = set (drop 2 args) in
     case a (args ! 1) of
       Some (ASet s) \<Rightarrow> Some (a(args ! 1 \<mapsto> ASet (s - ms)), RInt (int (card (ms \<inter> s))))
     | _ \<Rightarrow> reads a (RInt 0))"

definition s_sismember :: spec where
  "s_sismember e args a = reads a (RInt (if args ! 2 \<in> aset a (args ! 1) then 1 else 0))"

definition s_scard :: spec where
  "s_scard e args a = reads a (RInt (int (card (aset a (args ! 1)))))"

definition s_smembers :: spec where
  "s_smembers e args a = reads a (RArray {xs. distinct xs \<and> set xs = aset a (args ! 1)})"

definition s_hset :: spec where
  "s_hset e args a = (let h = ahash a (args ! 1) in
     if of_type a (args ! 1) ''hash''
     then Some (a(args ! 1 \<mapsto> AHash (h(args ! 2 \<mapsto> Some (args ! 3)))), RInt (if args ! 2 \<in> dom h then 0 else 1)) else None)"

definition s_hget :: spec where
  "s_hget e args a = reads a (RBulk (Option.bind (ahash a (args ! 1) (args ! 2)) id))"

definition s_hdel :: spec where
  "s_hdel e args a = (let fs = set (drop 2 args) in
     case a (args ! 1) of
       Some (AHash h) \<Rightarrow> Some (a(args ! 1 \<mapsto> AHash (h |` (- fs))), RInt (int (card (fs \<inter> dom h))))
     | _ \<Rightarrow> reads a (RInt 0))"

definition s_hexists :: spec where
  "s_hexists e args a = reads a (RInt (if args ! 2 \<in> dom (ahash a (args ! 1)) then 1 else 0))"

definition s_hlen :: spec where
  "s_hlen e args a = reads a (RInt (int (card (dom (ahash a (args ! 1))))))"

text \<open>The listings of the fields of a hash.\<close>

definition field_orders :: "(string \<rightharpoonup> string option) \<Rightarrow> string list set" where
  "field_orders h = {fs. distinct fs \<and> set fs = dom h}"

definition s_hkeys :: spec where
  "s_hkeys e args a = reads a (RArray (field_orders (ahash a (args ! 1))))"

definition s_hvals :: spec where
  "s_hvals e args a = (let h = ahash a (args ! 1) in reads a (RArray (map (field_val h) ` field_orders h)))"

definition s_hgetall :: spec where
  "s_hgetall e args a = (let h = ahash a (args ! 1) in
     reads a (RArray ((\<lambda>fs. concat (map (\<lambda>f. [f, field_val h f]) fs)) ` field_orders h)))"

subsection \<open>Sorted sets\<close>

fun score_pairs :: "env \<Rightarrow> string list \<Rightarrow> zentry list" where
  "score_pairs e (s # m # rest) = (e_strtod e s, m) # score_pairs e rest"
| "score_pairs e _ = []"

definition s_zadd :: spec where
  "s_zadd e args a = (let es = azset a (args ! 1); ps = score_pairs e (drop 2 args) in
     if of_type a (args ! 1) ''zset'' \<and> length ps = 1 \<and> snd (hd ps) \<notin> snd ` set es \<and> zsorted es \<and> \<not> dbl_nan (fst (hd ps))
     then Some (a(args ! 1 \<mapsto> AZset (zins (hd ps) es)), RInt 1) else None)"

definition s_zscore :: spec where
  "s_zscore e args a = reads a (RBulk (map_option (\<lambda>p. snprintf_cut 32 (e_fmt_g e (fst p))) (find (\<lambda>p. snd p = args ! 2) (azset a (args ! 1)))))"

definition s_zcard :: spec where
  "s_zcard e args a = reads a (RInt (int (length (azset a (args ! 1)))))"

definition s_zrank :: spec where
  "s_zrank e args a = (let es = azset a (args ! 1) in
     if zsorted es
     then reads a (RInt (case find (\<lambda>i. snd (es ! i) = args ! 2) [0..<length es] of None \<Rightarrow> -1 | Some i \<Rightarrow> int i))
     else None)"

definition s_zrevrank :: spec where
  "s_zrevrank e args a = (let es = azset a (args ! 1) in
     if zsorted es
     then reads a (RInt (case find (\<lambda>x. snd x = args ! 2) es of None \<Rightarrow> -1 | Some x \<Rightarrow> int (length (filter (zless x) es))))
     else None)"

definition s_zrange :: spec where
  "s_zrange e args a = reads a (RArray {zslice (arg_i args 2) (arg_i args 3) (map snd (azset a (args ! 1)))})"

definition s_zrevrange :: spec where
  "s_zrevrange e args a = reads a (RArray {zslice (arg_i args 2) (arg_i args 3) (rev (map snd (azset a (args ! 1))))})"

subsection \<open>Commands\<close>

definition s_none :: spec where
  "s_none e args a = None"

definition spec_table :: "(string \<times> nat \<times> spec) list" where
  "spec_table =
     [(''PING'', 1, s_ping), (''QUIT'', 1, s_quit),
      (''SET'', 3, s_set), (''SETNX'', 3, s_setnx), (''SETEX'', 4, s_setex), (''GET'', 2, s_get),
      (''GETRANGE'', 4, s_getrange), (''APPEND'', 3, s_append), (''STRLEN'', 2, s_strlen),
      (''INCR'', 2, s_incr), (''DECR'', 2, s_decr), (''INCRBY'', 3, s_incrby), (''DECRBY'', 3, s_decrby),
      (''DEL'', 2, s_del), (''EXISTS'', 2, s_exists), (''TYPE'', 2, s_type), (''KEYS'', 1, s_keys), (''SAVE'', 1, s_none),
      (''TTL'', 2, s_none), (''PTTL'', 2, s_none), (''EXPIRE'', 3, s_expire), (''PERSIST'', 2, s_persist),
      (''LPUSH'', 3, s_lpush), (''RPUSH'', 3, s_rpush), (''LPOP'', 2, s_lpop), (''RPOP'', 2, s_rpop),
      (''LLEN'', 2, s_llen), (''LINDEX'', 3, s_lindex), (''LSET'', 4, s_lset), (''LREM'', 4, s_lrem),
      (''RPOPLPUSH'', 3, s_rpoplpush),
      (''SADD'', 3, s_sadd), (''SREM'', 3, s_srem), (''SISMEMBER'', 3, s_sismember), (''SCARD'', 2, s_scard),
      (''SMEMBERS'', 2, s_smembers),
      (''HSET'', 4, s_hset), (''HGET'', 3, s_hget), (''HDEL'', 3, s_hdel), (''HEXISTS'', 3, s_hexists),
      (''HLEN'', 2, s_hlen), (''HKEYS'', 2, s_hkeys), (''HVALS'', 2, s_hvals), (''HGETALL'', 2, s_hgetall),
      (''ZADD'', 4, s_zadd), (''ZREM'', 3, s_none), (''ZSCORE'', 3, s_zscore), (''ZCARD'', 2, s_zcard),
      (''ZRANK'', 3, s_zrank), (''ZREVRANK'', 3, s_zrevrank), (''ZRANGE'', 4, s_zrange), (''ZREVRANGE'', 4, s_zrevrange),
      (''PUBLISH'', 3, s_none)]"

text \<open>A command is named in any case and needs its arguments; a name with too few is unknown.\<close>

definition command_spec :: spec where
  "command_spec e args a =
     (case find (\<lambda>(name, least, f). same_nocase (hd args) name \<and> least \<le> length args) spec_table of
        Some (_, _, f) \<Rightarrow> f e args a
      | None \<Rightarrow> reads a (RErr ''ERR unknown command''))"

text \<open>A line without words is ignored.\<close>

definition line_spec :: "env \<Rightarrow> string \<Rightarrow> adb \<Rightarrow> (adb \<times> reply list) option" where
  "line_spec e line a = (case parse_line line MAX_ARGS of
       [] \<Rightarrow> Some (a, [])
     | args \<Rightarrow> map_option (\<lambda>(a, r). (a, [r])) (command_spec e args a))"

text \<open>A session: the lines of one client, with the environment of each.\<close>

fun session_spec :: "(env \<times> string) list \<Rightarrow> adb \<Rightarrow> (adb \<times> reply list) option" where
  "session_spec [] a = Some (a, [])"
| "session_spec ((e, line) # ls) a =
     Option.bind (line_spec e line a) (\<lambda>(a, r). map_option (\<lambda>(a, rs). (a, r @ rs)) (session_spec ls a))"

end
