(* ===== verification/Server_Loop.thy ===== *)
theory Server_Loop
  imports Server_Commands
begin

text \<open>
  A client connection (\<open>handle_client_unlocked\<close> of \<open>src/src/server/server.c\<close>) and the expiry
  thread. The handler reads lines; each is first split in a copy of its first 63 bytes, which
  decides on \<open>SUBSCRIBE\<close>, \<open>UNSUBSCRIBE\<close> and \<open>QUIT\<close>, and else goes to the command interpreter. The
  steps of other connections fall between two lines; \<open>es i\<close> is the environment of the \<open>i\<close>-th line.
\<close>

definition BUFFER_SIZE :: nat where
  "BUFFER_SIZE = 4096"

record client =
  cl_sv :: server
  cl_sub :: bool
  cl_lines :: nat
  cl_out :: sends

definition sub_ack :: "string \<Rightarrow> string \<Rightarrow> int \<Rightarrow> string" where
  "sub_ack kind ch ns = ''*3'' @ CRLF @ resp_bulk kind @ resp_bulk ch @ '':'' @ int_dec ns @ CRLF"

fun subscribe_loop :: "int \<Rightarrow> string list \<Rightarrow> pubsub_mgr \<Rightarrow> (pubsub_mgr \<times> sends) res" where
  "subscribe_loop fd [] ps = Inr (ps, [])"
| "subscribe_loop fd (ch # chs) ps =
     (let (_, ps) = pubsub_subscribe ps fd (Some (nat fd)) ch in
      bindr (snprintf_bytes 512 (sub_ack ''subscribe'' ch (pubsub_numsub ps ch))) (\<lambda>b.
      bindr (subscribe_loop fd chs ps) (\<lambda>(ps, out). Inr (ps, (fd, b) # out))))"

fun unsubscribe_loop :: "int \<Rightarrow> string list \<Rightarrow> pubsub_mgr \<Rightarrow> (pubsub_mgr \<times> sends) res" where
  "unsubscribe_loop fd [] ps = Inr (ps, [])"
| "unsubscribe_loop fd (ch # chs) ps =
     (let ps = pubsub_unsubscribe ps fd ch in
      bindr (snprintf_bytes 512 (sub_ack ''unsubscribe'' ch (pubsub_numsub ps ch))) (\<lambda>b.
      bindr (unsubscribe_loop fd chs ps) (\<lambda>(ps, out). Inr (ps, (fd, b) # out))))"

definition unsubscribed_all :: string where
  "unsubscribed_all = ''*3'' @ CRLF @ ''$11'' @ CRLF @ ''unsubscribe'' @ CRLF @ ''$0'' @ CRLF @ CRLF @ '':0'' @ CRLF"

text \<open>What a line changes in the connection: the server, the mode and the bytes sent.\<close>

definition upd :: "client \<Rightarrow> server \<Rightarrow> bool \<Rightarrow> sends \<Rightarrow> client" where
  "upd c sv sub out = c\<lparr>cl_sv := sv, cl_sub := sub, cl_lines := Suc (cl_lines c), cl_out := cl_out c @ out\<rparr>"

definition client_line :: "(nat \<Rightarrow> env) \<Rightarrow> int \<Rightarrow> client line_handler" where
  "client_line es fd line c =
     (let sv = cl_sv c; sub = cl_sub c; qa = parse_line (take (MAX_ARGS - 1) line) MAX_ARGS in
      case qa of
        [] \<Rightarrow> Inr (upd c sv sub [], False)
      | q # chs \<Rightarrow>
          if same_nocase q ''SUBSCRIBE'' \<and> chs \<noteq> []
          then bindr (subscribe_loop fd chs (sv_ps sv)) (\<lambda>(ps, out).
               Inr (upd c (sv\<lparr>sv_ps := ps\<rparr>) True out, False))
          else if same_nocase q ''UNSUBSCRIBE''
          then (if chs = []
                then Inr (upd c (sv\<lparr>sv_ps := pubsub_unsubscribe_all (sv_ps sv) fd\<rparr>) sub [(fd, unsubscribed_all)], False)
                else bindr (unsubscribe_loop fd chs (sv_ps sv)) (\<lambda>(ps, out).
                     Inr (upd c (sv\<lparr>sv_ps := ps\<rparr>) sub out, False)))
          else if sub then Inr (upd c sv sub [], False)
          else if same_nocase q ''QUIT'' then Inr (upd c sv sub [(fd, ''+OK'' @ CRLF)], True)
          else bindr (process_command (es (cl_lines c)) fd sv line) (\<lambda>(sv, out).
               Inr (upd c sv sub out, False)))"

definition handle_client_unlocked :: "(nat \<Rightarrow> env) \<Rightarrow> int \<Rightarrow> (nat \<Rightarrow> nat) \<Rightarrow> string \<Rightarrow> server \<Rightarrow> (server \<times> sends) res" where
  "handle_client_unlocked es fd pieces stream sv =
     bindr (read_loop (BUFFER_SIZE * 4) BUFFER_SIZE (client_line es fd) pieces 0 stream []
              \<lparr>cl_sv = sv, cl_sub = False, cl_lines = 0, cl_out = []\<rparr>) (\<lambda>c.
     let sv = cl_sv c in
     Inr (sv\<lparr>sv_ps := pubsub_unsubscribe_all (sv_ps sv) fd\<rparr>, cl_out c))"

text \<open>One turn of the expiry thread, with the random numbers \<open>rs\<close>.\<close>

definition expire_turn :: "(nat \<Rightarrow> nat) \<Rightarrow> env \<Rightarrow> server \<Rightarrow> server res" where
  "expire_turn rs e sv = bindr (kv_active_expire rs (sv_db sv) 20 (now_ms e)) (\<lambda>(_, db). Inr (sv\<lparr>sv_db := db\<rparr>))"

end
