(* ===== verification/Server_Safety.thy ===== *)
theory Server_Safety
  imports Server_Loop
begin

text \<open>
  What no command line can break: the well-formedness of the store and of the channels. A command
  either returns a well-formed state or fails with a signed overflow (of a counter or an expiry
  time), with a reply that is longer than its buffer or, on a node of a cluster whose replication
  queue is full of messages that were freed already, by freeing one of them again. It never follows
  a null pointer, never reads an unset variable and always returns, as long as the store
  can grow when it has to.
\<close>

text \<open>The faults that are left; the last one only where \<open>uaf\<close> allows it.\<close>

definition tolerated :: "bool \<Rightarrow> fault \<Rightarrow> bool" where
  "tolerated uaf f \<longleftrightarrow> f = SignedOverflow \<or> f = OverRead \<or> uaf \<and> f = UseAfterFree"

definition safe :: "bool \<Rightarrow> ('a \<Rightarrow> bool) \<Rightarrow> 'a res \<Rightarrow> bool" where
  "safe uaf P m = (case m of Inl f \<Rightarrow> tolerated uaf f | Inr x \<Rightarrow> P x)"

text \<open>The message that \<open>repl_enqueue\<close> overwrites when the queue is full has not been freed.\<close>

definition queue_ok :: "server \<Rightarrow> bool" where
  "queue_ok sv = (case sv_cs sv of None \<Rightarrow> True
     | Some cs \<Rightarrow> (let r = c_ring cs in (rr_head r + 1) mod rr_cap r = rr_tail r \<longrightarrow> rr_buf r ! (rr_tail r mod rr_cap r) \<noteq> RFreed))"

definition sv_inv :: "server \<Rightarrow> bool" where
  "sv_inv sv \<longleftrightarrow> kv_inv (sv_db sv) \<and> ps_inv (sv_ps sv)"

text \<open>
  What a command of connection \<open>fd\<close> leaves: a well-formed state with the same channels, after it sent
  bytes to that connection and to subscribers only. And the states it may start from.
\<close>

definition all_fds :: "pubsub_mgr \<Rightarrow> int set" where
  "all_fds ps = (\<Union>c \<in> set ps. cs_fd ` set (ch_subs c))"

abbreviation leaves :: "int \<Rightarrow> server \<Rightarrow> server \<times> sends \<Rightarrow> bool" where
  "leaves fd sv p \<equiv> sv_inv (fst p) \<and> sv_ps (fst p) = sv_ps sv \<and> fst ` set (snd p) \<subseteq> insert fd (all_fds (sv_ps sv))"

definition ready :: "env \<Rightarrow> server \<Rightarrow> bool" where
  "ready e sv \<longleftrightarrow> sv_inv sv \<and> can_grow (e_mem e) (sv_db sv)"

subsection \<open>Rules\<close>

lemma safe_simps [simp]:
  "safe uaf P (Inr x) = P x" "safe uaf P (Inl f) = tolerated uaf f" "tolerated uaf SignedOverflow" "tolerated uaf OverRead" "tolerated uaf UseAfterFree = uaf"
  by (simp_all add: safe_def tolerated_def)

lemma safe_bindr: "safe uaf P m \<Longrightarrow> (\<And>x. P x \<Longrightarrow> safe uaf Q (f x)) \<Longrightarrow> safe uaf Q (bindr m f)"
  by (cases m) auto

lemma safe_mono: "safe uaf P m \<Longrightarrow> (\<And>x. P x \<Longrightarrow> Q x) \<Longrightarrow> safe uaf Q m"
  by (cases m) auto

lemma safe_Inr: "\<exists>y. m = Inr y \<and> P y \<Longrightarrow> safe uaf P m"
  by auto

lemma safe_i64: "(in_i64 x \<Longrightarrow> P x) \<Longrightarrow> safe uaf P (i64 x)"
  by (simp add: i64_def)

lemma sv_inv_db [simp]: "sv_inv (sv\<lparr>sv_db := db\<rparr>) \<longleftrightarrow> kv_inv db \<and> ps_inv (sv_ps sv)"
  and sv_inv_fs [simp]: "sv_inv (sv\<lparr>sv_fs := fs\<rparr>) \<longleftrightarrow> sv_inv sv"
  and sv_inv_cs [simp]: "sv_inv (sv\<lparr>sv_cs := cs\<rparr>) \<longleftrightarrow> sv_inv sv"
  by (simp_all add: sv_inv_def)

lemma queue_ok_db [simp]: "queue_ok (sv\<lparr>sv_db := db\<rparr>) = queue_ok sv"
  by (simp add: queue_ok_def)

lemma readyD: "ready e sv \<Longrightarrow> sv_inv sv \<and> kv_inv (sv_db sv) \<and> ps_inv (sv_ps sv) \<and> can_grow (e_mem e) (sv_db sv)"
  by (simp add: ready_def sv_inv_def)

lemma safe_answer: "sv_inv sv \<Longrightarrow> sv_ps sv = sv_ps sv0 \<Longrightarrow> safe uaf (leaves fd sv0) (answer fd sv b)"
  by (simp add: answer_def)

lemma safe_bulk: "safe uaf (\<lambda>_. True) (send_bulk s)"
  by (simp add: send_bulk_def snprintf_bytes_def split: option.split)

lemma safe_answer_bulk: "sv_inv sv \<Longrightarrow> sv_ps sv = sv_ps sv0 \<Longrightarrow> safe uaf (leaves fd sv0) (answer_bulk fd sv s)"
  unfolding answer_bulk_def by (rule safe_bindr [OF safe_bulk]) (rule safe_answer)

lemma safe_bulk_loop: "safe uaf (\<lambda>_. True) (bulk_loop ss)"
  by (induction ss) (auto intro!: safe_bindr [OF safe_bulk] intro: safe_bindr)

lemma safe_answer_array: "sv_inv sv \<Longrightarrow> sv_ps sv = sv_ps sv0 \<Longrightarrow> safe uaf (leaves fd sv0) (answer_array fd sv ss)"
  unfolding answer_array_def send_array_def
  by (rule safe_bindr [OF safe_bindr [OF safe_bulk_loop, where Q = "\<lambda>_. True"]]) (simp_all add: safe_answer)

lemma safe_answer_list: "sv_inv sv \<Longrightarrow> sv_ps sv = sv_ps sv0 \<Longrightarrow> safe uaf (leaves fd sv0) (answer_list fd sv p)"
  by (auto simp: answer_list_def split: prod.split intro: safe_answer safe_answer_array)

lemmas safe_replies [simp] = safe_answer safe_answer_bulk safe_answer_array safe_answer_list

text \<open>An operation on the store followed by a reply.\<close>

abbreviation keeps :: "'a \<times> kv_table \<Rightarrow> bool" where
  "keeps p \<equiv> kv_inv (snd p)"

subsection \<open>Operations on the store\<close>

lemma kv_set_safe: "kv_inv db \<Longrightarrow> safe uaf keeps (kv_set mem now db k s)"
  using kv_set_ok [of db mem now k s] by (intro safe_Inr) auto

lemma kv_setnx_safe: "kv_inv db \<Longrightarrow> safe uaf keeps (kv_setnx mem now db k s)"
  by (simp add: kv_setnx_def kv_set_safe)

lemma kv_set_ttl_keeps: "kv_inv db \<Longrightarrow> kv_inv (snd (kv_set_ttl db k ttl))"
  using kv_set_ttl_ok [of db k ttl] by auto

lemma kv_setex_safe: "kv_inv db \<Longrightarrow> safe uaf keeps (kv_setex mem now nowms db k s ms)"
  unfolding kv_setex_def
  by (rule safe_bindr [OF kv_set_safe]) (auto simp: kv_set_ttl_keeps intro!: safe_bindr [OF safe_i64 [where P = "\<lambda>_. True"]])

lemma kv_expire_safe: "kv_inv db \<Longrightarrow> safe uaf keeps (kv_expire now db k ms)"
  by (auto simp: kv_expire_def kv_set_ttl_keeps intro!: safe_bindr [OF safe_i64 [where P = "\<lambda>_. True"]])

lemma kv_persist_keeps: "kv_inv db \<Longrightarrow> kv_inv (snd (kv_persist db k))"
  by (simp add: kv_persist_def kv_set_ttl_keeps)

lemma kv_del_safe: "kv_inv db \<Longrightarrow> safe uaf keeps (kv_del db k)"
  using kv_del_ok [of db k] by (intro safe_Inr) auto

lemma kv_getrange_safe: "kv_inv db \<Longrightarrow> safe uaf (\<lambda>_. True) (kv_getrange db k a b)"
  by (simp add: kv_getrange_ok)

lemma kv_append_safe: "kv_inv db \<Longrightarrow> can_grow mem db \<Longrightarrow> safe uaf keeps (kv_append mem now db k t)"
  using kv_append_ok [of db mem now k t] by (intro safe_Inr) auto

text \<open>A counter: the key holds a number, or the addition overflows, or it is no string.\<close>

lemma incr_slot_safe:
  assumes "kv_inv db" "kv_find db k = Some (idx, obj)"
  shows "safe uaf keeps (incr_slot idx delta db)"
proof -
  note f = kv_find_Some [OF assms]
  have "kv_inv (put_obj idx (obj\<lparr>o_val := OBJ_STRING s\<rparr>) db)" for s
    by (rule put_obj_ok(1) [OF assms]) (simp add: obj_inv_def)
  with f(3) assms(1) show ?thesis
    by (auto simp: incr_slot_def split: obj_val.split option.split
        intro!: safe_bindr [OF safe_i64 [where P = "\<lambda>_. True"]])
qed

lemma kv_incrby_safe:
  assumes "kv_inv db" "can_grow mem db"
  shows "safe uaf keeps (kv_incrby mem now db k delta)"
proof (cases "kv_find db k")
  case (Some io)
  then obtain idx obj where f: "kv_find db k = Some (idx, obj)" by (cases io) auto
  with kv_find_Some(5) [OF assms(1) f] incr_slot_safe [OF assms(1) f] show ?thesis by (simp add: kv_incrby_def)
next
  case None
  let ?v = "t_version db + 1"
  let ?o = "(obj_create_string now ''0'')\<lparr>o_version := ?v\<rparr>" and ?db = "snd (kv_next_version db)"
  have g: "can_grow mem ?db" using assms(2) by (simp add: kv_next_version_def Let_def)
  have o: "obj_inv ?o" by (simp add: obj_inv_def obj_create_string_def)
  from kv_set_object_abs [OF _ o g, of k] assms(1) obtain d where
    d: "kv_set_object mem ?db k ?o None = Inr (0, d)" "kv_inv d" "kv_map d k = Some ?o" by auto
  obtain idx where i: "kv_find d k = Some (idx, ?o)" using kv_find_map [OF d(2,3)] by blast
  have "\<not> snd (probe (t_entries db) k)"
    using None kv_find_None [OF assms(1), of k] kv_exists_ok [OF assms(1), of k] by (auto simp: kv_exists_def)
  then have "kv_incrby mem now db k delta = incr_slot idx delta d"
    using d(1) kv_find_Some(5) [OF d(2) i] by (auto simp: kv_incrby_def kv_next_version_def Let_def split: prod.splits)
  with incr_slot_safe [OF d(2) i] show ?thesis by simp
qed

lemma kv_decrby_safe: "kv_inv db \<Longrightarrow> can_grow mem db \<Longrightarrow> safe uaf keeps (kv_decrby mem now db k delta)"
  by (auto simp: kv_decrby_def kv_incrby_safe intro!: safe_bindr [OF safe_i64 [where P = "\<lambda>_. True"]])

lemma kv_list_safe:
  assumes "kv_inv db"
  shows "safe uaf keeps (kv_lpop db k)" "safe uaf keeps (kv_rpop db k)" "safe uaf keeps (kv_lset db k i v)" "safe uaf keeps (kv_lrem db k c v)"
    "safe uaf (\<lambda>_. True) (kv_lindex db k i)"
  using kv_lpop_ok [OF assms, of k] kv_rpop_ok [OF assms, of k] kv_lset_ok [OF assms, of k i v] kv_lrem_ok [OF assms, of k c v]
    kv_lindex_ok [OF assms, of k i] by auto

lemma kv_lpoprpush_safe:
  assumes "kv_inv db" "can_grow mem db"
  shows "safe uaf keeps (kv_lpoprpush mem db src dst)"
proof -
  obtain v d where d: "kv_rpop db src = Inr (v, d)" "kv_inv d" using kv_rpop_ok [OF assms(1), of src] by blast
  from kv_rpop_can_grow [OF d(1)] assms(2) have "can_grow mem d" by blast
  from kv_lpush_ok [OF d(2) this, of dst "the v"] d show ?thesis by (cases v) (auto simp: kv_lpoprpush_def)
qed

lemma kv_table_safe:
  assumes "kv_inv db"
  shows "can_grow mem db \<Longrightarrow> safe uaf keeps (kv_sadd mem db k ms)" "kv_inv (snd (kv_srem db k ms))" "kv_inv (snd (kv_hdel db k ms))"
    "can_grow mem db \<Longrightarrow> safe uaf (\<lambda>p. keeps p \<and> snd (fst p) \<noteq> None) (kv_hset mem db k f v)"
  using kv_sadd_ok [OF assms, of mem k ms] kv_srem_ok [OF assms, of k ms] kv_hdel_ok [OF assms, of k ms] kv_hset_ok [OF assms, of mem k f v]
  by auto

lemma kv_zset_safe:
  assumes "kv_inv db"
  shows "safe uaf keeps (kv_zrem db k m)" "safe uaf (\<lambda>_. True) (kv_zscore db k m)" "safe uaf (\<lambda>_. True) (kv_zrange db k a b)"
    "safe uaf (\<lambda>_. True) (kv_zrevrange db k a b)"
  using kv_zrem_ok [OF assms, of k m] kv_zscore_ok [OF assms, of k m] kv_zrange_ok [OF assms, of k a b] by auto

lemma kv_ranks_safe:
  assumes "kv_inv db"
  shows "safe uaf (\<lambda>_. True) (kv_zrank db k m)" "safe uaf (\<lambda>_. True) (kv_zrevrank db k m)"
  using assms
proof (atomize (full), cases rule: zset_cases [of db k])
  case none
  then show "safe uaf (\<lambda>_. True) (kv_zrank db k m) \<and> safe uaf (\<lambda>_. True) (kv_zrevrank db k m)" by (simp add: kv_zrank_def kv_zrevrank_def)
next
  case (some idx obj z)
  then show "safe uaf (\<lambda>_. True) (kv_zrank db k m) \<and> safe uaf (\<lambda>_. True) (kv_zrevrank db k m)"
    by (auto simp: kv_zrank_def kv_zrevrank_def zfind_ok kv_zscore_ok [OF assms] zsl_rank_ok zsl_revrank_ok split: option.split)
qed

subsection \<open>Loops of the interpreter\<close>

lemma ttl_loop_safe: "kv_inv db \<Longrightarrow> safe uaf kv_inv (ttl_loop e k opts db)"
  by (induction e k opts db rule: ttl_loop.induct)
    (auto simp: kv_set_ttl_keeps intro!: safe_bindr [OF safe_i64 [where P = "\<lambda>_. True"]])

lemma replicate_write_safe: "sv_inv sv \<Longrightarrow> uaf \<or> queue_ok sv \<Longrightarrow> safe uaf (\<lambda>s. sv_inv s \<and> sv_ps s = sv_ps sv) (replicate_write k v sv)"
  by (auto simp: replicate_write_def cluster_replicate_set_def cluster_build_msg_def repl_enqueue_def free_item_def queue_ok_def Let_def
      split: option.split repl_item.split)

lemma del_loop_safe: "kv_inv db \<Longrightarrow> safe uaf keeps (del_loop ks db ok)"
  by (induction ks db ok rule: del_loop.induct) (auto intro!: safe_bindr [OF kv_del_safe])

lemma zrem_loop_safe: "kv_inv db \<Longrightarrow> safe uaf keeps (zrem_loop k ms db r)"
  by (induction k ms db r rule: zrem_loop.induct) (auto intro!: safe_bindr [OF kv_zset_safe(1)])

text \<open>A push on a list that is there needs no memory for the table.\<close>

lemma push_present:
  assumes inv: "kv_inv db" "has_list db k"
    and push: "\<And>l. dlist_inv l \<Longrightarrow> \<exists>l'. push l = Inr l' \<and> dlist_inv l' \<and> dlist_list l' = g (dlist_list l)"
  shows "\<exists>db'. bindr (kv_ensure_list mem db k) (\<lambda>(p, db). case p of
       None \<Rightarrow> Inr ((-1, None), db)
     | Some (idx, obj, l) \<Rightarrow> bindr (push l) (\<lambda>l. Inr ((0, Some (dl_len l)), put_val idx obj (OBJ_LIST l) db)))
     = Inr ((0, Some (length (g (list_at db k)))), db') \<and> kv_inv db' \<and> kv_abs db' = (kv_abs db)(k \<mapsto> AList (g (list_at db k)))"
proof -
  obtain idx obj where f: "kv_find db k = Some (idx, obj)" using inv kv_find_abs(1) [OF inv(1), of k] by (cases "kv_find db k") (auto simp: has_list_def)
  with inv kv_find_abs(2) [OF inv(1) f] obtain l where v: "o_val obj = OBJ_LIST l" by (cases "o_val obj") (auto simp: has_list_def)
  then have w: "wr_obj db k as_list = Some (idx, obj, l)" using f by (simp add: wr_obj_def)
  have l: "dlist_inv l" using kv_find_Some(4) [OF inv(1) f] v by (simp add: obj_inv_def)
  have at: "list_at db k = dlist_list l" using wr_obj_at(1) [OF inv(1), of k] w by simp
  from push [OF l] obtain l' where l': "push l = Inr l'" "dlist_inv l'" "dlist_list l' = g (list_at db k)" using at by auto
  have "obj_inv (obj\<lparr>o_val := OBJ_LIST l'\<rparr>)" using l'(2) by simp
  from put_val_ok [OF inv(1) f this] l' w dlist_len_ok [OF l'(2)] show ?thesis
    by (simp add: kv_ensure_list_def del: bindr_eq_Inr fun_upd_apply)
qed

text \<open>
  A loop of pushes: the first one may create the list, the others find it; each changes the list by
  \<open>g\<close>.
\<close>

lemma push_loop_present:
  assumes push: "\<And>db v. kv_inv db \<Longrightarrow> has_list db k \<Longrightarrow> \<exists>db'. push db v = Inr ((0, Some (length (g v (list_at db k)))), db') \<and>
      kv_inv db' \<and> kv_abs db' = (kv_abs db)(k \<mapsto> AList (g v (list_at db k)))"
    and "kv_inv db" "has_list db k" "len = Some (length (list_at db k))"
  shows "\<exists>db'. push_loop push vs db len = Inr (Some (length (fold g vs (list_at db k))), db') \<and> kv_inv db' \<and>
    kv_abs db' = (kv_abs db)(k \<mapsto> AList (fold g vs (list_at db k)))"
  using assms(2-)
proof (induction vs arbitrary: db len)
  case Nil
  then show ?case by (auto simp: has_list_def list_at_def fun_upd_idem)
next
  case (Cons v vs)
  from push [OF Cons.prems(1,2), of v] obtain d where
    d: "push db v = Inr ((0, Some (length (g v (list_at db k)))), d)" "kv_inv d" "kv_abs d = (kv_abs db)(k \<mapsto> AList (g v (list_at db k)))"
    by blast
  have l: "has_list d k" "list_at d k = g v (list_at db k)" using d(3) by (simp_all add: has_list_def list_at_def)
  from Cons.IH [OF d(2) l(1) refl] d l show ?case by (auto simp del: fun_upd_apply)
qed

lemma push_loop_ok:
  assumes "kv_inv db" "can_grow mem db" "vs \<noteq> []"
    and first: "\<And>v. \<exists>db'. push db v = Inr ((0, Some (length (g v (list_at db k)))), db') \<and> kv_inv db' \<and>
      kv_abs db' = (kept mem db k)(k \<mapsto> AList (g v (list_at db k)))"
    and later: "\<And>db v. kv_inv db \<Longrightarrow> has_list db k \<Longrightarrow> \<exists>db'. push db v = Inr ((0, Some (length (g v (list_at db k)))), db') \<and>
      kv_inv db' \<and> kv_abs db' = (kv_abs db)(k \<mapsto> AList (g v (list_at db k)))"
  shows "\<exists>db'. push_loop push vs db None = Inr (Some (length (fold g vs (list_at db k))), db') \<and> kv_inv db' \<and>
    kv_abs db' = (kept mem db k)(k \<mapsto> AList (fold g vs (list_at db k)))"
proof -
  obtain v ws where vs: "vs = v # ws" using assms(3) by (cases vs) auto
  from first [of v] obtain d where
    d: "push db v = Inr ((0, Some (length (g v (list_at db k)))), d)" "kv_inv d" "kv_abs d = (kept mem db k)(k \<mapsto> AList (g v (list_at db k)))"
    by blast
  have l: "has_list d k" "list_at d k = g v (list_at db k)" using d(3) by (simp_all add: has_list_def list_at_def)
  from push_loop_present [of k push g, OF later d(2) l(1) refl, of ws] d l vs show ?thesis by (auto simp del: fun_upd_apply)
qed

lemma fold_Cons_rev: "fold (\<lambda>v xs. v # xs) vs xs = rev vs @ xs"
  by (induction vs arbitrary: xs) simp_all

lemma fold_snoc: "fold (\<lambda>v xs. xs @ [v]) vs xs = xs @ vs"
  by (induction vs arbitrary: xs) simp_all

lemma push_loops:
  assumes "kv_inv db" "can_grow mem db" "vs \<noteq> []"
  shows "\<exists>db'. push_loop (\<lambda>db v. kv_lpush mem db k v) vs db None = Inr (Some (length vs + length (list_at db k)), db') \<and> kv_inv db' \<and>
      kv_abs db' = (kept mem db k)(k \<mapsto> AList (rev vs @ list_at db k))"
    "\<exists>db'. push_loop (\<lambda>db v. kv_rpush mem db k v) vs db None = Inr (Some (length vs + length (list_at db k)), db') \<and> kv_inv db' \<and>
      kv_abs db' = (kept mem db k)(k \<mapsto> AList (list_at db k @ vs))"
proof -
  have l: "\<exists>db'. kv_lpush mem db k v = Inr ((0, Some (length (v # list_at db k))), db') \<and>
      kv_inv db' \<and> kv_abs db' = (kv_abs db)(k \<mapsto> AList (v # list_at db k))" if "kv_inv db" "has_list db k" for db v
    unfolding kv_lpush_def
    by (rule push_present [where push = "\<lambda>l. dlist_push_left l v" and g = "\<lambda>xs. v # xs", OF that]) (rule dlist_push_left_ok)
  have r: "\<exists>db'. kv_rpush mem db k v = Inr ((0, Some (length (list_at db k @ [v]))), db') \<and>
      kv_inv db' \<and> kv_abs db' = (kv_abs db)(k \<mapsto> AList (list_at db k @ [v]))" if "kv_inv db" "has_list db k" for db v
    unfolding kv_rpush_def
    by (rule push_present [where push = "\<lambda>l. dlist_push_right l v" and g = "\<lambda>xs. xs @ [v]", OF that]) (rule dlist_push_right_ok)
  from push_loop_ok [where g = "\<lambda>v xs. v # xs" and push = "\<lambda>db v. kv_lpush mem db k v", OF assms kv_lpush_ok [OF assms(1,2)] l]
  show "\<exists>db'. push_loop (\<lambda>db v. kv_lpush mem db k v) vs db None = Inr (Some (length vs + length (list_at db k)), db') \<and> kv_inv db' \<and>
      kv_abs db' = (kept mem db k)(k \<mapsto> AList (rev vs @ list_at db k))" by (simp add: fold_Cons_rev)
  from push_loop_ok [where g = "\<lambda>v xs. xs @ [v]" and push = "\<lambda>db v. kv_rpush mem db k v", OF assms kv_rpush_ok [OF assms(1,2)] r]
  show "\<exists>db'. push_loop (\<lambda>db v. kv_rpush mem db k v) vs db None = Inr (Some (length vs + length (list_at db k)), db') \<and> kv_inv db' \<and>
      kv_abs db' = (kept mem db k)(k \<mapsto> AList (list_at db k @ vs))" by (simp add: fold_snoc add.commute)
qed

text \<open>The same for \<open>ZADD\<close>.\<close>

lemma kv_zadd_present:
  assumes "kv_inv db" "wr_obj db k as_zset = Some p"
  shows "\<exists>db' q. kv_zadd mem rs db k s m = Inr ((0, Some 1), db') \<and> kv_inv db' \<and> wr_obj db' k as_zset = Some q"
proof -
  obtain idx obj z where p: "p = (idx, obj, z)" by (cases p)
  note w = wr_obj_Some [OF assms(1), of k as_zset, unfolded assms(2) p, OF refl]
  have v: "o_val obj = OBJ_ZSET z" using w(2) by (cases "o_val obj") auto
  have "zsl_inv z" using w(3) v by (simp add: obj_inv_def)
  then obtain x z' where z': "zsl_insert rs z s m = Inr (x, z')" "zsl_inv z'" using zsl_insert_entries [of z rs s m] by blast
  have o: "obj_inv (obj\<lparr>o_val := OBJ_ZSET z'\<rparr>)" using z'(2) by (simp add: obj_inv_def)
  note pv = put_val_ok [OF assms(1) w(1) o]
  have "kv_zadd mem rs db k s m = Inr ((0, Some 1), put_val idx obj (OBJ_ZSET z') db)"
    using assms(2) p v z'(1) by (simp add: kv_zadd_def cast_obj_def)
  moreover have "zset_at (put_val idx obj (OBJ_ZSET z') db) k = zsl_list z' \<and> kv_abs (put_val idx obj (OBJ_ZSET z') db) k = Some (AZset (zsl_list z'))"
    using pv(2) by (simp add: zset_at_def)
  then have "wr_obj (put_val idx obj (OBJ_ZSET z') db) k as_zset \<noteq> None" using pv(1) by (cases rule: zset_cases [OF pv(1), of k]) auto
  ultimately show ?thesis using pv(1) by auto
qed

lemma zadd_loop_present:
  "kv_inv db \<Longrightarrow> wr_obj db k as_zset \<noteq> None \<Longrightarrow> safe uaf keeps (zadd_loop e i k ws db added)"
proof (induction e i k ws db added rule: zadd_loop.induct)
  case (1 e i k s m rest db added)
  from kv_zadd_present [OF "1.prems"(1), of k _ "e_mem e" "e_rand e i" "e_strtod e s" m] "1.prems"(2) obtain d q where
    d: "kv_zadd (e_mem e) (e_rand e i) db k (e_strtod e s) m = Inr ((0, Some 1), d)" "kv_inv d" "wr_obj d k as_zset = Some q" by blast
  have "safe uaf keeps (zadd_loop e (Suc i) k rest d (case a of None \<Rightarrow> added | Some a \<Rightarrow> a))" for a
    using "1.IH" d(2,3) by fastforce
  from this [of "Some 1"] d(1) show ?case by simp
qed auto

lemma zadd_loop_safe:
  assumes "kv_inv db" "can_grow (e_mem e) db"
  shows "safe uaf keeps (zadd_loop e i k ws db added)"
proof (cases "\<exists>s m rest. ws = s # m # rest")
  case True
  then obtain s m rest where ws: "ws = s # m # rest" by blast
  from kv_zadd_safe [OF assms, of "e_rand e i" k "e_strtod e s" m] obtain d es where
    d: "kv_zadd (e_mem e) (e_rand e i) db k (e_strtod e s) m = Inr ((0, Some 1), d)" "kv_inv d" "kv_abs d k = Some (AZset es)" by auto
  have "wr_obj d k as_zset \<noteq> None" using d(3) by (cases rule: zset_cases [OF d(2), of k]) auto
  from zadd_loop_present [OF d(2) this] d(1) ws show ?thesis by simp
next
  case False
  then have "zadd_loop e i k ws db added = Inr (added, db)" by (cases "(e, i, k, ws, db, added)" rule: zadd_loop.cases) auto
  with assms show ?thesis by simp
qed

subsection \<open>Commands\<close>

lemma counter_safe: "ps_inv (sv_ps sv) \<Longrightarrow> safe uaf keeps m \<Longrightarrow> safe uaf (leaves fd sv) (answer_counter fd sv err m)"
  unfolding answer_counter_def by (erule safe_bindr) auto

lemma string_commands_safe:
  assumes "ready e sv" "uaf \<or> queue_ok sv"
  shows "safe uaf (leaves fd sv) (cmd_ping e fd sv args)" "safe uaf (leaves fd sv) (cmd_quit e fd sv args)" "safe uaf (leaves fd sv) (cmd_set e fd sv args)"
    "safe uaf (leaves fd sv) (cmd_setnx e fd sv args)" "safe uaf (leaves fd sv) (cmd_setex e fd sv args)" "safe uaf (leaves fd sv) (cmd_get e fd sv args)"
    "safe uaf (leaves fd sv) (cmd_getrange e fd sv args)" "safe uaf (leaves fd sv) (cmd_append e fd sv args)" "safe uaf (leaves fd sv) (cmd_strlen e fd sv args)"
proof -
  note r = readyD [OF assms(1)] and q = assms(2)
  show "safe uaf (leaves fd sv) (cmd_ping e fd sv args)" "safe uaf (leaves fd sv) (cmd_quit e fd sv args)" "safe uaf (leaves fd sv) (cmd_get e fd sv args)"
    "safe uaf (leaves fd sv) (cmd_strlen e fd sv args)"
    using r by (auto simp: cmd_ping_def cmd_quit_def cmd_get_def cmd_strlen_def)
  show "safe uaf (leaves fd sv) (cmd_set e fd sv args)"
    using r q by (auto simp: cmd_set_def Let_def intro!: safe_bindr [OF kv_set_safe] safe_bindr [OF ttl_loop_safe] safe_bindr [OF replicate_write_safe])
  show "safe uaf (leaves fd sv) (cmd_setnx e fd sv args)"
    using r by (auto simp: cmd_setnx_def intro!: safe_bindr [OF kv_setnx_safe])
  show "safe uaf (leaves fd sv) (cmd_setex e fd sv args)"
    using r by (auto simp: cmd_setex_def intro!: safe_bindr [OF safe_i64 [where P = "\<lambda>_. True"]] safe_bindr [OF kv_setex_safe])
  show "safe uaf (leaves fd sv) (cmd_getrange e fd sv args)"
    using r by (auto simp: cmd_getrange_def intro!: safe_bindr [OF kv_getrange_safe])
  show "safe uaf (leaves fd sv) (cmd_append e fd sv args)"
    using r by (auto simp: cmd_append_def intro!: safe_bindr [OF kv_append_safe])
qed

lemma key_commands_safe:
  assumes "ready e sv"
  shows "safe uaf (leaves fd sv) (cmd_incr e fd sv args)" "safe uaf (leaves fd sv) (cmd_decr e fd sv args)" "safe uaf (leaves fd sv) (cmd_incrby e fd sv args)"
    "safe uaf (leaves fd sv) (cmd_decrby e fd sv args)" "safe uaf (leaves fd sv) (cmd_del e fd sv args)" "safe uaf (leaves fd sv) (cmd_exists e fd sv args)"
    "safe uaf (leaves fd sv) (cmd_type e fd sv args)" "safe uaf (leaves fd sv) (cmd_keys e fd sv args)" "safe uaf (leaves fd sv) (cmd_save e fd sv args)"
    "safe uaf (leaves fd sv) (cmd_ttl e fd sv args)" "safe uaf (leaves fd sv) (cmd_pttl e fd sv args)" "safe uaf (leaves fd sv) (cmd_expire e fd sv args)"
    "safe uaf (leaves fd sv) (cmd_persist e fd sv args)"
proof -
  note r = readyD [OF assms]
  show "safe uaf (leaves fd sv) (cmd_incr e fd sv args)" "safe uaf (leaves fd sv) (cmd_decr e fd sv args)" "safe uaf (leaves fd sv) (cmd_incrby e fd sv args)"
    "safe uaf (leaves fd sv) (cmd_decrby e fd sv args)"
    using r by (auto simp: cmd_incr_def cmd_decr_def cmd_incrby_def cmd_decrby_def kv_incr_def kv_decr_def intro!: counter_safe kv_incrby_safe kv_decrby_safe)
  show "safe uaf (leaves fd sv) (cmd_del e fd sv args)"
    using r by (auto simp: cmd_del_def intro!: safe_bindr [OF del_loop_safe])
  show "safe uaf (leaves fd sv) (cmd_exists e fd sv args)" "safe uaf (leaves fd sv) (cmd_type e fd sv args)" "safe uaf (leaves fd sv) (cmd_keys e fd sv args)"
    "safe uaf (leaves fd sv) (cmd_save e fd sv args)"
    using r by (auto simp: cmd_exists_def cmd_type_def cmd_keys_def cmd_save_def split: prod.split)
  show "safe uaf (leaves fd sv) (cmd_ttl e fd sv args)" "safe uaf (leaves fd sv) (cmd_pttl e fd sv args)"
    using r by (auto simp: cmd_ttl_def cmd_pttl_def Let_def intro!: safe_bindr [OF safe_i64 [where P = "\<lambda>_. True"]])
  show "safe uaf (leaves fd sv) (cmd_expire e fd sv args)"
    using r by (auto simp: cmd_expire_def intro!: safe_bindr [OF safe_i64 [where P = "\<lambda>_. True"]] safe_bindr [OF kv_expire_safe])
  show "safe uaf (leaves fd sv) (cmd_persist e fd sv args)"
    using r kv_persist_keeps [of "sv_db sv" "args ! 1"] by (auto simp: cmd_persist_def split: prod.split)
qed

lemma answer_len_safe:
  assumes "\<exists>db'. m = Inr (Some n, db') \<and> kv_inv db' \<and> Q db'" "ps_inv (sv_ps sv)"
  shows "safe uaf (leaves fd sv) (answer_len fd sv m)"
  using assms by (auto simp: answer_len_def)

lemma list_commands_safe:
  assumes "ready e sv"
  shows "3 \<le> length args \<Longrightarrow> safe uaf (leaves fd sv) (cmd_lpush e fd sv args)" "3 \<le> length args \<Longrightarrow> safe uaf (leaves fd sv) (cmd_rpush e fd sv args)"
    "safe uaf (leaves fd sv) (cmd_lpop e fd sv args)" "safe uaf (leaves fd sv) (cmd_rpop e fd sv args)" "safe uaf (leaves fd sv) (cmd_llen e fd sv args)"
    "safe uaf (leaves fd sv) (cmd_lindex e fd sv args)" "safe uaf (leaves fd sv) (cmd_lset e fd sv args)" "safe uaf (leaves fd sv) (cmd_lrem e fd sv args)"
    "safe uaf (leaves fd sv) (cmd_rpoplpush e fd sv args)"
proof -
  note r = readyD [OF assms]
  have "drop 2 args \<noteq> []" if "3 \<le> length args" using that by simp
  then show "safe uaf (leaves fd sv) (cmd_lpush e fd sv args)" "safe uaf (leaves fd sv) (cmd_rpush e fd sv args)" if "3 \<le> length args"
    using that r push_loops [of "sv_db sv" "e_mem e" "drop 2 args" "args ! 1"]
    unfolding cmd_lpush_def cmd_rpush_def by (auto intro!: answer_len_safe)
  show "safe uaf (leaves fd sv) (cmd_lpop e fd sv args)" "safe uaf (leaves fd sv) (cmd_rpop e fd sv args)" "safe uaf (leaves fd sv) (cmd_lset e fd sv args)"
    "safe uaf (leaves fd sv) (cmd_lrem e fd sv args)" "safe uaf (leaves fd sv) (cmd_rpoplpush e fd sv args)"
    using r by (auto simp: cmd_lpop_def cmd_rpop_def cmd_lset_def cmd_lrem_def cmd_rpoplpush_def
        intro!: safe_bindr [OF kv_list_safe(1)] safe_bindr [OF kv_list_safe(2)] safe_bindr [OF kv_list_safe(3)] safe_bindr [OF kv_list_safe(4)]
          safe_bindr [OF kv_lpoprpush_safe])
  show "safe uaf (leaves fd sv) (cmd_llen e fd sv args)" "safe uaf (leaves fd sv) (cmd_lindex e fd sv args)"
    using r by (auto simp: cmd_llen_def cmd_lindex_def split: prod.split intro!: safe_bindr [OF kv_list_safe(5)])
qed

lemma table_commands_safe:
  assumes "ready e sv"
  shows "safe uaf (leaves fd sv) (cmd_sadd e fd sv args)" "safe uaf (leaves fd sv) (cmd_srem e fd sv args)" "safe uaf (leaves fd sv) (cmd_sismember e fd sv args)"
    "safe uaf (leaves fd sv) (cmd_scard e fd sv args)" "safe uaf (leaves fd sv) (cmd_smembers e fd sv args)" "safe uaf (leaves fd sv) (cmd_hset e fd sv args)"
    "safe uaf (leaves fd sv) (cmd_hget e fd sv args)" "safe uaf (leaves fd sv) (cmd_hdel e fd sv args)" "safe uaf (leaves fd sv) (cmd_hexists e fd sv args)"
    "safe uaf (leaves fd sv) (cmd_hlen e fd sv args)" "safe uaf (leaves fd sv) (cmd_hkeys e fd sv args)" "safe uaf (leaves fd sv) (cmd_hvals e fd sv args)"
    "safe uaf (leaves fd sv) (cmd_hgetall e fd sv args)"
proof -
  note r = readyD [OF assms]
  show "safe uaf (leaves fd sv) (cmd_sismember e fd sv args)" "safe uaf (leaves fd sv) (cmd_scard e fd sv args)" "safe uaf (leaves fd sv) (cmd_smembers e fd sv args)"
    "safe uaf (leaves fd sv) (cmd_hget e fd sv args)" "safe uaf (leaves fd sv) (cmd_hexists e fd sv args)" "safe uaf (leaves fd sv) (cmd_hlen e fd sv args)"
    "safe uaf (leaves fd sv) (cmd_hkeys e fd sv args)" "safe uaf (leaves fd sv) (cmd_hvals e fd sv args)" "safe uaf (leaves fd sv) (cmd_hgetall e fd sv args)"
    using r by (auto simp: cmd_sismember_def cmd_scard_def cmd_smembers_def cmd_hget_def cmd_hexists_def cmd_hlen_def cmd_hkeys_def
        cmd_hvals_def cmd_hgetall_def)
  show "safe uaf (leaves fd sv) (cmd_sadd e fd sv args)"
    using r by (auto simp: cmd_sadd_def intro!: safe_bindr [OF kv_table_safe(1)])
  show "safe uaf (leaves fd sv) (cmd_hset e fd sv args)"
    using r by (auto simp: cmd_hset_def intro!: safe_bindr [OF kv_table_safe(4)])
  show "safe uaf (leaves fd sv) (cmd_srem e fd sv args)" "safe uaf (leaves fd sv) (cmd_hdel e fd sv args)"
    using r kv_table_safe(2,3) [of "sv_db sv" "args ! 1" "drop 2 args"]
    by (auto simp: cmd_srem_def cmd_hdel_def split: prod.split)
qed

lemma zset_commands_safe:
  assumes "ready e sv"
  shows "safe uaf (leaves fd sv) (cmd_zadd e fd sv args)" "safe uaf (leaves fd sv) (cmd_zrem e fd sv args)" "safe uaf (leaves fd sv) (cmd_zscore e fd sv args)"
    "safe uaf (leaves fd sv) (cmd_zcard e fd sv args)" "safe uaf (leaves fd sv) (cmd_zrank e fd sv args)" "safe uaf (leaves fd sv) (cmd_zrevrank e fd sv args)"
    "safe uaf (leaves fd sv) (cmd_zrange e fd sv args)" "safe uaf (leaves fd sv) (cmd_zrevrange e fd sv args)"
proof -
  note r = readyD [OF assms]
  show "safe uaf (leaves fd sv) (cmd_zadd e fd sv args)" "safe uaf (leaves fd sv) (cmd_zrem e fd sv args)"
    using r by (auto simp: cmd_zadd_def cmd_zrem_def intro!: safe_bindr [OF zadd_loop_safe] safe_bindr [OF zrem_loop_safe])
  show "safe uaf (leaves fd sv) (cmd_zcard e fd sv args)" using r by (auto simp: cmd_zcard_def)
  show "safe uaf (leaves fd sv) (cmd_zscore e fd sv args)" "safe uaf (leaves fd sv) (cmd_zrange e fd sv args)" "safe uaf (leaves fd sv) (cmd_zrevrange e fd sv args)"
    using r by (auto simp: cmd_zscore_def cmd_zrange_def cmd_zrevrange_def
        intro!: safe_bindr [OF kv_zset_safe(2)] safe_bindr [OF kv_zset_safe(3)] safe_bindr [OF kv_zset_safe(4)])
  show "safe uaf (leaves fd sv) (cmd_zrank e fd sv args)" "safe uaf (leaves fd sv) (cmd_zrevrank e fd sv args)"
    using r by (auto simp: cmd_zrank_def cmd_zrevrank_def intro!: safe_bindr [OF kv_ranks_safe(1)] safe_bindr [OF kv_ranks_safe(2)])
qed

lemma publish_loop_safe:
  "safe uaf (\<lambda>_. True) buf \<Longrightarrow> safe uaf (\<lambda>p. fst ` set (snd p) \<subseteq> cs_fd ` set ss) (publish_loop snd_ok buf ss cnt)"
proof (induction snd_ok buf ss cnt rule: publish_loop.induct)
  case (2 snd_ok buf s ss cnt)
  let ?P = "\<lambda>ss p. fst ` set (snd p) \<subseteq> cs_fd ` set ss"
  show ?case
  proof (cases "cs_fd s \<ge> 0")
    case True
    have "safe uaf (?P ss) (publish_loop snd_ok buf ss (if snd_ok (cs_fd s) b then cnt + 1 else cnt))" for b
      using 2 True by simp
    with True "2.prems" show ?thesis
      by (auto simp: image_subset_iff intro!: safe_bindr [OF "2.prems"] safe_bindr [where P = "?P ss"])
  next
    case False
    with 2 have "safe uaf (?P ss) (publish_loop snd_ok buf ss cnt)" by simp
    with False show ?thesis by (auto elim!: safe_mono)
  qed
qed simp

lemma subs_of_fds: "cs_fd ` set (subs_of ps ch) \<subseteq> all_fds ps"
  by (induction ps) (auto simp: all_fds_def)

lemma cmd_publish_safe:
  assumes "ready e sv"
  shows "safe uaf (leaves fd sv) (cmd_publish e fd sv args)"
proof -
  let ?ss = "take MAX_BATCH (subs_of (sv_ps sv) (args ! 1))"
  have "cs_fd ` set ?ss \<subseteq> all_fds (sv_ps sv)" using subs_of_fds [of "sv_ps sv" "args ! 1"] set_take_subset by fast
  with assms show ?thesis unfolding cmd_publish_def pubsub_publish_def
    by (intro safe_bindr [OF publish_loop_safe]) (force simp: snprintf_bytes_def ready_def)+
qed

text \<open>Every entry of the table, and so every line.\<close>

lemmas commands_safe =
  string_commands_safe key_commands_safe list_commands_safe table_commands_safe zset_commands_safe cmd_publish_safe

lemma table_safe:
  assumes "ready e sv" "uaf \<or> queue_ok sv" "(name, least, f) \<in> set command_table" "least \<le> length args"
  shows "safe uaf (leaves fd sv) (f e fd sv args)"
  using assms(2-4) unfolding command_table_def by (auto intro: commands_safe [OF assms(1)])

lemma process_command_safe:
  assumes "ready e sv" "uaf \<or> queue_ok sv"
  shows "safe uaf (leaves fd sv) (process_command e fd sv line)"
proof (cases "parse_line line MAX_ARGS = []")
  case False
  show ?thesis
  proof (cases "route command_table (parse_line line MAX_ARGS)")
    case (Some f)
    with route_in [OF Some] table_safe [OF assms] False show ?thesis by (auto simp: process_command_def)
  next
    case None
    with False readyD [OF assms(1)] show ?thesis by (simp add: process_command_def safe_answer)
  qed
qed (use readyD [OF assms(1)] in \<open>simp add: process_command_def\<close>)

end
