(* ===== verification/Server_Refinement.thy ===== *)
theory Server_Refinement
  imports Command_Spec Server_Safety
begin

text \<open>
  The command interpreter implements the specification of the commands: the reply of a line is the
  specified one, and the store afterwards represents the specified database, from which at most
  one key is missing (the one the store of a new key may evict). Nothing is missing while
  there is room, and a command uses up at most one slot.
\<close>

subsection \<open>Room\<close>

text \<open>\<open>room db n\<close>: \<open>n\<close> more keys can be stored without growing and without evicting.\<close>

definition room :: "kv_table \<Rightarrow> nat \<Rightarrow> bool" where
  "room db n \<longleftrightarrow> 2 * (used (t_entries db) + n) \<le> t_capacity db \<and> 4 * (t_count db + n) \<le> 3 * t_capacity db"

definition grows :: "nat \<Rightarrow> kv_table \<Rightarrow> kv_table \<Rightarrow> bool" where
  "grows n db db' \<longleftrightarrow> t_capacity db' = t_capacity db \<and> t_count db' \<le> t_count db + n \<and>
     used (t_entries db') \<le> used (t_entries db) + n"

definition upto :: "nat \<Rightarrow> kv_table \<Rightarrow> ('x \<times> kv_table) res \<Rightarrow> bool" where
  "upto n db m \<longleftrightarrow> (\<forall>x d. m = Inr (x, d) \<longrightarrow> grows n db d)"

lemma room_D: "room db (Suc n) \<Longrightarrow> \<not> overfull db \<and> 2 * used (t_entries db) < t_capacity db \<and> can_grow mem db \<and> room db n"
  by (auto simp: room_def overfull_def can_grow_def)

lemma grows_room: "grows (Suc 0) db d \<Longrightarrow> room db (Suc n) \<Longrightarrow> room d n"
  by (auto simp: room_def grows_def)

lemma grows_refl [simp]: "grows n db db"
  by (simp add: grows_def)

lemma grows_trans: "grows m db d \<Longrightarrow> grows n d d' \<Longrightarrow> grows (m + n) db d'"
  by (auto simp: grows_def)

lemma grows_le: "grows m db d \<Longrightarrow> m \<le> n \<Longrightarrow> grows n db d"
  by (auto simp: grows_def)

lemma grows_overfull: "grows 0 db d \<Longrightarrow> \<not> overfull db \<Longrightarrow> \<not> overfull d"
  by (auto simp: grows_def overfull_def)

lemma used_cong:
  fixes xs ys :: "'o kv_entry list"
  assumes "map (\<lambda>e. e \<noteq> E_EMPTY) xs = map (\<lambda>e. e \<noteq> E_EMPTY) ys"
  shows "used xs = used ys"
proof -
  have "used zs = length (filter id (map (\<lambda>e. e \<noteq> E_EMPTY) zs))" for zs :: "'o kv_entry list"
    by (induction zs) (auto simp: used_def)
  then show ?thesis using assms by metis
qed

lemma used_put [simp]: "used (es[i := entry_put v (es ! i)]) = used es"
  by (rule used_cong, cases "es ! i"; cases "i < length es"; auto simp: list_eq_iff_nth_eq nth_list_update)

lemma used_delete: "idx < length es \<Longrightarrow> es ! idx \<noteq> E_EMPTY \<Longrightarrow> used (es[idx := E_DELETED]) = used es"
  by (rule used_cong) (auto simp: list_eq_iff_nth_eq nth_list_update)

lemma grows_put [simp]: "grows n db (put_obj idx obj d) = grows n db d" "grows n db (put_val idx obj v d) = grows n db d"
  by (simp_all add: grows_def put_obj_def put_val_def)

lemma grows_version [simp]: "grows n db (d\<lparr>t_version := v\<rparr>) = grows n db d" "grows n (db\<lparr>t_version := v\<rparr>) d = grows n db d"
  by (simp_all add: grows_def)

subsection \<open>Slots used by the operations\<close>

lemma upto_Inr [simp]: "upto n db (Inr (x, d)) = grows n db d" "upto n db (Inl f)"
  by (simp_all add: upto_def)

lemma upto_bind: "(\<And>x. m = Inr x \<Longrightarrow> upto n db (f x)) \<Longrightarrow> upto n db (bindr m f)"
  by (cases m) auto

lemma upto_bind_tab:
  "upto n db m \<Longrightarrow> (\<And>x d. m = Inr (x, d) \<Longrightarrow> grows n db d \<Longrightarrow> upto n' db (f (x, d))) \<Longrightarrow> upto n' db (bindr m f)"
  by (cases m) (auto simp: upto_def)

lemma upto_from: "grows m db d \<Longrightarrow> upto n d r \<Longrightarrow> upto (m + n) db r"
  by (auto simp: upto_def intro: grows_trans)

lemma upto_set_object:
  assumes "\<not> overfull db"
  shows "upto (Suc 0) db (kv_set_object mem db k obj meta)"
  using kv_set_object_size [OF assms, of mem k obj meta] by (auto simp: upto_def grows_def)

lemma set_object_grows: "kv_set_object mem db k obj meta = Inr (r, d) \<Longrightarrow> \<not> overfull db \<Longrightarrow> grows (Suc 0) db d"
  using upto_set_object [of db mem k obj meta] by simp

lemma overfull_version [simp]: "overfull (db\<lparr>t_version := v\<rparr>) = overfull db"
  by (simp add: overfull_def)

lemma upto_version: "upto n (db\<lparr>t_version := v\<rparr>) m = upto n db m"
  by (simp add: upto_def)

lemma upto_set: "\<not> overfull db \<Longrightarrow> upto (Suc 0) db (kv_set mem now db k s)"
  using upto_set_object [of "db\<lparr>t_version := t_version db + 1\<rparr>"]
  by (simp add: kv_set_def kv_set_meta_def kv_next_version_def Let_def upto_version)

lemma grows_set_ttl [simp]: "grows n db (snd (kv_set_ttl d k t)) = grows n db d"
  by (simp add: kv_set_ttl_def split: option.split)

lemma upto_setnx: "\<not> overfull db \<Longrightarrow> upto (Suc 0) db (kv_setnx mem now db k s)"
  by (simp add: kv_setnx_def upto_set)

lemma upto_setex: "\<not> overfull db \<Longrightarrow> upto (Suc 0) db (kv_setex mem now nowms db k s ms)"
  unfolding kv_setex_def
  by (rule upto_bind_tab [OF upto_set]) (auto intro!: upto_bind simp: kv_set_ttl_def split: option.split)

lemma upto_incr_slot: "grows n db d \<Longrightarrow> upto n db (incr_slot idx delta d)"
  by (auto simp: incr_slot_def split: kv_entry.split obj_val.split option.split intro!: upto_bind)

lemma upto_incrby: "\<not> overfull db \<Longrightarrow> upto (Suc 0) db (kv_incrby mem now db k d)"
  using upto_set_object [of "db\<lparr>t_version := t_version db + 1\<rparr>"]
  by (auto simp: kv_incrby_def kv_next_version_def Let_def upto_version split_beta intro!: upto_incr_slot upto_bind_tab)

lemma upto_decrby: "\<not> overfull db \<Longrightarrow> upto (Suc 0) db (kv_decrby mem now db k d)"
  by (auto simp: kv_decrby_def intro!: upto_bind upto_incrby)

lemma append_at_grows: "grows n db d \<Longrightarrow> grows n db (snd (append_at d k t))"
  by (simp add: append_at_def split: option.split obj_val.split)

lemma upto_pair: "upto n db (Inr p) = grows n db (snd p)"
  by (cases p) simp

lemma upto_append: "\<not> overfull db \<Longrightarrow> upto (Suc 0) db (kv_append mem now db k t)"
  by (auto simp: kv_append_def upto_pair append_at_grows split: option.split intro!: upto_bind_tab [OF upto_set_object])

lemma upto_del: "kv_inv db \<Longrightarrow> upto 0 db (kv_del db k)"
  using kv_find_Some [of db k]
  by (auto simp: kv_del_def drop_slot_def upto_def grows_def used_delete split: option.splits)

lemma del_loop_upto: "kv_inv db \<Longrightarrow> upto 0 db (del_loop ks db c)"
proof (induction ks db c rule: del_loop.induct)
  case (2 k ks db c)
  from kv_del_ok [OF "2.prems", of k] obtain r d where d: "kv_del db k = Inr (r, d)" "kv_inv d" by auto
  with upto_del [OF "2.prems", of k] have g: "grows 0 db d" by simp
  have "upto 0 d (del_loop ks d c')" if "c' = (if r = 0 then c + 1 else c)" for c'
    using "2.IH" d(2) that by simp
  with upto_from [OF g] d(1) show ?case by fastforce
qed simp

text \<open>An operation that first fetches the object of its type and creates it if need be.\<close>

lemma upto_ensure_list: "\<not> overfull db \<Longrightarrow> upto (Suc 0) db (kv_ensure_list mem db k)"
  by (auto simp: kv_ensure_list_def split: option.split intro!: upto_bind elim!: set_object_grows)

lemma upto_wr_set: "\<not> overfull db \<Longrightarrow> upto (Suc 0) db (wr_set_obj mem db k)"
  by (auto simp: wr_set_obj_def split: option.split intro!: upto_bind elim!: set_object_grows)

lemma upto_wr_hash: "\<not> overfull db \<Longrightarrow> upto (Suc 0) db (wr_hash mem db k)"
  by (auto simp: wr_hash_def split: option.split intro!: upto_bind elim!: set_object_grows)

lemma upto_push:
  assumes "upto n db (kv_ensure_list mem db k)"
  shows "upto n db (kv_lpush mem db k v)" "upto n db (kv_rpush mem db k v)"
  unfolding kv_lpush_def kv_rpush_def
  by (rule upto_bind_tab [OF assms]; auto split: option.split intro!: upto_bind)+

lemma upto_pops: "upto 0 db (kv_lpop db k)" "upto 0 db (kv_rpop db k)" "upto 0 db (kv_lset db k i v)" "upto 0 db (kv_lrem db k c v)"
  by (auto simp: kv_lpop_def kv_rpop_def kv_lset_def kv_lrem_def split: option.split intro!: upto_bind)

lemma upto_poppush:
  assumes "\<not> overfull db"
  shows "upto (Suc 0) db (kv_lpoprpush mem db src dst)"
  unfolding kv_lpoprpush_def
proof (rule upto_bind_tab [OF upto_pops(2)])
  fix x d assume g: "grows 0 db d"
  from upto_push(1) [OF upto_ensure_list [OF grows_overfull [OF g assms]]] have "upto (0 + Suc 0) db (kv_lpush mem d dst w)" for w
    by (rule upto_from [OF g])
  then show "upto (Suc 0) db (case (x, d) of (v, db) \<Rightarrow> case v of None \<Rightarrow> Inr (None, db)
      | Some w \<Rightarrow> bindr (kv_lpush mem db dst w) (\<lambda>(_, db). Inr (v, db)))"
    using grows_le [OF g] by (auto split: option.split intro!: upto_bind_tab [where n = "Suc 0"])
qed

lemma upto_sadd: "\<not> overfull db \<Longrightarrow> upto (Suc 0) db (kv_sadd mem db k ms)"
  unfolding kv_sadd_def by (rule upto_bind_tab [OF upto_wr_set]) (auto split: option.split intro!: upto_bind)

lemma upto_hset: "\<not> overfull db \<Longrightarrow> upto (Suc 0) db (kv_hset mem db k f v)"
  unfolding kv_hset_def by (rule upto_bind_tab [OF upto_wr_hash]) (auto simp: Let_def split: option.split intro!: upto_bind)

lemma grows_rem: "grows 0 db (snd (kv_srem db k ms))" "grows 0 db (snd (kv_hdel db k ms))"
  by (simp_all add: kv_srem_def kv_hdel_def split_beta Let_def split: option.split)

lemma upto_zadd:
  assumes "\<not> overfull db"
  shows "upto (Suc 0) db (kv_zadd mem rs db k s m)"
  unfolding kv_zadd_def
  by (rule upto_bind_tab [where n = "Suc 0"])
    (use assms in \<open>auto split: option.split sum.split intro!: upto_bind elim!: set_object_grows\<close>)

lemma upto_zadd_present: "wr_obj db k as_zset = Some p \<Longrightarrow> upto 0 db (kv_zadd mem rs db k s m)"
  by (auto simp: kv_zadd_def split: prod.split intro!: upto_bind)

lemma upto_ensure_present: "wr_obj db k as_list = Some p \<Longrightarrow> upto 0 db (kv_ensure_list mem db k)"
  by (simp add: kv_ensure_list_def)

lemma has_list_wr: "kv_inv db \<Longrightarrow> has_list db k \<Longrightarrow> \<exists>p. wr_obj db k as_list = Some p"
  using kv_find_abs [of db k]
  by (fastforce simp: has_list_def wr_obj_def absval_def split: option.splits obj_val.splits)

text \<open>The pushes of one command: only the first can take a slot.\<close>

lemma push_loop_upto:
  assumes later: "\<And>db v. kv_inv db \<Longrightarrow> has_list db k \<Longrightarrow> upto 0 db (push db v) \<and> (\<exists>x d. push db v = Inr (x, d) \<and> kv_inv d \<and> has_list d k)"
    and "kv_inv db" "has_list db k"
  shows "upto 0 db (push_loop push vs db len)"
  using assms(2,3)
proof (induction vs arbitrary: db len)
  case (Cons v vs)
  from later [OF Cons.prems, of v] obtain x d where d: "push db v = Inr (x, d)" "kv_inv d" "has_list d k" "grows 0 db d" by fastforce
  from upto_from [OF d(4) Cons.IH [OF d(2,3)]] d(1) show ?case by (simp add: split_beta)
qed simp

lemma push_loops_upto:
  assumes "kv_inv db" "\<not> overfull db"
  shows "upto (Suc 0) db (push_loop (\<lambda>db v. kv_lpush mem db k v) vs db None)"
    "upto (Suc 0) db (push_loop (\<lambda>db v. kv_rpush mem db k v) vs db None)"
proof -
  have cg: "can_grow mem db" using assms(2) by (simp add: can_grow_def)
  have later: "upto 0 d (kv_lpush mem d k v) \<and> (\<exists>x d'. kv_lpush mem d k v = Inr (x, d') \<and> kv_inv d' \<and> has_list d' k)"
    "upto 0 d (kv_rpush mem d k v) \<and> (\<exists>x d'. kv_rpush mem d k v = Inr (x, d') \<and> kv_inv d' \<and> has_list d' k)"
    if "kv_inv d" "has_list d k" for d v
  proof -
    from has_list_wr [OF that] upto_ensure_present obtain p where "upto 0 d (kv_ensure_list mem d k)" by blast
    note u = upto_push [OF this]
    show "upto 0 d (kv_lpush mem d k v) \<and> (\<exists>x d'. kv_lpush mem d k v = Inr (x, d') \<and> kv_inv d' \<and> has_list d' k)"
      using u(1) push_present [where push = "\<lambda>l. dlist_push_left l v" and g = "\<lambda>xs. v # xs", OF that dlist_push_left_ok, of mem]
      by (fastforce simp: kv_lpush_def has_list_def)
    show "upto 0 d (kv_rpush mem d k v) \<and> (\<exists>x d'. kv_rpush mem d k v = Inr (x, d') \<and> kv_inv d' \<and> has_list d' k)"
      using u(2) push_present [where push = "\<lambda>l. dlist_push_right l v" and g = "\<lambda>xs. xs @ [v]", OF that dlist_push_right_ok, of mem]
      by (fastforce simp: kv_rpush_def has_list_def)
  qed
  show "upto (Suc 0) db (push_loop (\<lambda>db v. kv_lpush mem db k v) vs db None)"
  proof (cases vs)
    case (Cons v ws)
    from kv_lpush_ok [OF assms(1) cg, of k v] obtain n d where d: "kv_lpush mem db k v = Inr (n, d)" "kv_inv d" "has_list d k"
      by (fastforce simp: has_list_def)
    with upto_push(1) [OF upto_ensure_list [OF assms(2)], of mem k v] have "grows (Suc 0) db d" by simp
    from upto_from [OF this push_loop_upto [of k "\<lambda>db v. kv_lpush mem db k v", OF later(1) d(2,3)]] d(1) Cons
    show ?thesis by (simp add: split_beta)
  qed simp
  show "upto (Suc 0) db (push_loop (\<lambda>db v. kv_rpush mem db k v) vs db None)"
  proof (cases vs)
    case (Cons v ws)
    from kv_rpush_ok [OF assms(1) cg, of k v] obtain n d where d: "kv_rpush mem db k v = Inr (n, d)" "kv_inv d" "has_list d k"
      by (fastforce simp: has_list_def)
    with upto_push(2) [OF upto_ensure_list [OF assms(2)], of mem k v] have "grows (Suc 0) db d" by simp
    from upto_from [OF this push_loop_upto [of k "\<lambda>db v. kv_rpush mem db k v", OF later(2) d(2,3)]] d(1) Cons
    show ?thesis by (simp add: split_beta)
  qed simp
qed

text \<open>Adding to a sorted set that is there, and the entries of one \<open>ZADD\<close>.\<close>

lemma zadd_present:
  assumes inv: "kv_inv db" and es: "kv_abs db k = Some (AZset es)" "zsorted es" "\<not> dbl_nan s"
  shows "\<exists>d. kv_zadd mem rs db k s m = Inr ((0, Some 1), d) \<and> kv_inv d \<and> kv_abs d = (kv_abs db)(k \<mapsto> AZset (zins (s, m) es)) \<and>
    zsorted (zins (s, m) es) \<and> grows 0 db d"
  using inv
proof (cases rule: zset_cases [of db k])
  case none
  with es show ?thesis by simp
next
  case (some idx obj z)
  then have z: "zsl_list z = es" using es(1) by simp
  have v: "o_val obj = OBJ_ZSET z" using wr_obj_Some(2) [OF inv some(1)] by (cases "o_val obj") auto
  from zsl_insert_ok [OF some(2), of s rs m] z es(2,3) obtain n z' where
    z': "zsl_insert rs z s m = Inr (n, z')" "zsl_inv z'" "zsl_list z' = zins (s, m) es" "zsorted (zins (s, m) es)" by auto
  have o: "obj_inv (obj\<lparr>o_val := OBJ_ZSET z'\<rparr>)" using z'(2) by simp
  have "kv_zadd mem rs db k s m = Inr ((0, Some 1), put_val idx obj (OBJ_ZSET z') db)"
    using some(1) v z'(1) by (simp add: kv_zadd_def cast_obj_def)
  with put_val_ok [OF inv some(4) o] z' show ?thesis by (simp del: fun_upd_apply)
qed

lemma zadd_loop_present_ok:
  assumes "kv_inv db" "kv_abs db k = Some (AZset es)" "zsorted es" "\<forall>p \<in> set (score_pairs e ws). \<not> dbl_nan (fst p)"
  shows "\<exists>d r. zadd_loop e i k ws db r0 = Inr (r, d) \<and> kv_inv d \<and> kv_abs d = (kv_abs db)(k \<mapsto> AZset (fold zins (score_pairs e ws) es)) \<and>
    (r0 = 1 \<longrightarrow> r = 1) \<and> grows 0 db d"
  using assms
proof (induction e i k ws db r0 arbitrary: es rule: zadd_loop.induct)
  case (1 e i k s m rest db added)
  from zadd_present [OF "1.prems"(1-3), of "e_strtod e s" "e_mem e" "e_rand e i" m] "1.prems"(4) obtain d where
    d: "kv_zadd (e_mem e) (e_rand e i) db k (e_strtod e s) m = Inr ((0, Some 1), d)" "kv_inv d"
      "kv_abs d = (kv_abs db)(k \<mapsto> AZset (zins (e_strtod e s, m) es))" "zsorted (zins (e_strtod e s, m) es)" "grows 0 db d" by auto
  have k: "kv_abs d k = Some (AZset (zins (e_strtod e s, m) es))" using d(3) by simp
  obtain d' r where
    d': "zadd_loop e (Suc i) k rest d 1 = Inr (r, d')" "kv_inv d'" "r = 1" "grows 0 d d'"
      "kv_abs d' = (kv_abs d)(k \<mapsto> AZset (fold zins (score_pairs e rest) (zins (e_strtod e s, m) es)))"
    using "1.IH" [OF d(2) k d(4), of "Some 1"] "1.prems"(4) by (auto simp del: fun_upd_apply)
  from d' d grows_trans [OF d(5) d'(4)] show ?case by (simp del: fun_upd_apply) 
qed (auto simp: fun_upd_idem)

subsection \<open>Implementing a specification\<close>

definition outcome :: "kv_table \<Rightarrow> adb \<Rightarrow> kv_table \<Rightarrow> bool" where
  "outcome db a db' \<longleftrightarrow> kv_inv db' \<and> (\<exists>E. finite E \<and> card E \<le> 1 \<and> kv_abs db' = a |` (- E)) \<and>
     (\<forall>n. room db (Suc n) \<longrightarrow> kv_abs db' = a \<and> room db' n)"

definition implements :: "int \<Rightarrow> server \<Rightarrow> (adb \<times> reply) option \<Rightarrow> (server \<times> sends) res \<Rightarrow> bool" where
  "implements fd sv s m \<longleftrightarrow> (\<forall>a r. s = Some (a, r) \<and> fits r \<longrightarrow>
     (\<exists>db' b. m = Inr (sv\<lparr>sv_db := db'\<rparr>, [(fd, b)]) \<and> encodes r b \<and> outcome (sv_db sv) a db'))"

lemma outcome_exact:
  assumes "kv_inv d" "\<not> overfull db \<Longrightarrow> grows (Suc 0) db d"
  shows "outcome db (kv_abs d) d"
  using assms room_D grows_room unfolding outcome_def by (intro conjI exI [of _ "{}"]) auto

lemma outcome_refl: "kv_inv db \<Longrightarrow> outcome db (kv_abs db) db"
  by (rule outcome_exact) simp_all

lemma outcome_kept:
  assumes inv: "kv_inv db" "can_grow mem db"
    and d: "kv_inv d" "kv_abs d = (kept mem db k)(k \<mapsto> v)" "\<not> overfull db \<Longrightarrow> grows (Suc 0) db d"
  shows "outcome db ((kv_abs db)(k \<mapsto> v)) d"
proof -
  obtain x where x: "victims (grown mem db) k \<subseteq> {x}" using victims_one by blast
  have "kv_abs d = ((kv_abs db)(k \<mapsto> v)) |` (- victims (grown mem db) k)"
    unfolding d(2) by (auto simp: kept_def restrict_map_def victims_def fun_eq_iff)
  moreover have "finite (victims (grown mem db) k)" "card (victims (grown mem db) k) \<le> 1"
    using x card_mono [OF _ x] by (auto intro: finite_subset)
  moreover have "kv_abs d = (kv_abs db)(k \<mapsto> v)" if "room db (Suc n)" for n
    using kept_exact [OF inv] room_D [OF that] d(2) by simp
  ultimately show ?thesis using d(1,3) room_D grows_room unfolding outcome_def by metis
qed

text \<open>The replies.\<close>

lemma encodes_status [simp]:
  "encodes (RStatus ''OK'') send_ok" "encodes (RStatus ''PONG'') send_pong" "encodes (RBulk None) send_nil"
  by (simp_all add: send_ok_def send_pong_def send_nil_def send_reply_def)

lemma encodes_int [simp]: "in_i64 n \<Longrightarrow> encodes (RInt n) (send_int n)"
  by (simp add: send_int_ok)

lemma encodes_err [simp]: "length s < 500 \<Longrightarrow> encodes (RErr s) (send_err s)"
  by (simp add: send_err_def send_reply_def snprintf_cut_def)

lemma send_bulk_encodes: "fits (RBulk s) \<Longrightarrow> \<exists>b. send_bulk s = Inr b \<and> encodes (RBulk s) b"
  by (cases s) (simp_all add: send_bulk_ok, simp add: send_bulk_def send_reply_def)

lemma send_array_encodes:
  assumes "xs \<in> X" "fits (RArray X)"
  shows "\<exists>b. send_array xs = Inr b \<and> encodes (RArray X) b"
proof -
  have "length (int_dec (int (length xs))) \<le> 20" using assms by (intro int_dec_length) auto
  then have "length (nat_dec (length xs)) \<le> 20" by (simp add: int_dec_def)
  then have "send_array_len (length xs) = ''*'' @ nat_dec (length xs) @ CRLF" by (simp add: send_array_len_def send_reply_def snprintf_cut_def)
  with bulk_loop_ok [of xs] assms show ?thesis by (auto simp: send_array_def intro!: bexI [of _ xs])
qed

lemma impl_answer:
  assumes "outcome (sv_db sv) a d" "fits r \<Longrightarrow> encodes r b"
  shows "implements fd sv (Some (a, r)) (answer fd (sv\<lparr>sv_db := d\<rparr>) b)"
  using assms by (auto simp: implements_def answer_def)

lemma impl_int: "outcome (sv_db sv) a d \<Longrightarrow> implements fd sv (Some (a, RInt n)) (answer fd (sv\<lparr>sv_db := d\<rparr>) (send_int n))"
  by (rule impl_answer) (simp_all add: send_int_ok)

lemma impl_bulk:
  assumes "outcome (sv_db sv) a d"
  shows "implements fd sv (Some (a, RBulk s)) (answer_bulk fd (sv\<lparr>sv_db := d\<rparr>) s)"
  using assms send_bulk_encodes [of s] by (fastforce simp: implements_def answer_bulk_def answer_def)

lemma impl_array:
  assumes "outcome (sv_db sv) a d" "xs \<in> X"
  shows "implements fd sv (Some (a, RArray X)) (answer_array fd (sv\<lparr>sv_db := d\<rparr>) xs)"
  using assms(1) send_array_encodes [OF assms(2)] by (fastforce simp: implements_def answer_array_def answer_def)

lemma sv_same: "sv\<lparr>sv_db := sv_db sv\<rparr> = sv"
  by simp

text \<open>A command that only reads.\<close>

lemma impl_reads:
  assumes "kv_inv (sv_db sv)"
  shows "(fits r \<Longrightarrow> encodes r b) \<Longrightarrow> implements fd sv (Some (kv_abs (sv_db sv), r)) (answer fd sv b)"
    "implements fd sv (Some (kv_abs (sv_db sv), RBulk s)) (answer_bulk fd sv s)"
    "xs \<in> X \<Longrightarrow> implements fd sv (Some (kv_abs (sv_db sv), RArray X)) (answer_array fd sv xs)"
  using impl_answer [OF outcome_refl [OF assms]] impl_bulk [OF outcome_refl [OF assms]] impl_array [OF outcome_refl [OF assms]]
  unfolding sv_same by blast+

lemma impl_none [simp]: "implements fd sv None m"
  by (simp add: implements_def)

lemma impl_if: "implements fd sv s m \<Longrightarrow> implements fd sv (if c then s else None) m"
  by simp

text \<open>The typed values are those of the abstract database.\<close>

lemma at_abs:
  "list_at db k = alist (kv_abs db) k" "set_at db k = aset (kv_abs db) k" "hash_at db k = ahash (kv_abs db) k"
  "zset_at db k = azset (kv_abs db) k" "number_at db k = anumber (kv_abs db) k" "has_list db k = is_list (kv_abs db) k"
  by (auto simp: list_at_def alist_def set_at_def aset_def hash_at_def ahash_def zset_at_def azset_def number_at_def anumber_def
      has_list_def is_list_def split: option.splits aval.splits)

lemma strings_abs: "kv_inv db \<Longrightarrow> get_string_obj db k = astr (kv_abs db) k" "kv_inv db \<Longrightarrow> kv_get db k = astr (kv_abs db) k"
  by (simp_all add: get_string_obj_ok kv_get_abs astr_def)

lemma dom_abs: "dom (kv_abs db) = dom (kv_map db)"
  by (auto simp: kv_abs_def dom_def)

subsection \<open>Expiry\<close>

text \<open>
  The documentation has expired keys removed when they are accessed. The server leaves them to the expiry
  thread, so that the database a client may see is \<open>live_abs\<close>, and the commands act on it as long as
  every key that is past its time has been removed.
\<close>

definition live_abs :: "int \<Rightarrow> kv_table \<Rightarrow> adb" where
  "live_abs now db k = (case kv_map db k of
       None \<Rightarrow> None
     | Some obj \<Rightarrow> if expired_at now obj then None else Some (absval (o_val obj)))"

definition timely :: "int \<Rightarrow> kv_table \<Rightarrow> bool" where
  "timely now db \<longleftrightarrow> (\<forall>k obj. kv_map db k = Some obj \<longrightarrow> \<not> expired_at now obj)"

lemma live_abs_timely: "timely now db \<Longrightarrow> live_abs now db = kv_abs db"
  by (auto simp: live_abs_def timely_def kv_abs_def fun_eq_iff split: option.split)

end
