(* ===== verification/Command_Refinement.thy ===== *)
theory Command_Refinement
  imports Server_Refinement
begin

text \<open>
  Each command of the server implements its specification, and so does every line and every
  session of a client of a server without a cluster.
\<close>

definition alone :: "env \<Rightarrow> server \<Rightarrow> bool" where
  "alone e sv \<longleftrightarrow> ready e sv \<and> sv_cs sv = None"

lemma aloneD: "alone e sv \<Longrightarrow> kv_inv (sv_db sv) \<and> can_grow (e_mem e) (sv_db sv) \<and> sv_cs sv = None"
  by (auto simp: alone_def dest: readyD)

declare encodes.simps [simp del]

subsection \<open>Strings\<close>

lemma ping_impl: "alone e sv \<Longrightarrow> implements fd sv (s_ping e args (kv_abs (sv_db sv))) (cmd_ping e fd sv args)"
  by (auto simp: s_ping_def cmd_ping_def dest!: aloneD intro!: impl_reads)

lemma quit_impl: "alone e sv \<Longrightarrow> implements fd sv (s_quit e args (kv_abs (sv_db sv))) (cmd_quit e fd sv args)"
  by (auto simp: s_quit_def cmd_quit_def dest!: aloneD intro!: impl_reads)

lemma set_ttl_abs:
  assumes "kv_inv db"
  shows "kv_abs (snd (kv_set_ttl db k t)) = kv_abs db" "kv_inv (snd (kv_set_ttl db k t))"
    "fst (kv_set_ttl db k t) = (if k \<in> dom (kv_abs db) then 0 else -1)"
  using kv_set_ttl_ok [OF assms, of k t] by (cases "kv_map db k"; auto simp: kv_abs_def fun_eq_iff domIff)+

lemma ttl_loop_abs:
  assumes "kv_inv db" "times_fit e opts"
  shows "\<exists>d. ttl_loop e k opts db = Inr d \<and> kv_inv d \<and> kv_abs d = kv_abs db \<and> (grows n db0 db \<longrightarrow> grows n db0 d)"
  using assms
proof (induction e k opts db rule: ttl_loop.induct)
  case (1 e k opt t rest db)
  have "kv_inv (snd (kv_set_ttl db k x))" "kv_abs (snd (kv_set_ttl db k x)) = kv_abs db" for x
    using set_ttl_abs [OF "1.prems"(1)] by auto
  with 1 show ?case by (auto simp: i64_def split: if_splits)
qed auto

lemma kv_set_abs:
  assumes "kv_inv db" "can_grow mem db"
  shows "\<exists>d. kv_set mem now db k s = Inr (0, d) \<and> kv_inv d \<and> kv_abs d = (kept mem db k)(k \<mapsto> AStr s) \<and> (\<not> overfull db \<longrightarrow> grows (Suc 0) db d)"
proof -
  from kv_set_ok [OF assms(1), of mem now k s] assms(2) obtain d where
    d: "kv_set mem now db k s = Inr (0, d)" "kv_inv d" "kv_map d = (kv_map db |` (- victims (grown mem db) k))(k \<mapsto>
             \<lparr>o_val = OBJ_STRING s, o_ttl = -1, o_version = t_version db + 1, o_wallclock = now, o_origin = ''''\<rparr>)" by auto
  from d(1,2) kv_abs_stored [OF d(3)] upto_set [of db mem now k s] show ?thesis by auto
qed

lemma set_impl: "alone e sv \<Longrightarrow> implements fd sv (s_set e args (kv_abs (sv_db sv))) (cmd_set e fd sv args)"
proof -
  assume "alone e sv"
  note a = aloneD [OF this]
  show ?thesis
  proof (cases "times_fit e (drop 3 args)")
    case True
    from kv_set_abs [of "sv_db sv" "e_mem e" "e_us e" "args ! 1" "args ! 2"] a obtain d where
      d: "kv_set (e_mem e) (e_us e) (sv_db sv) (args ! 1) (args ! 2) = Inr (0, d)" "kv_inv d"
        "kv_abs d = (kept (e_mem e) (sv_db sv) (args ! 1))(args ! 1 \<mapsto> AStr (args ! 2))" "\<not> overfull (sv_db sv) \<longrightarrow> grows (Suc 0) (sv_db sv) d" by auto
    from ttl_loop_abs [OF d(2) True, of "args ! 1" "Suc 0" "sv_db sv"] obtain d' where
      d': "ttl_loop e (args ! 1) (drop 3 args) d = Inr d'" "kv_inv d'" "kv_abs d' = kv_abs d" "grows (Suc 0) (sv_db sv) d \<longrightarrow> grows (Suc 0) (sv_db sv) d'" by auto
    have "cmd_set e fd sv args = answer fd (sv\<lparr>sv_db := d'\<rparr>) send_ok"
      using a d(1) d'(1) by (simp add: cmd_set_def Let_def replicate_write_def)
    moreover have "outcome (sv_db sv) ((kv_abs (sv_db sv))(args ! 1 \<mapsto> AStr (args ! 2))) d'"
      using a d d' by (intro outcome_kept [where mem = "e_mem e"]) auto
    ultimately show ?thesis using True by (simp add: s_set_def impl_answer)
  qed (simp add: s_set_def)
qed

lemma in_i64_small [simp]: "in_i64 0" "in_i64 1" "in_i64 (- 1)" "in_i64 (- 2)"
  by (simp_all add: in_i64_def i64_min_def i64_max_def)

lemma setnx_impl: "alone e sv \<Longrightarrow> implements fd sv (s_setnx e args (kv_abs (sv_db sv))) (cmd_setnx e fd sv args)"
proof -
  assume "alone e sv"
  note a = aloneD [OF this]
  show ?thesis
  proof (cases "args ! 1 \<in> dom (kv_abs (sv_db sv))")
    case True
    then show ?thesis by (simp add: s_setnx_def)
  next
    case False
    then have "\<not> kv_exists (sv_db sv) (args ! 1)" using a kv_exists_ok [of "sv_db sv" "args ! 1"] by (simp add: dom_abs)
    moreover from kv_set_abs [of "sv_db sv" "e_mem e" "e_us e" "args ! 1" "args ! 2"] a obtain d where
      d: "kv_set (e_mem e) (e_us e) (sv_db sv) (args ! 1) (args ! 2) = Inr (0, d)" "kv_inv d"
        "kv_abs d = (kept (e_mem e) (sv_db sv) (args ! 1))(args ! 1 \<mapsto> AStr (args ! 2))" "\<not> overfull (sv_db sv) \<longrightarrow> grows (Suc 0) (sv_db sv) d" by auto
    ultimately have "cmd_setnx e fd sv args = answer fd (sv\<lparr>sv_db := d\<rparr>) (send_int 1)" by (simp add: cmd_setnx_def kv_setnx_def)
    moreover have "outcome (sv_db sv) ((kv_abs (sv_db sv))(args ! 1 \<mapsto> AStr (args ! 2))) d"
      using a d by (intro outcome_kept [where mem = "e_mem e"]) auto
    ultimately show ?thesis using False unfolding s_setnx_def by (auto intro!: impl_answer)
  qed
qed

lemma setex_impl: "alone e sv \<Longrightarrow> implements fd sv (s_setex e args (kv_abs (sv_db sv))) (cmd_setex e fd sv args)"
proof -
  assume "alone e sv"
  note a = aloneD [OF this]
  show ?thesis
  proof (cases "in_i64 (arg_i args 2 * 1000) \<and> in_i64 (now_ms e + arg_i args 2 * 1000)")
    case True
    from kv_set_abs [of "sv_db sv" "e_mem e" "e_us e" "args ! 1" "args ! 3"] a obtain d where
      d: "kv_set (e_mem e) (e_us e) (sv_db sv) (args ! 1) (args ! 3) = Inr (0, d)" "kv_inv d"
        "kv_abs d = (kept (e_mem e) (sv_db sv) (args ! 1))(args ! 1 \<mapsto> AStr (args ! 3))" "\<not> overfull (sv_db sv) \<longrightarrow> grows (Suc 0) (sv_db sv) d" by auto
    let ?d = "snd (kv_set_ttl d (args ! 1) (now_ms e + arg_i args 2 * 1000))"
    have "cmd_setex e fd sv args = answer fd (sv\<lparr>sv_db := ?d\<rparr>) send_ok"
      using True d(1) by (simp add: cmd_setex_def kv_setex_def i64_def split_beta)
    moreover have "outcome (sv_db sv) ((kv_abs (sv_db sv))(args ! 1 \<mapsto> AStr (args ! 3))) ?d"
      using a d set_ttl_abs [OF d(2)] by (intro outcome_kept [where mem = "e_mem e"]) auto
    ultimately show ?thesis using True by (simp add: s_setex_def impl_answer)
  qed (auto simp: s_setex_def)
qed

lemma get_impl: "alone e sv \<Longrightarrow> implements fd sv (s_get e args (kv_abs (sv_db sv))) (cmd_get e fd sv args)"
  by (auto simp: s_get_def cmd_get_def strings_abs dest!: aloneD intro!: impl_reads)

lemma getrange_impl: "alone e sv \<Longrightarrow> implements fd sv (s_getrange e args (kv_abs (sv_db sv))) (cmd_getrange e fd sv args)"
proof -
  assume "alone e sv"
  note a = aloneD [OF this]
  have r: "kv_getrange (sv_db sv) k i j = Inr (zslice i j (case astr (kv_abs (sv_db sv)) k of Some s \<Rightarrow> s | None \<Rightarrow> []))" for k i j
    using kv_getrange_ok [of "sv_db sv" k i j, folded zslice_def] a by (simp add: astr_def split: option.split aval.split)
  show ?thesis unfolding s_getrange_def cmd_getrange_def r bindr_simps using a by (intro impl_if impl_reads) simp
qed

lemma append_impl: "alone e sv \<Longrightarrow> implements fd sv (s_append e args (kv_abs (sv_db sv))) (cmd_append e fd sv args)"
proof -
  assume "alone e sv"
  note a = aloneD [OF this]
  let ?s = "(case astr (kv_abs (sv_db sv)) (args ! 1) of Some s \<Rightarrow> s | None \<Rightarrow> '''') @ args ! 2"
  have s: "(case get_string_obj (sv_db sv) (args ! 1) of Some s \<Rightarrow> s @ args ! 2 | None \<Rightarrow> args ! 2) = ?s"
    using a by (simp add: strings_abs split: option.split)
  from kv_append_ok [of "sv_db sv" "e_mem e" "e_us e" "args ! 1" "args ! 2"] a obtain d where
    d: "kv_append (e_mem e) (e_us e) (sv_db sv) (args ! 1) (args ! 2) = Inr ((0, Some (length ?s)), d)" "kv_inv d"
      "kv_abs d = (kept (e_mem e) (sv_db sv) (args ! 1))(args ! 1 \<mapsto> AStr ?s)" unfolding s by blast
  have g: "grows (Suc 0) (sv_db sv) d" if "\<not> overfull (sv_db sv)"
    using upto_append [OF that, of "e_mem e" "e_us e" "args ! 1" "args ! 2"] unfolding d(1) by simp
  have eq: "cmd_append e fd sv args = answer fd (sv\<lparr>sv_db := d\<rparr>) (send_int (int (length ?s)))" unfolding cmd_append_def d(1) by simp
  have "outcome (sv_db sv) ((kv_abs (sv_db sv))(args ! 1 \<mapsto> AStr ?s)) d"
    using a by (intro outcome_kept [where mem = "e_mem e"] d g) simp_all
  from impl_if [OF impl_int [OF this]] show ?thesis unfolding s_append_def Let_def eq .
qed

lemma strlen_impl: "alone e sv \<Longrightarrow> implements fd sv (s_strlen e args (kv_abs (sv_db sv))) (cmd_strlen e fd sv args)"
  by (auto simp: s_strlen_def cmd_strlen_def kv_strlen_def strings_abs dest!: aloneD intro!: impl_reads split: option.split)

text \<open>The four counters.\<close>

lemma add_impl:
  assumes a: "kv_inv (sv_db sv)" "can_grow mem (sv_db sv)" and err: "length err < 500"
  shows "implements fd sv (s_add err d k (kv_abs (sv_db sv))) (answer_counter fd sv err (kv_incrby mem now (sv_db sv) k d))"
proof (cases "anumber (kv_abs (sv_db sv)) k")
  case None
  then have "answer_counter fd sv err (kv_incrby mem now (sv_db sv) k d) = answer fd sv (send_err err)"
    using kv_incrby_wrong_type [OF a(1), of k mem now d] by (simp add: at_abs answer_counter_def)
  with None err a show ?thesis by (auto simp: s_add_def intro!: impl_reads)
next
  case (Some v)
  show ?thesis
  proof (cases "in_i64 v \<and> in_i64 (v + d)")
    case True
    with kv_incrby_ok [OF a, of k v d now] Some obtain db where
      db: "kv_incrby mem now (sv_db sv) k d = Inr ((0, Some (v + d)), db)" "kv_inv db"
        "kv_abs db = (kept mem (sv_db sv) k)(k \<mapsto> AStr (int_dec (v + d)))" by (auto simp: at_abs)
    have "answer_counter fd sv err (kv_incrby mem now (sv_db sv) k d) = answer fd (sv\<lparr>sv_db := db\<rparr>) (send_int (v + d))"
      using db(1) by (simp add: answer_counter_def)
    moreover have "outcome (sv_db sv) ((kv_abs (sv_db sv))(k \<mapsto> AStr (int_dec (v + d)))) db"
      using a db upto_incrby [of "sv_db sv" mem now k d] by (intro outcome_kept [where mem = mem]) auto
    ultimately show ?thesis using Some True by (simp add: s_add_def impl_answer)
  qed (auto simp: s_add_def Some)
qed

lemma counter_impls:
  assumes "alone e sv"
  shows "implements fd sv (s_incr e args (kv_abs (sv_db sv))) (cmd_incr e fd sv args)"
    "implements fd sv (s_decr e args (kv_abs (sv_db sv))) (cmd_decr e fd sv args)"
    "implements fd sv (s_incrby e args (kv_abs (sv_db sv))) (cmd_incrby e fd sv args)"
    "implements fd sv (s_decrby e args (kv_abs (sv_db sv))) (cmd_decrby e fd sv args)"
  using aloneD [OF assms] unfolding s_incr_def cmd_incr_def s_decr_def cmd_decr_def s_incrby_def cmd_incrby_def s_decrby_def cmd_decrby_def
    kv_incr_def kv_decr_def kv_decrby_def
  by (auto simp: i64_def intro!: add_impl)

subsection \<open>Keys\<close>

lemma del_loop_abs:
  assumes "kv_inv db"
  shows "\<exists>d. del_loop ks db c = Inr (c + int (card (set ks \<inter> dom (kv_abs db))), d) \<and> kv_inv d \<and> kv_abs d = kv_abs db |` (- set ks)"
  using assms
proof (induction ks arbitrary: db c)
  case Nil
  then show ?case by (simp add: restrict_map_def)
next
  case (Cons k ks)
  from kv_del_ok [OF Cons.prems, of k] obtain d where
    d: "kv_del db k = Inr (if k \<in> dom (kv_map db) then 0 else -1, d)" "kv_inv d" "kv_map d = (kv_map db)(k := None)" by blast
  have a: "kv_abs d = (kv_abs db)(k := None)" using d(3) by (simp add: kv_abs_def fun_eq_iff)
  have "set (k # ks) \<inter> dom (kv_abs db) = (if k \<in> dom (kv_abs db) then insert k (set ks \<inter> dom (kv_abs d)) else set ks \<inter> dom (kv_abs d))"
    unfolding a by auto
  moreover have "k \<notin> set ks \<inter> dom (kv_abs d)" using a by simp
  ultimately have c: "card (set (k # ks) \<inter> dom (kv_abs db)) = card (set ks \<inter> dom (kv_abs d)) + (if k \<in> dom (kv_map db) then 1 else 0)"
    by (simp add: dom_abs)
  have r: "kv_abs d |` (- set ks) = kv_abs db |` (- set (k # ks))" unfolding a by (auto simp: restrict_map_def)
  have "del_loop (k # ks) db c = del_loop ks d (if k \<in> dom (kv_map db) then c + 1 else c)" unfolding del_loop.simps d(1) by simp
  with Cons.IH [OF d(2), of "if k \<in> dom (kv_map db) then c + 1 else c"] show ?case unfolding c r
    by (cases "k \<in> dom (kv_map db)") (simp_all add: ac_simps del: del_loop.simps)
qed

lemma del_impl: "alone e sv \<Longrightarrow> implements fd sv (s_del e args (kv_abs (sv_db sv))) (cmd_del e fd sv args)"
proof -
  assume "alone e sv"
  note a = aloneD [OF this]
  let ?ks = "drop 1 args"
  let ?n = "int (card (set ?ks \<inter> dom (kv_abs (sv_db sv))))"
  from del_loop_abs [of "sv_db sv" ?ks 0] a obtain d where
    d: "del_loop ?ks (sv_db sv) 0 = Inr (?n, d)" "kv_inv d" "kv_abs d = kv_abs (sv_db sv) |` (- set ?ks)" by auto
  have g: "grows (Suc 0) (sv_db sv) d" using del_loop_upto [of "sv_db sv" ?ks 0] a d(1) grows_le [of 0] by simp
  have "cmd_del e fd sv args = answer fd (sv\<lparr>sv_db := d\<rparr>) (send_int ?n)" using d(1) by (simp add: cmd_del_def)
  with outcome_exact [OF d(2) g] show ?thesis unfolding s_del_def Let_def d(3) by (auto intro!: impl_answer)
qed

lemma exists_impl: "alone e sv \<Longrightarrow> implements fd sv (s_exists e args (kv_abs (sv_db sv))) (cmd_exists e fd sv args)"
proof -
  assume "alone e sv"
  note a = aloneD [OF this]
  have "kv_exists (sv_db sv) = (\<lambda>k. k \<in> dom (kv_abs (sv_db sv)))" using a kv_exists_ok by (simp add: dom_abs fun_eq_iff)
  with a show ?thesis unfolding s_exists_def cmd_exists_def by (auto intro!: impl_reads)
qed

lemma type_impl: "alone e sv \<Longrightarrow> implements fd sv (s_type e args (kv_abs (sv_db sv))) (cmd_type e fd sv args)"
proof -
  assume "alone e sv"
  note a = aloneD [OF this]
  have "encodes (RStatus (type_name (kv_abs (sv_db sv) k))) (type_reply (map_option snd (kv_get_object (sv_db sv) k)))" for k
    using a kv_find_abs [of "sv_db sv" k]
    by (cases "kv_find (sv_db sv) k")
      (auto simp: encodes.simps type_reply_def type_name_def kv_get_object_def send_reply_def absval_def split: obj_val.split)
  with a show ?thesis unfolding s_type_def cmd_type_def by (auto intro!: impl_reads)
qed

lemma keys_impl: "alone e sv \<Longrightarrow> implements fd sv (s_keys e args (kv_abs (sv_db sv))) (cmd_keys e fd sv args)"
  using kv_keys_ok [of "sv_db sv"] by (auto simp: s_keys_def cmd_keys_def dom_abs dest!: aloneD intro!: impl_reads)

lemma ttl_impl:
  assumes "kv_inv (sv_db sv)"
  shows "implements fd sv (Some (kv_abs (sv_db sv), RInt (if k \<in> dom (kv_abs (sv_db sv)) then 1 else 0)))
    (case kv_set_ttl (sv_db sv) k t of (r, db) \<Rightarrow> answer fd (sv\<lparr>sv_db := db\<rparr>) (send_int (if r = 0 then 1 else 0)))"
proof -
  have "outcome (sv_db sv) (kv_abs (sv_db sv)) (snd (kv_set_ttl (sv_db sv) k t))"
    using outcome_exact [OF set_ttl_abs(2) [OF assms, of k t], of "sv_db sv"] set_ttl_abs(1) [OF assms] by simp
  then show ?thesis using set_ttl_abs(3) [OF assms, of k t] by (auto simp: split_beta intro!: impl_answer)
qed

lemma expire_impl: "alone e sv \<Longrightarrow> implements fd sv (s_expire e args (kv_abs (sv_db sv))) (cmd_expire e fd sv args)"
  using ttl_impl [of sv fd "args ! 1" "now_ms e + arg_i args 2 * 1000"] aloneD [of e sv]
  by (simp add: s_expire_def cmd_expire_def kv_expire_def i64_def split_beta del: split_paired_All)

lemma persist_impl: "alone e sv \<Longrightarrow> implements fd sv (s_persist e args (kv_abs (sv_db sv))) (cmd_persist e fd sv args)"
  using ttl_impl [of sv fd "args ! 1" "- 1"] aloneD [of e sv] by (simp add: s_persist_def cmd_persist_def kv_persist_def)

subsection \<open>Lists\<close>

lemma push_impls:
  assumes "alone e sv" "3 \<le> length args"
  shows "implements fd sv (s_lpush e args (kv_abs (sv_db sv))) (cmd_lpush e fd sv args)"
    "implements fd sv (s_rpush e args (kv_abs (sv_db sv))) (cmd_rpush e fd sv args)"
proof -
  note a = aloneD [OF assms(1)]
  let ?db = "sv_db sv" and ?k = "args ! 1" and ?vs = "drop 2 args"
  have vs: "?vs \<noteq> []" using assms(2) by simp
  have out: "outcome ?db ((kv_abs ?db)(?k \<mapsto> v)) d" if "kv_inv d" "kv_abs d = (kept (e_mem e) ?db ?k)(?k \<mapsto> v)"
    "\<not> overfull ?db \<Longrightarrow> grows (Suc 0) ?db d" for v d
    using a that by (intro outcome_kept [where mem = "e_mem e"]) auto
  from push_loops(1) [of ?db "e_mem e" ?vs ?k] a vs obtain d where
    d: "push_loop (\<lambda>db v. kv_lpush (e_mem e) db ?k v) ?vs ?db None = Inr (Some (length (rev ?vs @ alist (kv_abs ?db) ?k)), d)" "kv_inv d"
      "kv_abs d = (kept (e_mem e) ?db ?k)(?k \<mapsto> AList (rev ?vs @ alist (kv_abs ?db) ?k))" by (auto simp: at_abs simp del: fun_upd_apply)
  have "cmd_lpush e fd sv args = answer fd (sv\<lparr>sv_db := d\<rparr>) (send_int (int (length (rev ?vs @ alist (kv_abs ?db) ?k))))"
    using d(1) by (simp add: cmd_lpush_def answer_len_def)
  moreover have "outcome ?db ((kv_abs ?db)(?k \<mapsto> AList (rev ?vs @ alist (kv_abs ?db) ?k))) d"
    using push_loops_upto(1) [of ?db "e_mem e" ?k ?vs] a d by (intro out) auto
  ultimately show "implements fd sv (s_lpush e args (kv_abs (sv_db sv))) (cmd_lpush e fd sv args)"
    unfolding s_lpush_def Let_def by (simp only: impl_if impl_int)
  from push_loops(2) [of ?db "e_mem e" ?vs ?k] a vs obtain d where
    d: "push_loop (\<lambda>db v. kv_rpush (e_mem e) db ?k v) ?vs ?db None = Inr (Some (length (alist (kv_abs ?db) ?k @ ?vs)), d)" "kv_inv d"
      "kv_abs d = (kept (e_mem e) ?db ?k)(?k \<mapsto> AList (alist (kv_abs ?db) ?k @ ?vs))" by (auto simp: at_abs add.commute simp del: fun_upd_apply)
  have "cmd_rpush e fd sv args = answer fd (sv\<lparr>sv_db := d\<rparr>) (send_int (int (length (alist (kv_abs ?db) ?k @ ?vs))))"
    using d(1) by (simp add: cmd_rpush_def answer_len_def)
  moreover have "outcome ?db ((kv_abs ?db)(?k \<mapsto> AList (alist (kv_abs ?db) ?k @ ?vs))) d"
    using push_loops_upto(2) [of ?db "e_mem e" ?k ?vs] a d by (intro out) auto
  ultimately show "implements fd sv (s_rpush e args (kv_abs (sv_db sv))) (cmd_rpush e fd sv args)"
    unfolding s_rpush_def Let_def by (simp only: impl_if impl_int)
qed

text \<open>An operation that takes no slot has exactly its effect.\<close>

lemma outcome_in_place:
  assumes "kv_inv d" "kv_abs d = a" "grows 0 db d"
  shows "outcome db a d"
  using outcome_exact [OF assms(1), of db] grows_le [OF assms(3), of "Suc 0"] assms(2) by simp

lemma pop_impls:
  assumes "alone e sv"
  shows "implements fd sv (s_lpop e args (kv_abs (sv_db sv))) (cmd_lpop e fd sv args)"
    "implements fd sv (s_rpop e args (kv_abs (sv_db sv))) (cmd_rpop e fd sv args)"
proof -
  note a = aloneD [OF assms]
  let ?xs = "alist (kv_abs (sv_db sv)) (args ! 1)"
  from kv_lpop_ok [of "sv_db sv" "args ! 1"] a obtain d where
    d: "kv_lpop (sv_db sv) (args ! 1) = Inr (if ?xs = [] then None else Some (hd ?xs), d)" "kv_inv d"
      "kv_abs d = put_list (kv_abs (sv_db sv)) (args ! 1) (tl ?xs)" by (auto simp: at_abs put_list_def simp del: fun_upd_apply)
  have "outcome (sv_db sv) (put_list (kv_abs (sv_db sv)) (args ! 1) (tl ?xs)) d"
    using upto_pops(1) [of "sv_db sv" "args ! 1"] d by (intro outcome_in_place) auto
  from impl_bulk [OF this] d(1) show "implements fd sv (s_lpop e args (kv_abs (sv_db sv))) (cmd_lpop e fd sv args)"
    by (simp only: s_lpop_def cmd_lpop_def bindr_simps Let_def prod.case)
  from kv_rpop_ok [of "sv_db sv" "args ! 1"] a obtain d where
    d: "kv_rpop (sv_db sv) (args ! 1) = Inr (if ?xs = [] then None else Some (last ?xs), d)" "kv_inv d"
      "kv_abs d = put_list (kv_abs (sv_db sv)) (args ! 1) (butlast ?xs)" by (auto simp: at_abs put_list_def simp del: fun_upd_apply)
  have "outcome (sv_db sv) (put_list (kv_abs (sv_db sv)) (args ! 1) (butlast ?xs)) d"
    using upto_pops(2) [of "sv_db sv" "args ! 1"] d by (intro outcome_in_place) auto
  from impl_bulk [OF this] d(1) show "implements fd sv (s_rpop e args (kv_abs (sv_db sv))) (cmd_rpop e fd sv args)"
    by (simp only: s_rpop_def cmd_rpop_def bindr_simps Let_def prod.case)
qed

lemma llen_impl: "alone e sv \<Longrightarrow> implements fd sv (s_llen e args (kv_abs (sv_db sv))) (cmd_llen e fd sv args)"
  by (auto simp: s_llen_def cmd_llen_def kv_llen_ok at_abs dest!: aloneD intro!: impl_reads)

lemma lindex_impl: "alone e sv \<Longrightarrow> implements fd sv (s_lindex e args (kv_abs (sv_db sv))) (cmd_lindex e fd sv args)"
proof -
  assume "alone e sv"
  note a = aloneD [OF this]
  let ?xs = "alist (kv_abs (sv_db sv)) (args ! 1)"
  have "kv_lindex (sv_db sv) (args ! 1) i = Inr (map_option ((!) ?xs) (position ?xs i))" for i
    using a by (simp add: kv_lindex_ok at_abs position_def Let_def)
  with a show ?thesis by (auto simp: s_lindex_def cmd_lindex_def Let_def intro!: impl_reads)
qed

lemma lset_impl: "alone e sv \<Longrightarrow> implements fd sv (s_lset e args (kv_abs (sv_db sv))) (cmd_lset e fd sv args)"
proof -
  assume "alone e sv"
  note a = aloneD [OF this]
  let ?xs = "alist (kv_abs (sv_db sv)) (args ! 1)" and ?i = "arg_i args 2"
  from kv_lset_ok [of "sv_db sv" "args ! 1" ?i "args ! 3"] a obtain r d where
    d: "kv_lset (sv_db sv) (args ! 1) ?i (args ! 3) = Inr (r, d)" "kv_inv d"
      "case position ?xs ?i of Some j \<Rightarrow> r = 0 \<and> kv_abs d = (kv_abs (sv_db sv))(args ! 1 \<mapsto> AList (?xs[j := args ! 3]))
         | None \<Rightarrow> r = -1 \<and> kv_abs d = kv_abs (sv_db sv)"
    by (auto simp: at_abs position_def Let_def simp del: fun_upd_apply split: if_splits)
  have "outcome (sv_db sv) (kv_abs d) d"
    using upto_pops(3) [of "sv_db sv" "args ! 1" ?i "args ! 3"] d by (intro outcome_in_place) auto
  with d show ?thesis unfolding s_lset_def cmd_lset_def Let_def by (cases "position ?xs ?i") (auto intro!: impl_answer simp del: fun_upd_apply)
qed

lemma lrem_impl: "alone e sv \<Longrightarrow> implements fd sv (s_lrem e args (kv_abs (sv_db sv))) (cmd_lrem e fd sv args)"
proof -
  assume "alone e sv"
  note a = aloneD [OF this]
  let ?xs = "alist (kv_abs (sv_db sv)) (args ! 1)" and ?c = "arg_i args 2" and ?v = "args ! 3"
  from kv_lrem_ok [of "sv_db sv" "args ! 1" ?c ?v] a obtain d where
    d: "kv_lrem (sv_db sv) (args ! 1) ?c ?v = Inr ((0, rem_count ?c ?v ?xs), d)" "kv_inv d"
      "kv_abs d = put_list (kv_abs (sv_db sv)) (args ! 1) (rem_list ?c ?v ?xs)" by (auto simp: at_abs put_list_def simp del: fun_upd_apply)
  have "outcome (sv_db sv) (put_list (kv_abs (sv_db sv)) (args ! 1) (rem_list ?c ?v ?xs)) d"
    using upto_pops(4) [of "sv_db sv" "args ! 1" ?c ?v] d by (intro outcome_in_place) auto
  with d(1) show ?thesis by (simp add: s_lrem_def cmd_lrem_def impl_int Let_def)
qed

lemma outcome_after:
  assumes "grows 0 db d" "outcome d a d'"
  shows "outcome db a d'"
proof -
  have "room d n" if "room db n" for n using assms(1) that by (auto simp: grows_def room_def)
  with assms(2) show ?thesis by (auto simp: outcome_def)
qed

lemma rpoplpush_impl: "alone e sv \<Longrightarrow> implements fd sv (s_rpoplpush e args (kv_abs (sv_db sv))) (cmd_rpoplpush e fd sv args)"
proof -
  assume "alone e sv"
  note a = aloneD [OF this]
  let ?a = "kv_abs (sv_db sv)" and ?src = "args ! 1" and ?dst = "args ! 2"
  let ?xs = "alist ?a ?src"
  from kv_rpop_ok [of "sv_db sv" ?src] a obtain d where
    d: "kv_rpop (sv_db sv) ?src = Inr (if ?xs = [] then None else Some (last ?xs), d)" "kv_inv d"
      "kv_abs d = put_list ?a ?src (butlast ?xs)" by (auto simp: at_abs put_list_def simp del: fun_upd_apply)
  have g: "grows 0 (sv_db sv) d" using upto_pops(2) [of "sv_db sv" ?src] d(1) by simp
  have cg: "can_grow (e_mem e) d" using kv_rpop_can_grow [OF d(1)] a by simp
  show ?thesis
  proof (cases "?xs = []")
    case True
    then have "put_list ?a ?src (butlast ?xs) = ?a" by (auto simp: put_list_def is_list_def alist_def split: option.splits aval.splits)
    then have "outcome (sv_db sv) ?a d" using d g by (intro outcome_in_place) auto
    from impl_bulk [OF this, of fd None] True d(1) show ?thesis by (simp add: s_rpoplpush_def cmd_rpoplpush_def kv_lpoprpush_def)
  next
    case False
    then have p: "kv_abs d = ?a(?src \<mapsto> AList (butlast ?xs))"
      unfolding d(3) by (auto simp: put_list_def is_list_def alist_def split: option.splits aval.splits)
    from kv_lpush_ok [OF d(2) cg, of ?dst "last ?xs"] obtain n d' where
      d': "kv_lpush (e_mem e) d ?dst (last ?xs) = Inr (n, d')" "kv_inv d'"
        "kv_abs d' = (kept (e_mem e) d ?dst)(?dst \<mapsto> AList (last ?xs # alist (kv_abs d) ?dst))" by (auto simp: at_abs)
    have "outcome d ((kv_abs d)(?dst \<mapsto> AList (last ?xs # alist (kv_abs d) ?dst))) d'"
      using upto_push(1) [OF upto_ensure_list, of d "e_mem e" ?dst "last ?xs"] d' by (intro outcome_kept [OF d(2) cg]) auto
    from impl_bulk [OF outcome_after [OF g this], of fd "Some (last ?xs)"] False d(1) d'(1) show ?thesis
      unfolding p by (simp add: s_rpoplpush_def cmd_rpoplpush_def kv_lpoprpush_def Let_def split_beta)
  qed
qed

subsection \<open>Sets and hashes\<close>

lemma sadd_impl: "alone e sv \<Longrightarrow> implements fd sv (s_sadd e args (kv_abs (sv_db sv))) (cmd_sadd e fd sv args)"
proof -
  assume "alone e sv"
  note a = aloneD [OF this]
  let ?s = "aset (kv_abs (sv_db sv)) (args ! 1)" and ?ms = "drop 2 args"
  from kv_sadd_ok [of "sv_db sv" "e_mem e" "args ! 1" ?ms] a obtain d where
    d: "kv_sadd (e_mem e) (sv_db sv) (args ! 1) ?ms = Inr ((0, Some (int (card (set ?ms - ?s)))), d)" "kv_inv d"
      "kv_abs d = (kept (e_mem e) (sv_db sv) (args ! 1))(args ! 1 \<mapsto> ASet (?s \<union> set ?ms))" by (auto simp: at_abs)
  have "outcome (sv_db sv) ((kv_abs (sv_db sv))(args ! 1 \<mapsto> ASet (?s \<union> set ?ms))) d"
    using upto_sadd [of "sv_db sv" "e_mem e" "args ! 1" ?ms] a d by (intro outcome_kept [where mem = "e_mem e"]) auto
  from impl_int [OF this] d(1) show ?thesis by (simp add: s_sadd_def cmd_sadd_def Let_def)
qed

lemma srem_impl: "alone e sv \<Longrightarrow> implements fd sv (s_srem e args (kv_abs (sv_db sv))) (cmd_srem e fd sv args)"
proof -
  assume "alone e sv"
  note a = aloneD [OF this]
  let ?a = "kv_abs (sv_db sv)" and ?k = "args ! 1" and ?ms = "drop 2 args"
  from kv_srem_ok [of "sv_db sv" ?k ?ms] a obtain d where
    d: "kv_srem (sv_db sv) ?k ?ms = ((0, int (card (set ?ms \<inter> aset ?a ?k))), d)" "kv_inv d"
      "kv_abs d = (if \<exists>s. ?a ?k = Some (ASet s) then ?a(?k \<mapsto> ASet (aset ?a ?k - set ?ms)) else ?a)"
    by (auto simp: at_abs fun_eq_iff)
  have "outcome (sv_db sv) (kv_abs d) d" using grows_rem(1) [of "sv_db sv" ?k ?ms] d(1,2) by (intro outcome_in_place) auto
  from impl_int [OF this] d(1,3) show ?thesis
    by (cases "\<exists>s. ?a ?k = Some (ASet s)") (auto simp: s_srem_def cmd_srem_def Let_def aset_def split: option.splits aval.splits)
qed

lemma set_read_impls:
  assumes "alone e sv"
  shows "implements fd sv (s_sismember e args (kv_abs (sv_db sv))) (cmd_sismember e fd sv args)"
    "implements fd sv (s_scard e args (kv_abs (sv_db sv))) (cmd_scard e fd sv args)"
    "implements fd sv (s_smembers e args (kv_abs (sv_db sv))) (cmd_smembers e fd sv args)"
  using aloneD [OF assms] set_reads [of "sv_db sv" "args ! 1"]
  by (auto simp: s_sismember_def cmd_sismember_def s_scard_def cmd_scard_def s_smembers_def cmd_smembers_def answer_list_def at_abs
      intro!: impl_reads)

lemma hset_impl: "alone e sv \<Longrightarrow> implements fd sv (s_hset e args (kv_abs (sv_db sv))) (cmd_hset e fd sv args)"
proof -
  assume "alone e sv"
  note a = aloneD [OF this]
  let ?h = "ahash (kv_abs (sv_db sv)) (args ! 1)" and ?n = "if args ! 2 \<in> dom (ahash (kv_abs (sv_db sv)) (args ! 1)) then 0 else 1 :: int"
  from kv_hset_ok [of "sv_db sv" "e_mem e" "args ! 1" "args ! 2" "args ! 3"] a obtain d where
    d: "kv_hset (e_mem e) (sv_db sv) (args ! 1) (args ! 2) (args ! 3) = Inr ((0, Some ?n), d)" "kv_inv d"
      "kv_abs d = (kept (e_mem e) (sv_db sv) (args ! 1))(args ! 1 \<mapsto> AHash (?h(args ! 2 \<mapsto> Some (args ! 3))))" unfolding at_abs by blast
  have "outcome (sv_db sv) ((kv_abs (sv_db sv))(args ! 1 \<mapsto> AHash (?h(args ! 2 \<mapsto> Some (args ! 3))))) d"
    using upto_hset [of "sv_db sv" "e_mem e" "args ! 1" "args ! 2" "args ! 3"] a d by (intro outcome_kept [where mem = "e_mem e"]) auto
  from impl_int [OF this] d(1) show ?thesis by (simp only: s_hset_def cmd_hset_def Let_def bindr_simps prod.case option.case impl_if)
qed

lemma hdel_impl: "alone e sv \<Longrightarrow> implements fd sv (s_hdel e args (kv_abs (sv_db sv))) (cmd_hdel e fd sv args)"
proof -
  assume "alone e sv"
  note a = aloneD [OF this]
  let ?a = "kv_abs (sv_db sv)" and ?k = "args ! 1" and ?ms = "drop 2 args"
  from kv_hdel_ok [of "sv_db sv" ?k ?ms] a obtain d where
    d: "kv_hdel (sv_db sv) ?k ?ms = ((0, int (card (set ?ms \<inter> dom (ahash ?a ?k)))), d)" "kv_inv d"
      "kv_abs d = (if \<exists>s. ?a ?k = Some (AHash s) then ?a(?k \<mapsto> AHash (ahash ?a ?k |` (- set ?ms))) else ?a)"
    by (auto simp: at_abs fun_eq_iff)
  have "outcome (sv_db sv) (kv_abs d) d" using grows_rem(2) [of "sv_db sv" ?k ?ms] d(1,2) by (intro outcome_in_place) auto
  from impl_int [OF this] d(1,3) show ?thesis
    by (cases "\<exists>s. ?a ?k = Some (AHash s)") (auto simp: s_hdel_def cmd_hdel_def Let_def ahash_def split: option.splits aval.splits)
qed

lemma hash_read_impls:
  assumes "alone e sv"
  shows "implements fd sv (s_hget e args (kv_abs (sv_db sv))) (cmd_hget e fd sv args)"
    "implements fd sv (s_hexists e args (kv_abs (sv_db sv))) (cmd_hexists e fd sv args)"
    "implements fd sv (s_hlen e args (kv_abs (sv_db sv))) (cmd_hlen e fd sv args)"
    "implements fd sv (s_hkeys e args (kv_abs (sv_db sv))) (cmd_hkeys e fd sv args)"
    "implements fd sv (s_hvals e args (kv_abs (sv_db sv))) (cmd_hvals e fd sv args)"
    "implements fd sv (s_hgetall e args (kv_abs (sv_db sv))) (cmd_hgetall e fd sv args)"
proof -
  note a = aloneD [OF assms]
  note r = hash_reads [of "sv_db sv" "args ! 1", unfolded at_abs]
  show "implements fd sv (s_hget e args (kv_abs (sv_db sv))) (cmd_hget e fd sv args)"
    "implements fd sv (s_hexists e args (kv_abs (sv_db sv))) (cmd_hexists e fd sv args)"
    "implements fd sv (s_hlen e args (kv_abs (sv_db sv))) (cmd_hlen e fd sv args)"
    using a r(1-3) by (auto simp: s_hget_def cmd_hget_def s_hexists_def cmd_hexists_def s_hlen_def cmd_hlen_def intro!: impl_reads)
  let ?h = "ahash (kv_abs (sv_db sv)) (args ! 1)"
  from r(4) a obtain fs where fs: "kv_hkeys (sv_db sv) (args ! 1) = (0, fs)" "fs \<in> field_orders ?h"
    "kv_hvals (sv_db sv) (args ! 1) = (0, map (field_val ?h) fs)"
    "kv_hgetall (sv_db sv) (args ! 1) = (0, concat (map (\<lambda>f. [f, field_val ?h f]) fs))" by (auto simp: field_orders_def)
  show "implements fd sv (s_hkeys e args (kv_abs (sv_db sv))) (cmd_hkeys e fd sv args)"
    "implements fd sv (s_hvals e args (kv_abs (sv_db sv))) (cmd_hvals e fd sv args)"
    "implements fd sv (s_hgetall e args (kv_abs (sv_db sv))) (cmd_hgetall e fd sv args)"
    unfolding s_hkeys_def cmd_hkeys_def s_hvals_def cmd_hvals_def s_hgetall_def cmd_hgetall_def Let_def fs(1,3,4) answer_list_def
    using a fs(2) by (auto intro!: impl_reads)
qed

subsection \<open>Sorted sets\<close>

lemma zadd_impl:
  assumes "alone e sv" "4 \<le> length args"
  shows "implements fd sv (s_zadd e args (kv_abs (sv_db sv))) (cmd_zadd e fd sv args)"
proof -
  note a = aloneD [OF assms(1)]
  let ?a = "kv_abs (sv_db sv)" and ?k = "args ! 1"
  let ?es = "azset ?a ?k" and ?ps = "score_pairs e (drop 2 args)"
  obtain s m rest where ws: "drop 2 args = s # m # rest"
    using assms(2) by (auto simp: Suc_le_length_iff numeral_eq_Suc)
  show ?thesis
  proof (cases "length ?ps = 1 \<and> zsorted ?es \<and> \<not> dbl_nan (fst (hd ?ps))")
    case True
    then have ps: "?ps = [(e_strtod e s, m)]" "score_pairs e rest = []" using ws by auto
    let ?e1 = "zins (e_strtod e s, m) ?es"
    from kv_zadd_ok [of "sv_db sv" "e_mem e" ?k "e_strtod e s" "e_rand e 0" m] a True ws obtain d where
      d: "kv_zadd (e_mem e) (e_rand e 0) (sv_db sv) ?k (e_strtod e s) m = Inr ((0, Some 1), d)" "kv_inv d"
        "kv_abs d = (kept (e_mem e) (sv_db sv) ?k)(?k \<mapsto> AZset ?e1)" "zsorted ?e1" by (auto simp: at_abs simp del: fun_upd_apply)
    have k: "kv_abs d ?k = Some (AZset ?e1)" using d(3) by simp
    from zadd_loop_present_ok [OF d(2) k d(4), of e rest "Suc 0" 1] ps obtain d' where
      d': "zadd_loop e (Suc 0) ?k rest d 1 = Inr (1, d')" "kv_inv d'" "grows 0 d d'"
        "kv_abs d' = (kv_abs d)(?k \<mapsto> AZset (zins (hd ?ps) ?es))" by (auto simp del: fun_upd_apply)
    have "grows (Suc 0) (sv_db sv) d'" if "\<not> overfull (sv_db sv)"
      using upto_zadd [OF that, of "e_mem e" "e_rand e 0" ?k "e_strtod e s" m] d(1) grows_trans [OF _ d'(3), of "Suc 0"] by simp
    then have "outcome (sv_db sv) (?a(?k \<mapsto> AZset (zins (hd ?ps) ?es))) d'"
      using a d'(2,4) d(3) by (intro outcome_kept [where mem = "e_mem e"]) auto
    from impl_int [OF this] d(1) d'(1) ws ps show ?thesis by (simp add: s_zadd_def cmd_zadd_def Let_def)
  qed (auto simp: s_zadd_def Let_def)
qed

lemma zset_read_impls:
  assumes "alone e sv"
  shows "implements fd sv (s_zscore e args (kv_abs (sv_db sv))) (cmd_zscore e fd sv args)"
    "implements fd sv (s_zcard e args (kv_abs (sv_db sv))) (cmd_zcard e fd sv args)"
    "implements fd sv (s_zrange e args (kv_abs (sv_db sv))) (cmd_zrange e fd sv args)"
    "implements fd sv (s_zrevrange e args (kv_abs (sv_db sv))) (cmd_zrevrange e fd sv args)"
proof -
  note a = aloneD [OF assms]
  have "kv_zscore (sv_db sv) k m = Inr (case find (\<lambda>p. snd p = m) (azset (kv_abs (sv_db sv)) k) of Some (s, _) \<Rightarrow> (s, 1) | None \<Rightarrow> (0, 0))" for k m
    using a kv_zscore_ok by (simp add: at_abs)
  with a impl_reads(1) [of sv "RBulk None"] show "implements fd sv (s_zscore e args (kv_abs (sv_db sv))) (cmd_zscore e fd sv args)"
    by (auto simp: s_zscore_def cmd_zscore_def intro!: impl_reads split: option.split)
  show "implements fd sv (s_zcard e args (kv_abs (sv_db sv))) (cmd_zcard e fd sv args)"
    using a by (auto simp: s_zcard_def cmd_zcard_def kv_zcard_ok at_abs intro!: impl_reads)
  show "implements fd sv (s_zrange e args (kv_abs (sv_db sv))) (cmd_zrange e fd sv args)"
    "implements fd sv (s_zrevrange e args (kv_abs (sv_db sv))) (cmd_zrevrange e fd sv args)"
    using a by (auto simp: s_zrange_def cmd_zrange_def s_zrevrange_def cmd_zrevrange_def kv_zrange_ok at_abs intro!: impl_reads)
qed

lemma zrank_impl: "alone e sv \<Longrightarrow> implements fd sv (s_zrank e args (kv_abs (sv_db sv))) (cmd_zrank e fd sv args)"
  using kv_zrank_position [of "sv_db sv" "args ! 1" "args ! 2", unfolded at_abs]
  by (auto simp: s_zrank_def cmd_zrank_def Let_def dest!: aloneD intro!: impl_reads)

lemma zrevrank_impl: "alone e sv \<Longrightarrow> implements fd sv (s_zrevrank e args (kv_abs (sv_db sv))) (cmd_zrevrank e fd sv args)"
  using kv_zrevrank_ok [of "sv_db sv" "args ! Suc 0" "args ! 2", unfolded at_abs]
  by (auto simp: s_zrevrank_def cmd_zrevrank_def Let_def dest!: aloneD intro!: impl_reads)

subsection \<open>Lines\<close>

lemmas command_impls =
  ping_impl quit_impl set_impl setnx_impl setex_impl get_impl getrange_impl append_impl strlen_impl counter_impls
  del_impl exists_impl type_impl keys_impl expire_impl persist_impl push_impls pop_impls llen_impl lindex_impl lset_impl lrem_impl
  rpoplpush_impl sadd_impl srem_impl set_read_impls hset_impl hdel_impl hash_read_impls zadd_impl zset_read_impls zrank_impl zrevrank_impl

text \<open>The two tables agree entry by entry.\<close>

definition entry_impl :: "env \<Rightarrow> int \<Rightarrow> server \<Rightarrow> string list \<Rightarrow> string \<times> nat \<times> command \<Rightarrow> string \<times> nat \<times> spec \<Rightarrow> bool" where
  "entry_impl e fd sv args c s \<longleftrightarrow> fst c = fst s \<and> fst (snd c) = fst (snd s) \<and>
     (fst (snd c) \<le> length args \<longrightarrow> implements fd sv ((snd (snd s)) e args (kv_abs (sv_db sv))) ((snd (snd c)) e fd sv args))"

lemma tables_agree: "alone e sv \<Longrightarrow> list_all2 (entry_impl e fd sv args) command_table spec_table"
  unfolding command_table_def spec_table_def by (simp add: entry_impl_def s_none_def command_impls)

lemma route_impl:
  assumes "list_all2 (entry_impl e fd sv args) ct st"
  shows "case find (\<lambda>(name, least, f). same_nocase (hd args) name \<and> least \<le> length args) st of
      Some (_, _, s) \<Rightarrow> (\<exists>f. route ct args = Some f \<and> implements fd sv (s e args (kv_abs (sv_db sv))) (f e fd sv args))
    | None \<Rightarrow> route ct args = None"
  using assms
proof (induction ct st rule: list_all2_induct)
  case (Cons c ct s st)
  then show ?case by (cases c; cases s) (auto simp: entry_impl_def split: option.splits)
qed simp


text \<open>What a line sends: the bytes of the specified replies, to its own connection.\<close>

definition sends_replies :: "int \<Rightarrow> reply list \<Rightarrow> sends \<Rightarrow> bool" where
  "sends_replies fd rs out \<longleftrightarrow> list_all2 (\<lambda>r m. fst m = fd \<and> encodes r (snd m)) rs out"

lemma line_impl:
  assumes a: "alone e sv" and l: "line_spec e line (kv_abs (sv_db sv)) = Some (a', rs)" "\<forall>r \<in> set rs. fits r"
  shows "\<exists>db' out. process_command e fd sv line = Inr (sv\<lparr>sv_db := db'\<rparr>, out) \<and> sends_replies fd rs out \<and> outcome (sv_db sv) a' db'"
proof (cases "parse_line line MAX_ARGS = []")
  case True
  with l(1) outcome_refl [of "sv_db sv"] aloneD [OF a] show ?thesis
    by (auto simp: line_spec_def process_command_def sends_replies_def intro!: exI [of _ "sv_db sv"])
next
  case False
  let ?args = "parse_line line MAX_ARGS"
  from False l(1) obtain r where r: "command_spec e ?args (kv_abs (sv_db sv)) = Some (a', r)" "rs = [r]"
    by (auto simp: line_spec_def split: list.splits)
  have "implements fd sv (command_spec e ?args (kv_abs (sv_db sv))) (process_command e fd sv line)"
    using route_impl [OF tables_agree [OF a, of fd ?args]] False aloneD [OF a] impl_reads(1) [of sv "RErr ''ERR unknown command''"]
    by (auto simp: command_spec_def process_command_def Let_def split: option.splits)
  with r l(2) show ?thesis by (auto simp: implements_def sends_replies_def)
qed

end
