(* ===== verification/Server_Start.thy ===== *)
theory Server_Start
  imports Server_Safety
begin

text \<open>
  Start and end of the server (\<open>main\<close> and \<open>load_or_create_nodeid_from_config\<close> of
  \<open>src/src/server/server.c\<close>): the options, the identity file of a node, opening the store and
  joining the cluster, and what is saved at the end. The sockets and the signal are in the theory
  Listener.
\<close>

subsection \<open>The clocks\<close>

text \<open>
  \<open>now_usec\<close> of \<open>src/src/core/kvdb.c\<close> and \<open>msec_now\<close> of \<open>src/src/cluster/cluster.c\<close> as functions of what
  \<open>gettimeofday\<close> returns. Elsewhere in the model the time is an argument.
\<close>

definition now_usec :: "nat \<Rightarrow> nat \<Rightarrow> u64" where
  "now_usec tv_sec tv_usec = of_nat tv_sec * 1000000 + of_nat tv_usec"

definition msec_now :: "nat \<Rightarrow> nat \<Rightarrow> u64" where
  "msec_now tv_sec tv_usec = of_nat tv_sec * 1000 + of_nat tv_usec div 1000"

lemma clocks_exact:
  assumes "s < 2 ^ 43" "us < 1000000"
  shows "unat (now_usec s us) = s * 1000000 + us" "unat (msec_now s us) = unat (now_usec s us) div 1000"
proof -
  show u: "unat (now_usec s us) = s * 1000000 + us"
    using assms by (simp add: now_usec_def unat_word_ariths unat_of_nat take_bit_eq_mod)
  show "unat (msec_now s us) = unat (now_usec s us) div 1000"
    unfolding u using assms by (simp add: msec_now_def unat_word_ariths unat_of_nat take_bit_eq_mod unat_div)
qed

subsection \<open>The options\<close>

definition DEFAULT_PORT :: int where
  "DEFAULT_PORT = 6379"

record options =
  op_port :: int
  op_path :: "string option"
  op_conf :: "string option"
  op_bus :: int

definition default_options :: options where
  "default_options = \<lparr>op_port = DEFAULT_PORT, op_path = None, op_conf = None, op_bus = 0\<rparr>"

text \<open>An option needs a value after it; anything else is skipped.\<close>

fun parse_options :: "string list \<Rightarrow> options \<Rightarrow> options res" where
  "parse_options (a # v # rest) op =
     (if strcmp a ''-p'' = 0 then bindr (atoi v) (\<lambda>n. parse_options rest (op\<lparr>op_port := n\<rparr>))
      else if strcmp a ''-f'' = 0 then parse_options rest (op\<lparr>op_path := Some v\<rparr>)
      else if strcmp a ''-c'' = 0 then parse_options rest (op\<lparr>op_conf := Some v\<rparr>)
      else if strcmp a ''-C'' = 0 then bindr (atoi v) (\<lambda>n. parse_options rest (op\<lparr>op_bus := n\<rparr>))
      else parse_options (v # rest) op)"
| "parse_options _ op = Inr op"

subsection \<open>The identity of a node\<close>

definition nodeid_path :: "string \<Rightarrow> int \<Rightarrow> string" where
  "nodeid_path base port = snprintf_cut 256 (base @ ''.'' @ int_dec port)"

text \<open>\<open>fgets\<close> into 16 bytes, cut at the end of the line.\<close>

definition read_nodeid :: "string \<Rightarrow> string" where
  "read_nodeid bytes = takeWhile (\<lambda>c. c \<noteq> CHR 0x0D \<and> c \<noteq> newline) (cstr_of (take 15 bytes))"

text \<open>\<open>"n%05x"\<close> of a number below \<open>0x100000\<close>.\<close>

definition hex_digit :: "nat \<Rightarrow> char" where
  "hex_digit d = char_of (if d < 10 then 48 + d else 87 + d)"

definition random_nodeid :: "nat \<Rightarrow> string" where
  "random_nodeid usec = CHR ''n'' # map (\<lambda>i. hex_digit (usec mod 0x100000 div 16 ^ i mod 16)) [4, 3, 2, 1, 0]"

definition write_nodeid :: "(string \<Rightarrow> bool) \<Rightarrow> string \<Rightarrow> string \<Rightarrow> file_system \<Rightarrow> file_system" where
  "write_nodeid writable path i fs = (if writable path then fs(path \<mapsto> i @ [newline]) else fs)"

definition load_or_create_nodeid ::
  "(string \<Rightarrow> bool) \<Rightarrow> nat \<Rightarrow> string \<Rightarrow> int \<Rightarrow> string \<Rightarrow> file_system \<Rightarrow> string \<times> file_system" where
  "load_or_create_nodeid writable usec base port id_from_config fs =
     (let path = nodeid_path base port in
      case fs path of
        Some bytes \<Rightarrow>
          if strcmp (read_nodeid bytes) id_from_config \<noteq> 0
          then (let i = take 15 id_from_config in (i, write_nodeid writable path i fs))
          else (read_nodeid bytes, fs)
      | None \<Rightarrow>
          (let i = (if id_from_config \<noteq> [] then take 15 id_from_config else random_nodeid usec) in
           (i, write_nodeid writable path i fs)))"

subsection \<open>Start\<close>

text \<open>The part of \<open>main\<close> that sets up the cluster; \<open>None\<close> when it gives up.\<close>

definition start_cluster ::
  "(string \<Rightarrow> bool) \<Rightarrow> (cluster_node_conf \<Rightarrow> int) \<Rightarrow> nat \<Rightarrow> u64 \<Rightarrow> options \<Rightarrow> string \<Rightarrow> server \<Rightarrow> (server \<times> sends) option res" where
  "start_cluster writable dial usec now op conf sv =
     bindr (if op_bus op \<noteq> 0 then Inr (op_bus op)
            else if in_i32 (op_port op + 10000) then Inr (op_port op + 10000) else Inl SignedOverflow) (\<lambda>bus.
     bindr (cluster_conf_load (sv_fs sv conf) (op_port op) bus) (\<lambda>cfg. case cfg of
       None \<Rightarrow> Inr None
     | Some cfg \<Rightarrow>
         (let me = cf_my_node cfg;
              my_id = (if 0 \<le> me \<and> me < int (length (cf_nodes cfg)) then n_id (cf_nodes cfg ! nat me) else '''');
              (i, fs) = load_or_create_nodeid writable usec (case op_path op of Some p \<Rightarrow> p | None \<Rightarrow> ''./.nodeid'') (op_port op) my_id (sv_fs sv);
              (cs, out) = cluster_init dial now cfg in
          Inr (Some (sv\<lparr>sv_cs := Some cs, sv_id := i, sv_fs := fs\<rparr>, out)))))"

definition server_start ::
  "(string \<Rightarrow> bool) \<Rightarrow> (cluster_node_conf \<Rightarrow> int) \<Rightarrow> env \<Rightarrow> nat \<Rightarrow> string list \<Rightarrow> file_system \<Rightarrow> (server \<times> sends) option res" where
  "server_start writable dial e usec args fs =
     bindr (parse_options args default_options) (\<lambda>op.
     bindr (kv_open (e_mem e) (e_us e) (op_path op) fs) (\<lambda>db.
     let sv = \<lparr>sv_db = db, sv_ps = pubsub_create, sv_cs = None, sv_id = '''', sv_fs = fs\<rparr> in
     case op_conf op of
       None \<Rightarrow> Inr (Some (sv, []))
     | Some conf \<Rightarrow> start_cluster writable dial usec (of_int (now_ms e)) op conf sv))"

text \<open>The end of \<open>main\<close>, after the workers have finished.\<close>

definition server_stop :: "(string \<Rightarrow> bool) \<Rightarrow> server \<Rightarrow> (int list \<times> file_system) res" where
  "server_stop writable sv =
     bindr (case sv_cs sv of None \<Rightarrow> Inr [] | Some cs \<Rightarrow> cluster_shutdown cs) (\<lambda>fds.
     bindr (kv_close writable (sv_db sv) (sv_fs sv)) (\<lambda>fs. Inr (fds, fs)))"

subsection \<open>The initial state\<close>

lemma load_loop_inv: "kv_inv db \<Longrightarrow> load_loop mem now n bs db = Inr db' \<Longrightarrow> kv_inv db'"
proof (induction mem now n bs db rule: load_loop.induct)
  case (2 mem now n bs db)
  show ?case
  proof (cases "load_record bs")
    case (Inr p)
    show ?thesis
    proof (cases p)
      case None
      with Inr "2.prems" show ?thesis by simp
    next
      case (Some q)
      obtain k v m bs' where q: "q = ((k, v, m), bs')" by (metis prod_cases4 surj_pair)
      obtain r d where d: "kv_set_meta mem now db k v m = Inr (r, d)" "kv_inv d"
        using kv_set_meta_ok [OF "2.prems"(1), of mem now k v m] by blast
      then have "load_loop mem now n bs' d = Inr db'" using "2.prems"(2) Inr Some q by simp
      with "2.IH" d(2) Some q show ?thesis by blast
    qed
  qed (use "2.prems" in simp)
qed simp

lemma kv_open_inv: "kv_open mem now path fs = Inr db \<Longrightarrow> kv_inv db"
  by (auto simp: kv_open_def load_file_def kv_init_inv intro: load_loop_inv [OF kv_init_inv] split: option.splits)

lemma server_start_inv:
  "server_start writable dial e usec args fs = Inr (Some (sv, out)) \<Longrightarrow> sv_inv sv \<and> sv_ps sv = []"
proof -
  assume s: "server_start writable dial e usec args fs = Inr (Some (sv, out))"
  have "sv_db sv = sv_db sv0 \<and> sv_ps sv = sv_ps sv0" if "start_cluster writable dial usec now op conf sv0 = Inr (Some (sv, out))" for now op conf sv0
    using that by (auto simp: start_cluster_def Let_def split_beta split: option.splits)
  note c = this
  from s obtain op db where o: "kv_open (e_mem e) (e_us e) (op_path op) fs = Inr db"
    "(case op_conf op of None \<Rightarrow> Inr (Some (\<lparr>sv_db = db, sv_ps = [], sv_cs = None, sv_id = '''', sv_fs = fs\<rparr>, []))
      | Some conf \<Rightarrow> start_cluster writable dial usec (of_int (now_ms e)) op conf \<lparr>sv_db = db, sv_ps = [], sv_cs = None, sv_id = '''', sv_fs = fs\<rparr>)
      = Inr (Some (sv, out))" by (auto simp: server_start_def Let_def pubsub_create_def)
  then have "sv_db sv = db \<and> sv_ps sv = []" using c by (fastforce split: option.splits)
  with kv_open_inv [OF o(1)] show ?thesis by (simp add: sv_inv_def ps_inv_def)
qed

text \<open>A node keeps the identity it wrote, as long as its configuration agrees.\<close>

lemma nodeid_stable:
  assumes "load_or_create_nodeid writable usec base port cid fs = (i, fs')" "writable (nodeid_path base port)"
    "cid \<noteq> []" "length cid < 16" "is_cstr cid" "CHR 0x0D \<notin> set cid" "newline \<notin> set cid"
  shows "i = cid" "load_or_create_nodeid writable usec' base port cid fs' = (cid, fs')"
proof -
  have rd: "read_nodeid (cid @ [newline]) = cid"
  proof -
    have "take 15 (cid @ [newline]) = cid \<or> take 15 (cid @ [newline]) = cid @ [newline]"
      using assms(4) by (cases "length cid = 15") auto
    moreover have "cstr_of cid = cid" "cstr_of (cid @ [newline]) = cid @ [newline]" using assms(5) by (auto intro!: cstr_of_id simp: is_cstr_def)
    moreover have "\<forall>c \<in> set cid. c \<noteq> CHR 0x0D \<and> c \<noteq> newline" using assms(6,7) by blast
    then have "takeWhile (\<lambda>c. c \<noteq> CHR 0x0D \<and> c \<noteq> newline) cid = cid" "takeWhile (\<lambda>c. c \<noteq> CHR 0x0D \<and> c \<noteq> newline) (cid @ [newline]) = cid"
      by (simp_all add: takeWhile_eq_all_conv takeWhile_append2)
    ultimately show ?thesis unfolding read_nodeid_def by metis
  qed
  let ?p = "nodeid_path base port"
  have "i = cid \<and> (fs' ?p = Some (cid @ [newline]) \<or> (\<exists>bytes. fs' ?p = Some bytes \<and> read_nodeid bytes = cid))"
  proof (cases "fs ?p")
    case None
    with assms(1-4) show ?thesis by (auto simp: load_or_create_nodeid_def write_nodeid_def Let_def)
  next
    case (Some bytes)
    with assms(1-4) show ?thesis by (cases "read_nodeid bytes = cid") (auto simp: load_or_create_nodeid_def write_nodeid_def Let_def)
  qed
  then show "i = cid" "load_or_create_nodeid writable usec' base port cid fs' = (cid, fs')"
    using rd by (auto simp: load_or_create_nodeid_def Let_def)
qed

end
