(* ===== verification/System_Steps.thy ===== *)
theory System_Steps
  imports Server_Start
begin

text \<open>
  The server as a state machine that does one thing at a time: its steps are an accepted connection,
  a whole line of a client, the end of a connection, a turn of the expiry thread, and the steps of the
  cluster (a line on the bus, a turn of the replication and of the heartbeat daemon), in any order. A
  line is a step when the store can grow if it has to. These are the serial runs of the server: the eight
  workers also interleave inside a line, which is the subject of \<open>Lock_Sections\<close>, \<open>List_Race\<close> and \<open>Lock_Order\<close>.

  The invariant of the states that serial runs reach: the store and the channels are well-formed, and
  every subscriber is an open connection.
\<close>

subsection \<open>Subscriptions\<close>

lemma subscribe_fds: "all_fds (snd (pubsub_subscribe ps fd w ch)) = insert fd (all_fds ps)"
proof (cases "ch_pos ps ch")
  case None
  then show ?thesis by (simp add: pubsub_subscribe_def ps_get_or_create_def all_fds_def)
next
  case (Some i)
  then have i: "i < length ps" using ch_pos_subs by blast
  let ?c = "(ps ! i)\<lparr>ch_subs := \<lparr>cs_fd = fd, cs_wlock = w\<rparr> # ch_subs (ps ! i)\<rparr>"
  have "all_fds (xs @ (c\<lparr>ch_subs := \<lparr>cs_fd = fd, cs_wlock = w\<rparr> # ch_subs c\<rparr>) # ys) = insert fd (all_fds (xs @ c # ys))" for xs c ys
    by (auto simp: all_fds_def)
  from this [of "take i ps" "ps ! i" "drop (Suc i) ps"] i
  have "all_fds (ps[i := ?c]) = insert fd (all_fds ps)" by (simp add: upd_conv_take_nth_drop id_take_nth_drop [symmetric])
  with Some show ?thesis by (simp add: pubsub_subscribe_def ps_get_or_create_def Let_def)
qed

lemma drop_first_subset: "set (drop_first fd ss) \<subseteq> set ss"
  by (induction ss) auto



lemma unsubscribe_fds: "all_fds (pubsub_unsubscribe ps fd ch) \<subseteq> all_fds ps"
proof (induction ps)
  case (Cons c ps)
  then show ?case using drop_first_subset [of fd "ch_subs c"] by (auto simp: all_fds_def)
qed simp

lemma unsubscribe_all_fds: "all_fds (pubsub_unsubscribe_all ps fd) = all_fds ps - {fd}"
  by (induction ps) (auto simp: all_fds_def drop_all_filter)

lemma unsubscribe_inv: "ps_inv ps \<Longrightarrow> ps_inv (pubsub_unsubscribe ps fd ch)"
  by (induction ps) (auto simp: ps_inv_def)

lemma unsubscribe_all_inv: "ps_inv ps \<Longrightarrow> ps_inv (pubsub_unsubscribe_all ps fd)"
  by (induction ps) (auto simp: ps_inv_def)

text \<open>The two loops send to their own connection and add no other one.\<close>

abbreviation own :: "int \<Rightarrow> pubsub_mgr \<Rightarrow> pubsub_mgr \<times> sends \<Rightarrow> bool" where
  "own fd ps p \<equiv> ps_inv (fst p) \<and> all_fds (fst p) \<subseteq> insert fd (all_fds ps) \<and> (\<forall>m \<in> set (snd p). fst m = fd)"

lemma safe_snprintf: "safe uaf (\<lambda>_. True) (snprintf_bytes n s)"
  by (simp add: snprintf_bytes_def)

lemma subscribe_loop_safe: "ps_inv ps \<Longrightarrow> safe uaf (own fd ps) (subscribe_loop fd chs ps)"
proof (induction fd chs ps rule: subscribe_loop.induct)
  case (2 fd ch chs ps)
  obtain r d where d: "pubsub_subscribe ps fd (Some (nat fd)) ch = (r, d)" by fastforce
  have inv: "ps_inv d" "all_fds d = insert fd (all_fds ps)"
    using pubsub_subscribe_inv [OF "2.prems", of fd "Some (nat fd)" ch] subscribe_fds [of ps fd "Some (nat fd)" ch] d by simp_all
  have "safe uaf (own fd d) (subscribe_loop fd chs d)" using "2.IH" d inv(1) by auto
  with inv show ?case unfolding subscribe_loop.simps d
    by (auto intro!: safe_bindr [OF safe_snprintf] safe_bindr [where P = "own fd d"])
qed auto

lemma unsubscribe_loop_safe: "ps_inv ps \<Longrightarrow> safe uaf (own fd ps) (unsubscribe_loop fd chs ps)"
proof (induction fd chs ps rule: unsubscribe_loop.induct)
  case (2 fd ch chs ps)
  let ?d = "pubsub_unsubscribe ps fd ch"
  have "safe uaf (own fd ?d) (unsubscribe_loop fd chs ?d)" using 2 unsubscribe_inv by auto
  then have "safe uaf (own fd ps) (unsubscribe_loop fd chs ?d)" by (rule safe_mono) (use unsubscribe_fds [of ps fd ch] in blast)
  then show ?case unfolding unsubscribe_loop.simps Let_def
    by (auto intro!: safe_bindr [OF safe_snprintf] safe_bindr [where P = "own fd ps"])
qed auto

subsection \<open>Lines of a client\<close>

definition line_leaves :: "int \<Rightarrow> client \<Rightarrow> client \<times> bool \<Rightarrow> bool" where
  "line_leaves fd c p \<longleftrightarrow> sv_inv (cl_sv (fst p)) \<and> all_fds (sv_ps (cl_sv (fst p))) \<subseteq> insert fd (all_fds (sv_ps (cl_sv c))) \<and>
     (\<exists>out. cl_out (fst p) = cl_out c @ out \<and> fst ` set out \<subseteq> insert fd (all_fds (sv_ps (cl_sv c))))"

lemma sv_inv_ps [simp]: "sv_inv (sv\<lparr>sv_ps := ps\<rparr>) \<longleftrightarrow> kv_inv (sv_db sv) \<and> ps_inv ps"
  by (simp add: sv_inv_def)

lemma client_line_safe:
  assumes "ready (es (cl_lines c)) (cl_sv c)" "uaf \<or> queue_ok (cl_sv c)"
  shows "safe uaf (line_leaves fd c) (client_line es fd line c)"
proof -
  note r = readyD [OF assms(1)]
  have s: "safe uaf (\<lambda>p. line_leaves fd c (upd c ((cl_sv c)\<lparr>sv_ps := fst p\<rparr>) sub (snd p), q)) (subscribe_loop fd chs (sv_ps (cl_sv c)))"
    "safe uaf (\<lambda>p. line_leaves fd c (upd c ((cl_sv c)\<lparr>sv_ps := fst p\<rparr>) sub (snd p), q)) (unsubscribe_loop fd chs (sv_ps (cl_sv c)))" for sub q chs
    by (rule safe_mono [OF subscribe_loop_safe] safe_mono [OF unsubscribe_loop_safe]; use r in \<open>force simp: line_leaves_def upd_def\<close>)+
  have p: "safe uaf (\<lambda>p. line_leaves fd c (upd c (fst p) sub (snd p), q)) (process_command (es (cl_lines c)) fd (cl_sv c) line)" for sub q
    by (rule safe_mono [OF process_command_safe [OF assms]]) (auto simp: line_leaves_def upd_def)
  have a: "line_leaves fd c (upd c ((cl_sv c)\<lparr>sv_ps := pubsub_unsubscribe_all (sv_ps (cl_sv c)) fd\<rparr>) sub [(fd, b)], q)" for sub b q
    using r unsubscribe_all_inv unsubscribe_all_fds [of "sv_ps (cl_sv c)" fd] by (auto simp: line_leaves_def upd_def)
  have i: "line_leaves fd c (upd c (cl_sv c) sub [], q)" "line_leaves fd c (upd c (cl_sv c) sub [(fd, b)], q)" for sub b q
    using r by (auto simp: line_leaves_def upd_def)
  show ?thesis unfolding client_line_def Let_def
    by (auto simp: i a split: list.split intro!: safe_bindr [OF s(1)] safe_bindr [OF s(2)] safe_bindr [OF p])
qed

subsection \<open>Steps\<close>

text \<open>The server and its open connections, each with its mode.\<close>

record system =
  y_sv :: server
  y_conns :: "int \<rightharpoonup> bool"

definition conn :: "system \<Rightarrow> bool \<Rightarrow> client" where
  "conn y sub = \<lparr>cl_sv = y_sv y, cl_sub = sub, cl_lines = 0, cl_out = []\<rparr>"

definition bus_conn :: "system \<Rightarrow> cluster_state \<Rightarrow> bool \<Rightarrow> string \<Rightarrow> bus_state" where
  "bus_conn y cs identified peer =
     \<lparr>b_cs = cs, b_db = sv_db (y_sv y), b_identified = identified, b_peer_id = peer, b_out = []\<rparr>"

inductive serial_step :: "system \<Rightarrow> system \<Rightarrow> bool" where
  accept: "y_conns y fd = None \<Longrightarrow> serial_step y (y\<lparr>y_conns := (y_conns y)(fd \<mapsto> False)\<rparr>)"
| line: "y_conns y fd = Some sub \<Longrightarrow> ready e (y_sv y) \<Longrightarrow> client_line (\<lambda>_. e) fd l (conn y sub) = Inr (c, quit) \<Longrightarrow>
    serial_step y (y\<lparr>y_sv := cl_sv c, y_conns := (y_conns y)(fd \<mapsto> cl_sub c)\<rparr>)"
| leave: "y_conns y fd = Some sub \<Longrightarrow>
    serial_step y (y\<lparr>y_sv := (y_sv y)\<lparr>sv_ps := pubsub_unsubscribe_all (sv_ps (y_sv y)) fd\<rparr>, y_conns := (y_conns y)(fd := None)\<rparr>)"
| expire: "expire_turn rs e (y_sv y) = Inr sv \<Longrightarrow> serial_step y (y\<lparr>y_sv := sv\<rparr>)"
| bus: "sv_cs (y_sv y) = Some cs \<Longrightarrow> bus_line mem now fd l (bus_conn y cs identified peer) = Inr (b, quit) \<Longrightarrow>
    serial_step y (y\<lparr>y_sv := (y_sv y)\<lparr>sv_cs := Some (b_cs b), sv_db := b_db b\<rparr>\<rparr>)"
| repl: "sv_cs (y_sv y) = Some cs \<Longrightarrow> repl_turn wr cs = Inr (cs', out) \<Longrightarrow> serial_step y (y\<lparr>y_sv := (y_sv y)\<lparr>sv_cs := Some cs'\<rparr>\<rparr>)"
| beat: "sv_cs (y_sv y) = Some cs \<Longrightarrow> hb_turn dial wr now (kv_db_version (sv_db (y_sv y))) cs = Inr (cs', out) \<Longrightarrow>
    serial_step y (y\<lparr>y_sv := (y_sv y)\<lparr>sv_cs := Some cs'\<rparr>\<rparr>)"

inductive serial_reachable :: "system \<Rightarrow> bool" where
  start: "server_start writable dial e usec args fs = Inr (Some (sv, out)) \<Longrightarrow> serial_reachable \<lparr>y_sv = sv, y_conns = Map.empty\<rparr>"
| step: "serial_reachable y \<Longrightarrow> serial_step y y' \<Longrightarrow> serial_reachable y'"

definition serial_inv :: "system \<Rightarrow> bool" where
  "serial_inv y \<longleftrightarrow> sv_inv (y_sv y) \<and> all_fds (sv_ps (y_sv y)) \<subseteq> dom (y_conns y)"

lemma conn_simps [simp]: "cl_sv (conn y sub) = y_sv y" "cl_out (conn y sub) = []" "cl_lines (conn y sub) = 0" "cl_sub (conn y sub) = sub"
  by (simp_all add: conn_def)

lemma expire_turn_inv:
  assumes "kv_inv (sv_db sv)" "expire_turn rs e sv = Inr sv'"
  shows "kv_inv (sv_db sv') \<and> sv_ps sv' = sv_ps sv"
proof -
  obtain ks d where d: "kv_active_expire rs (sv_db sv) 20 (now_ms e) = Inr (0 + card ks, d)" "reaps (now_ms e) ks (sv_db sv) d"
    unfolding kv_active_expire_def using expire_loop_ok [OF assms(1)] by blast
  have "kv_inv d" using d(2) by (simp add: reaps_def)
  with d(1) assms(2) show ?thesis by (auto simp: expire_turn_def)
qed

lemma serial_step_inv: "serial_step y y' \<Longrightarrow> serial_inv y \<Longrightarrow> serial_inv y'"
proof (induction rule: serial_step.induct)
  case (line y fd sub e l c quit)
  have "safe True (line_leaves fd (conn y sub)) (client_line (\<lambda>_. e) fd l (conn y sub))"
    by (rule client_line_safe) (use line.hyps(2) in simp_all)
  with line show ?case by (auto simp: line_leaves_def serial_inv_def)
next
  case (leave y fd sub)
  then show ?case using unsubscribe_all_inv unsubscribe_all_fds [of "sv_ps (y_sv y)" fd] by (auto simp: serial_inv_def sv_inv_def)
next
  case (expire rs e y sv)
  then show ?case using expire_turn_inv [of "y_sv y" rs e sv] by (simp add: serial_inv_def sv_inv_def)
next
  case (bus y cs mem now fd l identified peer b quit)
  then have "kv_inv (b_db b)" using bus_line_inv(1) [of "bus_conn y cs identified peer"] by (auto simp: serial_inv_def sv_inv_def bus_conn_def)
  with bus show ?case by (simp add: serial_inv_def sv_inv_def)
qed (auto simp: serial_inv_def sv_inv_def)

lemma serial_reachable_inv: "serial_reachable y \<Longrightarrow> serial_inv y"
proof (induction rule: serial_reachable.induct)
  case (start writable dial e usec args fs sv out)
  then show ?case using server_start_inv [OF start] by (simp add: serial_inv_def all_fds_def)
qed (rule serial_step_inv)

end
