(* ===== verification/Sessions.thy ===== *)
theory Sessions
  imports Command_Refinement System_Steps
begin

text \<open>
  Whole connections. A client that sends data commands, one per line, receives the replies of the
  specification, however the bytes are cut on the way; a client that has subscribed only changes
  its subscriptions.
\<close>

subsection \<open>Sessions of data commands\<close>

text \<open>A line the handler passes to the command interpreter, or ignores because it is blank.\<close>

definition data_line :: "string \<Rightarrow> bool" where
  "data_line line \<longleftrightarrow> is_cstr line \<and> newline \<notin> set line \<and> length line < BUFFER_SIZE \<and>
     (case parse_line (take (MAX_ARGS - 1) line) MAX_ARGS of
        [] \<Rightarrow> parse_line line MAX_ARGS = []
      | q # chs \<Rightarrow> \<not> (same_nocase q ''SUBSCRIBE'' \<and> chs \<noteq> []) \<and> \<not> same_nocase q ''UNSUBSCRIBE'' \<and> \<not> same_nocase q ''QUIT'')"

definition stream_of :: "string list \<Rightarrow> string" where
  "stream_of ls = concat (map (\<lambda>l. l @ [newline]) ls)"

lemma data_line_process:
  assumes "data_line line" "\<not> cl_sub c"
  shows "client_line es fd line c =
    bindr (process_command (es (cl_lines c)) fd (cl_sv c) line) (\<lambda>(sv, out). Inr (upd c sv False out, False))"
  using assms by (auto simp: data_line_def client_line_def process_command_def Let_def split: list.splits)

text \<open>No line of the session finds a key that is past its time.\<close>

fun on_time :: "(nat \<Rightarrow> env) \<Rightarrow> int \<Rightarrow> client \<Rightarrow> string list \<Rightarrow> bool" where
  "on_time es fd c [] = True"
| "on_time es fd c (l # ls) =
     (timely (now_ms (es (cl_lines c))) (sv_db (cl_sv c)) \<and>
      (case client_line es fd l c of Inl _ \<Rightarrow> True | Inr (c, _) \<Rightarrow> on_time es fd c ls))"

text \<open>The handler treats a stream as its lines one after the other.\<close>

lemma stream_handled:
  assumes "is_cstr stream" "lines_fit (BUFFER_SIZE * 4) stream"
  shows "handle_client_unlocked es fd pieces stream sv =
      bindr (each_line BUFFER_SIZE (client_line es fd) stream \<lparr>cl_sv = sv, cl_sub = False, cl_lines = 0, cl_out = []\<rparr>) (\<lambda>(c, _, _).
      Inr ((cl_sv c)\<lparr>sv_ps := pubsub_unsubscribe_all (sv_ps (cl_sv c)) fd\<rparr>, cl_out c))"
proof -
  let ?c = "\<lparr>cl_sv = sv, cl_sub = False, cl_lines = 0, cl_out = []\<rparr>"
  have "read_loop (BUFFER_SIZE * 4) BUFFER_SIZE (client_line es fd) pieces 0 stream [] ?c =
      bindr (each_line BUFFER_SIZE (client_line es fd) stream ?c) (\<lambda>t. Inr (fst t))"
    using read_loop_stream [of "[]" stream "BUFFER_SIZE * 4" BUFFER_SIZE "client_line es fd" pieces 0 ?c] assms by simp
  then show ?thesis
    by (cases "each_line BUFFER_SIZE (client_line es fd) stream ?c") (auto simp: handle_client_unlocked_def Let_def)
qed

text \<open>The lines of a session one after the other.\<close>

lemma session_lines:
  assumes "\<forall>l \<in> set ls. data_line l" "\<not> cl_sub c" "kv_inv (sv_db (cl_sv c))" "ps_inv (sv_ps (cl_sv c))" "sv_cs (cl_sv c) = None"
    "room (sv_db (cl_sv c)) (length ls)"
    "session_spec (zip (map es [cl_lines c..<cl_lines c + length ls]) ls) (kv_abs (sv_db (cl_sv c))) = Some (a, rs)" "\<forall>r \<in> set rs. fits r"
  shows "\<exists>db' out c'. each_line BUFFER_SIZE (client_line es fd) (stream_of ls) c = Inr (c', False, []) \<and>
    cl_sv c' = (cl_sv c)\<lparr>sv_db := db'\<rparr> \<and> cl_out c' = cl_out c @ out \<and> sends_replies fd rs out \<and> kv_abs db' = a \<and> kv_inv db'"
  using assms
proof (induction ls arbitrary: c rs)
  case Nil
  then show ?case
    by (auto simp: stream_of_def each_line.simps [of _ _ "[]"] next_line_def cstr_of_def sends_replies_def intro!: exI [of _ "sv_db (cl_sv c)"])
next
  case (Cons l ls)
  let ?sv = "cl_sv c" and ?e = "es (cl_lines c)"
  have up: "[cl_lines c..<cl_lines c + length (l # ls)] = cl_lines c # [Suc (cl_lines c)..<Suc (cl_lines c) + length ls]"
    by (subst upt_conv_Cons) simp_all
  from Cons.prems(7) obtain a1 r1 rs1 where s: "line_spec ?e l (kv_abs (sv_db ?sv)) = Some (a1, r1)"
    "session_spec (zip (map es [Suc (cl_lines c)..<Suc (cl_lines c) + length ls]) ls) a1 = Some (a, rs1)" "rs = r1 @ rs1"
    unfolding up by (auto simp: bind_eq_Some_conv)
  have room: "room (sv_db ?sv) (Suc (length ls))" using Cons.prems(6) by simp
  have "alone ?e ?sv" using Cons.prems(3-5) room_D [OF room, of "e_mem ?e"] by (simp add: alone_def ready_def sv_inv_def)
  from line_impl [OF this s(1), of fd] Cons.prems(8) s(3) obtain d out where
    d: "process_command ?e fd ?sv l = Inr (?sv\<lparr>sv_db := d\<rparr>, out)" "sends_replies fd r1 out" "outcome (sv_db ?sv) a1 d" by auto
  have o: "kv_inv d" "kv_abs d = a1" "room d (length ls)" using d(3) room by (auto simp: outcome_def)
  let ?c = "upd c (?sv\<lparr>sv_db := d\<rparr>) False out"
  have l: "is_cstr l" "newline \<notin> set l" "take (BUFFER_SIZE - 1) l = l" using Cons.prems(1) by (auto simp: data_line_def)
  have step: "each_line BUFFER_SIZE (client_line es fd) (stream_of (l # ls)) c =
      each_line BUFFER_SIZE (client_line es fd) (stream_of ls) ?c"
    using next_line_newline [OF l(1,2)] l(3) data_line_process [of l c es fd] Cons.prems(1,2) d(1)
    by (subst each_line.simps) (simp add: stream_of_def)
  have "\<exists>db' out' c'. each_line BUFFER_SIZE (client_line es fd) (stream_of ls) ?c = Inr (c', False, []) \<and>
      cl_sv c' = (cl_sv ?c)\<lparr>sv_db := db'\<rparr> \<and> cl_out c' = cl_out ?c @ out' \<and> sends_replies fd rs1 out' \<and> kv_abs db' = a \<and> kv_inv db'"
    by (rule Cons.IH) (use Cons.prems o s in \<open>simp_all add: upd_def\<close>)
  then show ?case unfolding step s(3) using d(2) by (fastforce simp: upd_def sends_replies_def intro: list_all2_appendI)
qed

lemma stream_of_fits: "\<forall>l \<in> set ls. data_line l \<Longrightarrow> is_cstr (stream_of ls) \<and> lines_fit (BUFFER_SIZE * 4) (stream_of ls)"
  unfolding stream_of_def
  by (intro conjI lines_fit_concat) (auto simp: data_line_def is_cstr_def BUFFER_SIZE_def)

lemma session_handled:
  assumes "kv_inv (sv_db sv)" "ps_inv (sv_ps sv)" "sv_cs sv = None" "\<forall>l \<in> set ls. data_line l" "room (sv_db sv) (length ls)"
    "session_spec (zip (map es [0..<length ls]) ls) (kv_abs (sv_db sv)) = Some (a, rs)" "\<forall>r \<in> set rs. fits r"
  shows "\<exists>db' out. handle_client_unlocked es fd pieces (stream_of ls) sv =
      Inr (sv\<lparr>sv_db := db', sv_ps := pubsub_unsubscribe_all (sv_ps sv) fd\<rparr>, out) \<and>
    list_all2 (\<lambda>r m. fst m = fd \<and> encodes r (snd m)) rs out \<and> kv_inv db' \<and> kv_abs db' = a"
proof -
  let ?c = "\<lparr>cl_sv = sv, cl_sub = False, cl_lines = 0, cl_out = []\<rparr>"
  from session_lines [of ls ?c es a rs fd] assms obtain db' out c' where
    c: "each_line BUFFER_SIZE (client_line es fd) (stream_of ls) ?c = Inr (c', False, [])" "cl_sv c' = sv\<lparr>sv_db := db'\<rparr>" "cl_out c' = out"
      "sends_replies fd rs out" "kv_abs db' = a" "kv_inv db'" by auto
  from stream_handled [of "stream_of ls" es fd pieces sv] stream_of_fits [OF assms(4)] c show ?thesis
    by (auto simp: sends_replies_def)
qed

subsection \<open>Subscribed connections\<close>

text \<open>What any number of lines can do to a connection that has subscribed.\<close>

definition only_subscribes :: "int \<Rightarrow> client \<Rightarrow> client \<Rightarrow> bool" where
  "only_subscribes fd c c' \<longleftrightarrow> cl_sub c' \<and>
     (\<exists>ps out. cl_sv c' = (cl_sv c)\<lparr>sv_ps := ps\<rparr> \<and> cl_out c' = cl_out c @ out \<and> fst ` set out \<subseteq> {fd})"

lemma only_subscribes_trans: "only_subscribes fd c d \<Longrightarrow> only_subscribes fd d e \<Longrightarrow> only_subscribes fd c e"
  unfolding only_subscribes_def by (elim conjE exE) (auto simp: image_subset_iff)

lemma ack_loops_own:
  "subscribe_loop fd chs ps = Inr (ps', out) \<Longrightarrow> fst ` set out \<subseteq> {fd}"
  "unsubscribe_loop fd chs ps = Inr (ps', out) \<Longrightarrow> fst ` set out \<subseteq> {fd}"
proof -
  show "subscribe_loop fd chs ps = Inr (ps', out) \<Longrightarrow> fst ` set out \<subseteq> {fd}"
    by (induction chs arbitrary: ps ps' out) (fastforce simp: Let_def split_beta)+
  show "unsubscribe_loop fd chs ps = Inr (ps', out) \<Longrightarrow> fst ` set out \<subseteq> {fd}"
    by (induction chs arbitrary: ps ps' out) (fastforce simp: Let_def split_beta)+
qed

lemma ps_same: "\<exists>ps. sv = sv\<lparr>sv_ps := ps\<rparr>"
  by (rule exI [of _ "sv_ps sv"]) simp

lemma subscribed_line:
  assumes "cl_sub c" "client_line es fd line c = Inr (c', quit)"
  shows "only_subscribes fd c c' \<and> \<not> quit"
  using assms ack_loops_own ps_same [of "cl_sv c"]
  by (auto simp: client_line_def Let_def only_subscribes_def upd_def split: list.splits if_splits)

lemma each_line_closed:
  assumes "\<And>l s s' q. P s \<Longrightarrow> handle l s = Inr (s', q) \<Longrightarrow> P s' \<and> \<not> q"
    and "P s" "each_line L handle p s = Inr (s', q, rest)"
  shows "P s' \<and> \<not> q"
  using assms
proof (induction L handle p s rule: each_line.induct)
  case (1 L handle p s)
  show ?case
  proof (cases "next_line p")
    case None
    with "1.prems" show ?thesis by (simp add: each_line.simps [of L handle p])
  next
    case (Some lr)
    then obtain l r where lr: "next_line p = Some (l, r)" by (cases lr) auto
    with "1.prems"(3) obtain s1 q1 where h: "handle (take (L - 1) l) s = Inr (s1, q1)"
      "(if q1 then Inr (s1, True, p) else each_line L handle r s1) = Inr (s', q, rest)"
      by (auto simp: each_line.simps [of L handle p])
    with "1.prems"(1) [OF "1.prems"(2) h(1)] have "P s1" "\<not> q1" "each_line L handle r s1 = Inr (s', q, rest)" by auto
    with "1.IH" [OF lr refl] "1.prems"(1) show ?thesis by blast
  qed
qed

lemma subscribed_stream:
  assumes "cl_sub c" "each_line BUFFER_SIZE (client_line es fd) p c = Inr (c', quit, rest)"
  shows "only_subscribes fd c c' \<and> \<not> quit"
proof (rule each_line_closed [OF _ _ assms(2)])
  show "only_subscribes fd c c" using assms(1) by (simp add: only_subscribes_def exI [of _ "sv_ps (cl_sv c)"])
next
  fix l s s' q assume a: "only_subscribes fd c s" and b: "client_line es fd l s = Inr (s', q)"
  have "cl_sub s" using a by (simp add: only_subscribes_def)
  from subscribed_line [OF this b] only_subscribes_trans [OF a] show "only_subscribes fd c s' \<and> \<not> q" by blast
qed

text \<open>Lines that a subscribed connection swallows.\<close>

definition ignored :: "string \<Rightarrow> bool" where
  "ignored line \<longleftrightarrow> is_cstr line \<and> newline \<notin> set line \<and> length line < BUFFER_SIZE \<and>
     (case parse_line (take (MAX_ARGS - 1) line) MAX_ARGS of
        [] \<Rightarrow> True
      | q # chs \<Rightarrow> \<not> (same_nocase q ''SUBSCRIBE'' \<and> chs \<noteq> []) \<and> \<not> same_nocase q ''UNSUBSCRIBE'')"

lemma ignored_stream:
  assumes "cl_sub c" "\<forall>l \<in> set ls. ignored l"
  shows "each_line BUFFER_SIZE (client_line es fd) (stream_of ls) c = Inr (c\<lparr>cl_lines := cl_lines c + length ls\<rparr>, False, [])"
  using assms
proof (induction ls arbitrary: c)
  case Nil
  then show ?case by (simp add: stream_of_def each_line.simps [of _ _ "[]"] next_line_def cstr_of_def)
next
  case (Cons l ls)
  let ?c = "c\<lparr>cl_lines := Suc (cl_lines c)\<rparr>"
  have l: "is_cstr l" "newline \<notin> set l" "take (BUFFER_SIZE - 1) l = l" using Cons.prems(2) by (auto simp: ignored_def)
  have "client_line es fd l c = Inr (?c, False)"
    using Cons.prems by (auto simp: ignored_def client_line_def Let_def upd_def split: list.splits)
  then have "each_line BUFFER_SIZE (client_line es fd) (stream_of (l # ls)) c = each_line BUFFER_SIZE (client_line es fd) (stream_of ls) ?c"
    using next_line_newline [OF l(1,2)] l(3) by (subst each_line.simps) (simp add: stream_of_def)
  with Cons.IH [of ?c] Cons.prems show ?case by simp
qed

end
