(* ===== verification/Server_Properties.thy ===== *)
theory Server_Properties
  imports Command_Properties Sessions
begin

text \<open>
  The properties of the server: commands, connections, the thread pool and the states of serial runs.
\<close>

text \<open>An environment with enough memory, and a server that has just started.\<close>

definition calm :: env where
  "calm = \<lparr>e_mem = (\<lambda>_. True), e_us = 0, e_rand = (\<lambda>_ _. 0), e_strtod = (\<lambda>_. 0), e_fmt_g = (\<lambda>_. ''0''),
           e_send = (\<lambda>_ _. True), e_writable = (\<lambda>_. True)\<rparr>"

definition fresh :: server where
  "fresh = \<lparr>sv_db = kv_init None, sv_ps = [], sv_cs = None, sv_id = '''', sv_fs = Map.empty\<rparr>"

lemma ready_fresh: "ready calm fresh"
  by (simp add: ready_def sv_inv_def calm_def fresh_def kv_init_inv ps_inv_def kv_init_can_grow)

lemma fresh_list: "list_at (sv_db fresh) k = []"
  by (simp add: list_at_def kv_abs_def fresh_def kv_init_map)

lemma fresh_reachable: "serial_reachable \<lparr>y_sv = fresh, y_conns = Map.empty\<rparr>"
  by (rule serial_reachable.start [of "\<lambda>_. True" "\<lambda>_. 0" calm 0 "[]" Map.empty _ "[]"])
    (simp add: server_start_def default_options_def kv_open_def fresh_def pubsub_create_def)

subsection \<open>Commands\<close>

text \<open>C1. What a command line can do, whatever its bytes, on a well-formed store that can grow if it has to: the
  command interpreter returns a well-formed store, leaves the channels unchanged and sends only to that
  client and to subscribers; or it stops with one of three faults, a signed overflow, a reply that is
  longer than its buffer, or the second free of a message, and the last one only where the
  full replication queue holds a freed message. So it never dereferences a null pointer,
  never reads an unset variable, never writes past a buffer and always returns.\<close>

theorem any_command_safe:
  assumes "ready e sv"
  shows "case process_command e fd sv line of
      Inl f \<Rightarrow> f = SignedOverflow \<or> f = OverRead \<or> f = UseAfterFree \<and> \<not> queue_ok sv
    | Inr (sv', out) \<Rightarrow> kv_inv (sv_db sv') \<and> ps_inv (sv_ps sv') \<and> sv_ps sv' = sv_ps sv \<and>
        (\<forall>(fd', bytes) \<in> set out. fd' = fd \<or> (\<exists>c \<in> set (sv_ps sv). fd' \<in> cs_fd ` set (ch_subs c)))"
proof -
  have s: "safe (\<not> queue_ok sv) (leaves fd sv) (process_command e fd sv line)"
    by (rule process_command_safe [OF assms]) simp
  then show ?thesis
    by (cases "process_command e fd sv line") (auto simp: tolerated_def sv_inv_def all_fds_def, fastforce)
qed

theorem any_command_safe_witness:
  "case process_command calm 5 fresh ''SADD s a b'' of
      Inl f \<Rightarrow> f = SignedOverflow \<or> f = OverRead \<or> f = UseAfterFree \<and> \<not> queue_ok fresh
    | Inr (sv', out) \<Rightarrow> kv_inv (sv_db sv') \<and> ps_inv (sv_ps sv') \<and> sv_ps sv' = sv_ps fresh \<and>
        (\<forall>(fd', bytes) \<in> set out. fd' = 5 \<or> (\<exists>c \<in> set (sv_ps fresh). fd' \<in> cs_fd ` set (ch_subs c)))"
  by (rule any_command_safe [OF ready_fresh])


lemma fresh_timely: "timely now (sv_db fresh)"
  by (simp add: timely_def fresh_def kv_init_map)

lemma fresh_live: "live_abs now (sv_db fresh) = Map.empty"
  unfolding live_abs_timely [OF fresh_timely] by (simp add: fresh_def kv_abs_def kv_init_map fun_eq_iff)

lemma parse_SET: "parse_line ''SET k v'' MAX_ARGS = [''SET'', ''k'', ''v'']"
  by code_simp

lemma line_SET: "line_spec calm ''SET k v'' a = Some (a(''k'' \<mapsto> AStr ''v''), [RStatus ''OK''])"
  unfolding line_spec_def parse_SET list.case
  by (simp add: command_spec_def spec_table_def same_nocase_def to_lower_def byte_of_def s_set_def)


text \<open>\<open>LPUSH key v1 \<dots> vn\<close> as a line: the reply is the new length, and the list holds the values
  in reverse order before the old ones; on a key that holds no list a new one is stored. Up to 62
  values fit the argument array.\<close>

theorem lpush_line:
  assumes "ready e sv" "word_arg k" "\<forall>v \<in> set vs. word_arg v" "vs \<noteq> []" "length vs \<le> 62"
  shows "\<exists>db'. process_command e fd sv (join_args (''LPUSH'' # k # vs)) =
      Inr (sv\<lparr>sv_db := db'\<rparr>, [(fd, send_int (int (length vs + length (list_at (sv_db sv) k))))]) \<and> kv_inv db' \<and>
    kv_abs db' = (kept (e_mem e) (sv_db sv) k)(k \<mapsto> AList (rev vs @ list_at (sv_db sv) k))"
proof -
  let ?args = "''LPUSH'' # k # vs"
  have "word_arg ''LPUSH''" by (simp add: word_arg_def is_delim_def)
  then have p: "parse_line (join_args ?args) MAX_ARGS = ?args"
    using parse_line_join [of ?args "[]" MAX_ARGS] assms(2,3,5) by (simp add: MAX_ARGS_def)
  have r: "route command_table ?args = Some cmd_lpush"
    using assms(4) by (cases vs) (simp_all add: command_table_def same_nocase_def to_lower_def byte_of_def)
  from push_loops(1) [of "sv_db sv" "e_mem e" vs k] readyD [OF assms(1)] assms(4) show ?thesis
    by (auto simp: process_command_def p r cmd_lpush_def answer_len_def answer_def simp del: fun_upd_apply join_args.simps)
qed

theorem lpush_line_witness:
  "\<exists>db'. process_command calm 5 fresh ''LPUSH k a b'' = Inr (fresh\<lparr>sv_db := db'\<rparr>, [(5, send_int 2)]) \<and>
     kv_abs db' ''k'' = Some (AList [''b'', ''a''])"
  using lpush_line [OF ready_fresh, of "''k''" "[''a'', ''b'']" 5] fresh_list [of "''k''"]
  by (auto simp: word_arg_def is_delim_def)

text \<open>\<open>SETNX\<close> always replies 1: it does so when it stores the value, and also when the key exists
  and nothing is stored.\<close>

theorem setnx_always_one:
  assumes "ready e sv"
  shows "\<exists>db'. cmd_setnx e fd sv [''SETNX'', k, v] = Inr (sv\<lparr>sv_db := db'\<rparr>, [(fd, '':1'' @ CRLF)]) \<and> kv_inv db' \<and>
    (k \<in> dom (kv_map (sv_db sv)) \<longrightarrow> db' = sv_db sv)"
proof -
  have one: "send_int 1 = '':1'' @ CRLF"
  proof -
    have "int_dec 1 = ''1''" by code_simp
    then show ?thesis using send_int_ok [of 1] by (simp add: in_i64_def i64_min_def i64_max_def)
  qed
  note r = readyD [OF assms]
  show ?thesis
  proof (cases "k \<in> dom (kv_map (sv_db sv))")
    case True
    with r show ?thesis using one kv_exists_ok [of "sv_db sv" k] by (auto simp: cmd_setnx_def kv_setnx_def answer_def)
  next
    case False
    obtain db' where "kv_set (e_mem e) (e_us e) (sv_db sv) k v = Inr (0, db')" "kv_inv db'"
      using kv_set_ok [of "sv_db sv" "e_mem e" "e_us e" k v] r by auto
    with False r show ?thesis using one kv_exists_ok [of "sv_db sv" k] by (auto simp: cmd_setnx_def kv_setnx_def answer_def)
  qed
qed

theorem setnx_always_one_witness:
  "\<exists>db'. cmd_setnx calm 5 fresh [''SETNX'', ''k'', ''v''] = Inr (fresh\<lparr>sv_db := db'\<rparr>, [(5, '':1'' @ CRLF)]) \<and> kv_inv db'"
  using setnx_always_one [OF ready_fresh, of 5 "''k''" "''v''"] by blast

subsection \<open>Connections\<close>

text \<open>C14. How the kernel splits the bytes of a connection into reads does not matter: the handler ends
  in the same server state and sends the same replies for any two ways of cutting the stream, and
  this is what handling its lines one after the other gives; the lines must be shorter than the
  receive buffer and hold no NUL byte.\<close>

theorem pieces_do_not_matter:
  assumes "is_cstr stream" "lines_fit (BUFFER_SIZE * 4) stream"
  shows "handle_client_unlocked es fd pieces stream sv = handle_client_unlocked es fd pieces' stream sv \<and>
    handle_client_unlocked es fd pieces stream sv =
      bindr (each_line BUFFER_SIZE (client_line es fd) stream \<lparr>cl_sv = sv, cl_sub = False, cl_lines = 0, cl_out = []\<rparr>) (\<lambda>(c, _, _).
      Inr ((cl_sv c)\<lparr>sv_ps := pubsub_unsubscribe_all (sv_ps (cl_sv c)) fd\<rparr>, cl_out c))"
  by (simp only: stream_handled [OF assms] simp_thms)

theorem pieces_do_not_matter_witness:
  "handle_client_unlocked (\<lambda>_. calm) 5 (\<lambda>_. 1) (''PING'' @ [newline] @ ''PING'' @ [newline]) fresh =
     handle_client_unlocked (\<lambda>_. calm) 5 (\<lambda>_. 100) (''PING'' @ [newline] @ ''PING'' @ [newline]) fresh"
proof -
  let ?s = "''PING'' @ [newline] @ ''PING'' @ [newline]"
  have "lines_fit (BUFFER_SIZE * 4) (concat (map (\<lambda>l. l @ [newline]) [''PING'', ''PING'']))"
    by (rule lines_fit_concat) (simp_all add: BUFFER_SIZE_def)
  then have "lines_fit (BUFFER_SIZE * 4) ?s" by simp
  moreover have "is_cstr ?s" by (simp add: is_cstr_def)
  ultimately show ?thesis using pieces_do_not_matter [of ?s "\<lambda>_. calm" 5 "\<lambda>_. 1" fresh "\<lambda>_. 100"] by blast
qed

text \<open>C4. A session from end to end: a client of a server without a cluster sends data commands, one per line
  of less than 4096 bytes, for all of which the command reference promises something; there is room for one
  key per line, no line finds a key that is past its time, and the replies fit the buffers. However
  the bytes of the connection are cut into reads, the handler sends exactly the bytes of the promised replies,
  in order, and leaves a store that represents exactly the promised database.\<close>

theorem session_refines:
  assumes "kv_inv (sv_db sv)" "ps_inv (sv_ps sv)" "sv_cs sv = None" "\<forall>l \<in> set ls. data_line l" "room (sv_db sv) (length ls)"
    "timely (now_ms (es 0)) (sv_db sv)" "on_time es fd \<lparr>cl_sv = sv, cl_sub = False, cl_lines = 0, cl_out = []\<rparr> ls"
    "session_spec (zip (map es [0..<length ls]) ls) (live_abs (now_ms (es 0)) (sv_db sv)) = Some (a, rs)" "\<forall>r \<in> set rs. fits r"
  shows "\<exists>db' out. handle_client_unlocked es fd pieces (stream_of ls) sv =
      Inr (sv\<lparr>sv_db := db', sv_ps := pubsub_unsubscribe_all (sv_ps sv) fd\<rparr>, out) \<and>
    list_all2 (\<lambda>r m. fst m = fd \<and> encodes r (snd m)) rs out \<and> kv_inv db' \<and> kv_abs db' = a"
  using session_handled [OF assms(1-5) _ assms(9)] assms(8) live_abs_timely [OF assms(6)] by simp

lemma session_parses:
  "parse_line ''PING'' MAX_ARGS = [''PING'']" "parse_line ''LPUSH l a b'' MAX_ARGS = [''LPUSH'', ''l'', ''a'', ''b'']"
  "parse_line ''GET n'' MAX_ARGS = [''GET'', ''n'']"
  by code_simp+

lemma session_run:
  "session_spec (zip (map (\<lambda>_. calm) [0..<2]) [''PING'', ''LPUSH l a b'']) Map.empty =
     Some ([''l'' \<mapsto> AList [''b'', ''a'']], [RStatus ''PONG'', RInt 2])"
proof -
  have "[0..<2] = [0, 1 :: nat]" by code_simp
  then show ?thesis
    by (simp add: line_spec_def session_parses command_spec_def spec_table_def same_nocase_def to_lower_def byte_of_def s_ping_def
        s_lpush_def alist_def of_type_def type_name_def)
qed

lemma ping_leaves: "process_command calm 5 fresh ''PING'' = Inr (fresh, [(5, send_pong)])"
  unfolding process_command_def session_parses
  by (simp add: command_table_def same_nocase_def to_lower_def byte_of_def cmd_ping_def answer_def)

theorem session_refines_witness:
  "\<exists>db' out. handle_client_unlocked (\<lambda>_. calm) 5 (\<lambda>_. 3) (stream_of [''PING'', ''LPUSH l a b'']) fresh =
      Inr (fresh\<lparr>sv_db := db', sv_ps := []\<rparr>, out) \<and>
    list_all2 (\<lambda>r m. fst m = 5 \<and> encodes r (snd m)) [RStatus ''PONG'', RInt 2] out \<and>
    kv_abs db' = [''l'' \<mapsto> AList [''b'', ''a'']]"
proof -
  let ?ls = "[''PING'', ''LPUSH l a b'']" and ?rs = "[RStatus ''PONG'', RInt 2]"
  let ?c = "\<lparr>cl_sv = fresh, cl_sub = False, cl_lines = 0, cl_out = []\<rparr>"
  have l: "\<forall>l \<in> set ?ls. data_line l"
    using session_parses
    by (simp add: data_line_def is_cstr_def BUFFER_SIZE_def MAX_ARGS_def same_nocase_def to_lower_def byte_of_def)
  have r: "room (sv_db fresh) (length ?ls)" by (simp add: room_def fresh_def kv_init_def INITIAL_CAPACITY_def)
  have f: "kv_inv (sv_db fresh)" "ps_inv (sv_ps fresh)" "sv_cs fresh = None" "sv_ps fresh = []"
    using ready_fresh by (simp_all add: ready_def sv_inv_def fresh_def)
  have t: "timely (now_ms calm) (sv_db fresh)" "on_time (\<lambda>_. calm) 5 ?c ?ls"
    using fresh_timely data_line_process [of "''PING''" ?c "\<lambda>_. calm" 5] l ping_leaves by (auto simp: upd_def split: sum.split)
  have "length ?ls = 2" by simp
  then have s: "session_spec (zip (map (\<lambda>_. calm) [0..<length ?ls]) ?ls) (live_abs (now_ms calm) (sv_db fresh)) =
      Some ([''l'' \<mapsto> AList [''b'', ''a'']], ?rs)"
    unfolding fresh_live using session_run by (simp only:)
  have "\<forall>r \<in> set ?rs. fits r" by (simp add: in_i64_def i64_min_def i64_max_def)
  from session_refines [OF f(1-3) l r t s this, of "\<lambda>_. 3"] f(4) show ?thesis
    by (elim exE conjE) (rule exI, rule exI, auto)
qed

text \<open>A connection that has subscribed executes no command any more, whatever it sends: no line, \<open>QUIT\<close>
  included, changes the store, the cluster or the files, ends the connection or sends anything to
  another client; it can only change subscriptions.\<close>

theorem subscribed_ignores:
  assumes "cl_sub c" "each_line BUFFER_SIZE (client_line es fd) p c = Inr (c', quit, rest)"
  shows "\<not> quit \<and> cl_sub c' \<and> sv_db (cl_sv c') = sv_db (cl_sv c) \<and> sv_cs (cl_sv c') = sv_cs (cl_sv c) \<and> sv_fs (cl_sv c') = sv_fs (cl_sv c) \<and>
    (\<exists>out. cl_out c' = cl_out c @ out \<and> fst ` set out \<subseteq> {fd})"
  using subscribed_stream [OF assms] by (auto simp: only_subscribes_def)

lemma parse_QUIT: "parse_line ''QUIT'' MAX_ARGS = [''QUIT'']"
  by code_simp

theorem subscribed_ignores_witness:
  "\<exists>c' quit rest. each_line BUFFER_SIZE (client_line (\<lambda>_. calm) 5) (''QUIT'' @ [newline])
       \<lparr>cl_sv = fresh, cl_sub = True, cl_lines = 3, cl_out = []\<rparr> = Inr (c', quit, rest) \<and> \<not> quit \<and> sv_db (cl_sv c') = sv_db fresh"
proof -
  let ?c = "\<lparr>cl_sv = fresh, cl_sub = True, cl_lines = 3, cl_out = []\<rparr>"
  have "client_line (\<lambda>_. calm) 5 ''QUIT'' ?c = Inr (?c\<lparr>cl_lines := 4\<rparr>, False)"
    using parse_QUIT by (simp add: client_line_def MAX_ARGS_def Let_def same_nocase_def to_lower_def byte_of_def upd_def)
  moreover have "next_line (''QUIT'' @ [newline]) = Some (''QUIT'', [])" "next_line [] = None"
    using next_line_newline [of "''QUIT''" "[]"] by (simp_all add: is_cstr_def next_line_None)
  ultimately have e: "each_line BUFFER_SIZE (client_line (\<lambda>_. calm) 5) (''QUIT'' @ [newline]) ?c = Inr (?c\<lparr>cl_lines := 4\<rparr>, False, [])"
    by (subst each_line.simps) (simp add: BUFFER_SIZE_def each_line.simps [of _ _ "[]"])
  with subscribed_ignores [OF _ e] show ?thesis by auto
qed

subsection \<open>Serial runs\<close>



subsection \<open>The thread pool\<close>

text \<open>Every submitted connection is served exactly once and in the order of submission, also across
  a shutdown: after any interleaving of submissions and worker turns from the empty pool, a shutdown
  and enough worker turns the workers have taken exactly the submitted connections in order, no
  pointer was misused, and then each worker leaves its loop.\<close>

lemma pool_serves_all:
  assumes "length (puts es) \<le> n"
  shows "\<exists>out1 tp1 out2 tp2. qrun tp_submit tp_deq tp_init es = Inr (out1, tp1) \<and>
    qrun tp_submit tp_deq (tp_shutdown tp1) (replicate n Take) = Inr (out2, tp2) \<and>
    out1 @ out2 = puts es \<and> tp_worker_take tp2 = Inr (TP_Exit, tp2)"
proof -
  obtain out1 tp1 where 1: "qrun tp_submit tp_deq tp_init es = Inr (out1, tp1)" "tp_inv tp1" "puts es = out1 @ tp_jobs tp1"
    using tp.run_fifo [OF tp_init_ok(1), of es] tp_init_ok(2) by auto
  have s: "tp_inv (tp_shutdown tp1)" "tp_jobs (tp_shutdown tp1) = tp_jobs tp1" "tp_stop (tp_shutdown tp1)"
    using 1(2) by (simp_all add: tp_inv_def tp_rep_def tp_shutdown_def tp_jobs_def)
  have "length (tp_jobs (tp_shutdown tp1)) \<le> n" using assms 1(3) s(2) by simp
  then obtain tp2 where 2: "qrun tp_submit tp_deq (tp_shutdown tp1) (replicate n Take) = Inr (tp_jobs tp1, tp2)" "tp_inv tp2" "tp_jobs tp2 = []"
    using tp.run_drain [OF s(1)] s(2) by auto
  have "tp_stop tp2" using tp_run_stop [OF s(1) 2(1)] s(3) by simp
  with tp_take_empty [OF 2(2,3)] 1 2 show ?thesis by auto
qed

end
