(* ===== verification/Cli.thy ===== *)
theory Cli
  imports Resp_Protocol Line_Buffer
begin

text \<open>
  The command line client (\<open>src/src/cli/cli.c\<close>): sending a command, decoding the reply of the
  server, the one-shot command of \<open>main\<close>, a round of the interactive loop and the line editor of
  the subscribed mode. A socket is the bytes the server still has for the client, handed out by
  \<open>read\<close> in pieces of the kernel's choice. \<open>None\<close> as contents of a buffer means bytes that were
  never written or have no terminator.

  The lemmas show that a reply of the server is decoded to its text, whatever the pieces, and that
  the next reply then starts where the decoding stopped.
\<close>

definition CLI_BUFFER_SIZE :: nat where
  "CLI_BUFFER_SIZE = 4096"

record sock =
  sk_in :: string
  sk_calls :: nat
  sk_pieces :: "nat \<Rightarrow> nat"

text \<open>\<open>read(sock, buf, n)\<close>: no bytes at the end of the stream.\<close>

definition sock_read :: "sock \<Rightarrow> nat \<Rightarrow> string \<times> sock" where
  "sock_read sk n =
     (let k = min (min n (length (sk_in sk))) (max 1 (sk_pieces sk (sk_calls sk))) in
      (take k (sk_in sk), sk\<lparr>sk_in := drop k (sk_in sk), sk_calls := Suc (sk_calls sk)\<rparr>))"

subsection \<open>Sending and receiving\<close>

definition send_cmd :: "string \<Rightarrow> string" where
  "send_cmd cmd = cmd @ [newline]"

text \<open>The result and the bytes that were read.\<close>

function read_exact :: "sock \<Rightarrow> nat \<Rightarrow> (int \<times> string) \<times> sock" where
  "read_exact sk n =
     (if n = 0 then ((0, []), sk)
      else (case sock_read sk n of (got, sk) \<Rightarrow>
        if got = [] then ((-1, []), sk)
        else (case read_exact sk (n - length got) of ((r, bs), sk) \<Rightarrow> ((r, got @ bs), sk))))"
  by auto
termination by (relation "measure snd") auto

declare read_exact.simps [simp del]

text \<open>
  The loop of \<open>read_line_raw\<close> with room for \<open>room\<close> more bytes; \<open>None\<close> is the return value -1, with
  the buffer left without a terminator.
\<close>

lemma sock_read_shorter: "(c # cs, sk') = sock_read sk (Suc 0) \<Longrightarrow> length (sk_in sk') < length (sk_in sk)"
  by (cases "sk_in sk") (auto simp: sock_read_def Let_def)

function read_line_loop :: "sock \<Rightarrow> nat \<Rightarrow> string option \<times> sock" where
  "read_line_loop sk room =
     (if room = 0 then (Some [], sk)
      else (case sock_read sk 1 of
          ([], sk') \<Rightarrow> (None, sk')
        | (c # _, sk') \<Rightarrow>
            if c = newline then (Some [], sk')
            else if c = CHR 0x0D then read_line_loop sk' room
            else (case read_line_loop sk' (room - 1) of (s, sk'') \<Rightarrow> (map_option ((#) c) s, sk''))))"
  by pat_completeness auto
termination by (relation "measure (\<lambda>(sk, _). length (sk_in sk))") (auto simp: sock_read_shorter)

declare read_line_loop.simps [simp del]

definition read_line_raw :: "sock \<Rightarrow> nat \<Rightarrow> (int \<times> string option) \<times> sock" where
  "read_line_raw sk len = (case read_line_loop sk (len - 1) of
       (None, sk) \<Rightarrow> ((-1, None), sk)
     | (Some s, sk) \<Rightarrow> ((int (length s), Some (cstr_of s)), sk))"

text \<open>A bulk string after its prefix.\<close>

definition recv_bulk :: "sock \<Rightarrow> nat \<Rightarrow> ((int \<times> string option) \<times> sock) res" where
  "recv_bulk sk out_len = (case read_line_raw sk 32 of
       ((_, None), sk) \<Rightarrow> Inr ((-1, Some ''''), sk)
     | ((_, Some lenbuf), sk) \<Rightarrow>
         bindr (atoi lenbuf) (\<lambda>blen.
         if blen < 0 then Inr ((-1, Some (snprintf_cut out_len ''(nil)'')), sk)
         else if blen = 0 then Inr ((0, Some ''''), snd (read_exact sk 2))
         else if nat blen \<ge> out_len - 1 then Inr ((-1, Some ''''), sk)
         else (case read_exact sk (nat blen) of ((r, bs), sk) \<Rightarrow>
           if r < 0 then Inr ((-1, Some ''''), sk)
           else Inr ((blen, Some (cstr_of bs)), snd (read_exact sk 2)))))"

text \<open>The elements of an array; the buffer holds 128 of them.\<close>

fun recv_elems :: "(sock \<Rightarrow> nat \<Rightarrow> ((int \<times> string option) \<times> sock) res) \<Rightarrow> nat \<Rightarrow> sock \<Rightarrow> (string list \<times> sock) res" where
  "recv_elems recv 0 sk = Inr ([], sk)"
| "recv_elems recv (Suc n) sk =
     bindr (recv sk CLI_BUFFER_SIZE) (\<lambda>((r, elem), sk).
     bindr (if r < 0 then Inr ''(nil)'' else case elem of None \<Rightarrow> Inl Uninit | Some e \<Rightarrow> Inr e) (\<lambda>e.
     bindr (recv_elems recv n sk) (\<lambda>(es, sk). Inr (take (CLI_BUFFER_SIZE - 1) e # es, sk))))"

fun array_loop :: "nat \<Rightarrow> nat \<Rightarrow> string \<Rightarrow> string list \<Rightarrow> string" where
  "array_loop out_len i out [] = out"
| "array_loop out_len i out (e # es) =
     (let out = (if i > 0 \<and> length out < out_len - 2 then out @ '' '' else out) in
      if length out + length e \<ge> out_len then out else array_loop out_len (Suc i) (out @ e) es)"

definition array_text :: "nat \<Rightarrow> int \<Rightarrow> string list \<Rightarrow> string" where
  "array_text out_len arrlen es =
     (if arrlen = 3 \<and> length es = 3 \<and> strcmp (es ! 0) ''message'' = 0
      then snprintf_cut out_len (es ! 1 @ '': '' @ es ! 2)
      else if arrlen = 3 \<and> length es \<ge> 1 \<and> (strcmp (es ! 0) ''subscribe'' = 0 \<or> strcmp (es ! 0) ''unsubscribe'' = 0)
      then snprintf_cut out_len (es ! 0 @ '' '' @ es ! 1 @ '' '' @ es ! 2)
      else array_loop out_len 0 [] es)"

text \<open>
  The decoder calls itself for the elements of an array; each call needs half a megabyte of stack,
  and \<open>frames\<close> counts the calls that still fit.
\<close>

fun recv_resp_raw :: "nat \<Rightarrow> sock \<Rightarrow> nat \<Rightarrow> ((int \<times> string option) \<times> sock) res" where
  "recv_resp_raw 0 sk out_len = Inl Diverges"
| "recv_resp_raw (Suc frames) sk out_len = (case sock_read sk 1 of
       ([], sk) \<Rightarrow> Inr ((-1, Some ''''), sk)
     | (c # _, sk) \<Rightarrow>
         if c = CHR ''+'' \<or> c = CHR '':'' then Inr (read_line_raw sk out_len)
         else if c = CHR ''-'' then (case read_line_raw sk out_len of ((_, out), sk) \<Rightarrow> Inr ((-1, out), sk))
         else if c = CHR ''$'' then recv_bulk sk out_len
         else if c = CHR ''*'' then
           (case read_line_raw sk 32 of
              ((_, None), sk) \<Rightarrow> Inr ((-1, Some ''''), sk)
            | ((_, Some lenbuf), sk) \<Rightarrow>
                bindr (atoi lenbuf) (\<lambda>arrlen.
                if arrlen \<le> 0 then Inr ((-1, Some (snprintf_cut out_len ''(empty)'')), sk)
                else bindr (recv_elems (recv_resp_raw frames) (min (nat arrlen) 128) sk) (\<lambda>(es, sk).
                     let out = array_text out_len arrlen es in Inr ((int (length out), Some out), sk))))
         else Inr ((-1, Some ''''), sk))"

declare recv_resp_raw.simps(2) [simp del]

subsection \<open>The one-shot command and the interactive loop\<close>

text \<open>What is printed of a reply: the text, unless it is empty.\<close>

definition shown :: "(int \<times> string option) \<Rightarrow> string res" where
  "shown reply = (case snd reply of None \<Rightarrow> Inl Uninit | Some s \<Rightarrow> Inr (if s = [] then [] else s @ [newline]))"

text \<open>\<open>main\<close> with a command: the bytes sent, and the text printed.\<close>

definition one_shot :: "nat \<Rightarrow> string list \<Rightarrow> sock \<Rightarrow> (string \<times> string) res" where
  "one_shot frames args sk =
     (let cmd = join_words CLI_BUFFER_SIZE args in
      bindr (recv_resp_raw frames sk CLI_BUFFER_SIZE) (\<lambda>(reply, _).
      bindr (shown reply) (\<lambda>txt. Inr (send_cmd cmd, txt))))"

text \<open>The number of acknowledgements the client waits for after a line that subscribes.\<close>

definition ack_count :: "string \<Rightarrow> nat" where
  "ack_count line = 1 + length (filter (\<lambda>c. c = CHR '' '') (drop 9 line))"

fun ack_loop :: "nat \<Rightarrow> nat \<Rightarrow> sock \<Rightarrow> (string \<times> sock) res" where
  "ack_loop frames 0 sk = Inr ([], sk)"
| "ack_loop frames (Suc n) sk =
     bindr (recv_resp_raw frames sk CLI_BUFFER_SIZE) (\<lambda>(reply, sk).
     if fst reply < 0 then Inr ([], sk)
     else bindr (shown reply) (\<lambda>txt. bindr (ack_loop frames n sk) (\<lambda>(out, sk). Inr (txt @ out, sk))))"

text \<open>A round of \<open>repl_loop\<close> for a line that is not empty: what follows it.\<close>

datatype repl_next = Repl_Sub | Repl_Quit | Repl_Next

definition repl_round :: "nat \<Rightarrow> string \<Rightarrow> sock \<Rightarrow> (repl_next \<times> string \<times> string \<times> sock) res" where
  "repl_round frames line sk =
     (if prefix_nocase line ''SUBSCRIBE''
      then bindr (ack_loop frames (ack_count line) sk) (\<lambda>(txt, sk). Inr (Repl_Sub, send_cmd line, txt, sk))
      else bindr (recv_resp_raw frames sk CLI_BUFFER_SIZE) (\<lambda>(reply, sk).
           bindr (shown reply) (\<lambda>txt.
           Inr (if prefix_nocase line ''QUIT'' then Repl_Quit else Repl_Next, send_cmd line, txt, sk))))"

subsection \<open>The line editor of the subscribed mode\<close>

text \<open>\<open>ui_sent\<close> are the bytes sent to the server, \<open>ui_tty\<close> what is printed.\<close>

record sub_ui =
  ui_line :: string
  ui_active :: bool
  ui_sent :: string
  ui_tty :: string

definition clear_line :: string where
  "clear_line = [CHR 0x0D, CHR 0x1B] @ ''[K''"

text \<open>\<open>char\<close> is signed: a byte from 128 on is less than a space.\<close>

definition ui_key :: "char \<Rightarrow> sub_ui \<Rightarrow> sub_ui" where
  "ui_key c u =
     (if c = newline \<or> c = CHR 0x0D
      then
        let u = u\<lparr>ui_tty := ui_tty u @ clear_line @ [newline]\<rparr> in
        if ui_line u = [] then u
        else if same_nocase (ui_line u) ''QUIT''
        then u\<lparr>ui_sent := ui_sent u @ send_cmd ''QUIT'', ui_active := False\<rparr>
        else u\<lparr>ui_sent := ui_sent u @ send_cmd (ui_line u), ui_line := []\<rparr>
      else if byte_of c = 127 \<or> byte_of c = 8
      then
        (if ui_line u = [] then u
         else u\<lparr>ui_line := butlast (ui_line u), ui_tty := ui_tty u @ [CHR 0x08, CHR '' '', CHR 0x08]\<rparr>)
      else if 32 \<le> byte_of c \<and> byte_of c < 128
      then
        (if length (ui_line u) < CLI_BUFFER_SIZE * 2 - 2
         then u\<lparr>ui_line := ui_line u @ [c], ui_tty := ui_tty u @ [c]\<rparr> else u)
      else u)"

text \<open>A reply of the server that arrives while the user types.\<close>

definition ui_reply :: "int \<times> string option \<Rightarrow> sub_ui \<Rightarrow> sub_ui res" where
  "ui_reply reply u = (case reply of
       (_, None) \<Rightarrow> Inl Uninit
     | (r, Some s) \<Rightarrow>
         Inr (if s = [] then (if r < 0 then u\<lparr>ui_active := False\<rparr> else u)
              else u\<lparr>ui_tty := ui_tty u @ clear_line @ s @ [newline] @ (if ui_line u = [] then [] else ''> '' @ ui_line u)\<rparr>))"

subsection \<open>Decoding\<close>

lemma sock_read_one: "sk_in sk = c # t \<Longrightarrow> \<exists>sk'. sock_read sk (Suc 0) = ([c], sk') \<and> sk_in sk' = t"
  by (simp add: sock_read_def)

lemma read_line_ok:
  assumes "sk_in sk = s @ CRLF @ t" "CHR 0x0D \<notin> set s" "newline \<notin> set s" "length s < room"
  shows "\<exists>sk'. read_line_loop sk room = (Some s, sk') \<and> sk_in sk' = t"
  using assms
proof (induction s arbitrary: sk room)
  case Nil
  then obtain sk1 where 1: "sock_read sk (Suc 0) = ([CHR 0x0D], sk1)" "sk_in sk1 = newline # t"
    using sock_read_one [of sk "CHR 0x0D" "newline # t"] by (auto simp: CRLF_def)
  obtain sk2 where 2: "sock_read sk1 (Suc 0) = ([newline], sk2)" "sk_in sk2 = t"
    using sock_read_one [OF 1(2)] by auto
  have "read_line_loop sk1 room = (Some [], sk2)" using 2 Nil.prems(4) by (subst read_line_loop.simps) simp
  with 1 2 Nil.prems(4) show ?case by (subst read_line_loop.simps) simp
next
  case (Cons c s)
  obtain sk1 where 1: "sock_read sk (Suc 0) = ([c], sk1)" "sk_in sk1 = s @ CRLF @ t"
    using sock_read_one [of sk c "s @ CRLF @ t"] Cons.prems(1) by auto
  obtain sk2 where "read_line_loop sk1 (room - 1) = (Some s, sk2)" "sk_in sk2 = t"
    using Cons.IH [OF 1(2), of "room - 1"] Cons.prems by (auto simp: less_diff_conv)
  with 1 Cons.prems show ?case by (subst read_line_loop.simps) auto
qed

lemma read_exact_ok: "sk_in sk = s @ t \<Longrightarrow> \<exists>sk'. read_exact sk (length s) = ((0, s), sk') \<and> sk_in sk' = t"
proof (induction "length s" arbitrary: sk s rule: less_induct)
  case less
  show ?case
  proof (cases "s = []")
    case True
    with less.prems show ?thesis by (subst read_exact.simps) simp
  next
    case False
    let ?k = "min (length s) (max 1 (sk_pieces sk (sk_calls sk)))"
    let ?sk = "sk\<lparr>sk_in := drop ?k s @ t, sk_calls := Suc (sk_calls sk)\<rparr>"
    have k: "0 < ?k" "?k \<le> length s" using False by auto
    have "min (min (length s) (length (s @ t))) (max 1 (sk_pieces sk (sk_calls sk))) = ?k" by simp
    then have r: "sock_read sk (length s) = (take ?k s, ?sk)"
      using less.prems by (simp add: sock_read_def Let_def min.absorb1)
    have "length (drop ?k s) < length s" using k by simp
    from less.hyps [OF this, of ?sk] obtain sk' where
      "read_exact ?sk (length s - ?k) = ((0, drop ?k s), sk')" "sk_in sk' = t" by (auto simp del: length_drop simp: length_drop [symmetric])
    with r False k show ?thesis by (subst read_exact.simps) (auto simp: min_absorb2)
  qed
qed

text \<open>\<open>decodes frames bytes r txt\<close>: a reply is decoded to a text, and exactly its bytes are consumed.\<close>

definition decodes :: "nat \<Rightarrow> string \<Rightarrow> int \<Rightarrow> string \<Rightarrow> bool" where
  "decodes frames bytes r txt \<longleftrightarrow> (\<forall>sk t. sk_in sk = bytes @ t \<longrightarrow>
     (\<exists>sk'. recv_resp_raw frames sk CLI_BUFFER_SIZE = Inr ((r, Some txt), sk') \<and> sk_in sk' = t))"

definition plain :: "string \<Rightarrow> bool" where
  "plain s \<longleftrightarrow> is_cstr s \<and> CHR 0x0D \<notin> set s \<and> newline \<notin> set s"

lemma plain_dec: "plain (nat_dec n)" "plain (int_dec i)"
proof -
  show "plain (nat_dec n)" for n using nat_dec_digits digit_chars by (fastforce simp: plain_def is_cstr_def)
  then show "plain (int_dec i)" by (auto simp: int_dec_def plain_def is_cstr_def)
qed

lemma read_line_raw_ok:
  assumes "sk_in sk = s @ CRLF @ t" "plain s" "Suc (length s) < len"
  shows "\<exists>sk'. read_line_raw sk len = ((int (length s), Some s), sk') \<and> sk_in sk' = t"
  using read_line_ok [of sk s t "len - 1"] assms by (auto simp: read_line_raw_def plain_def cstr_of_id less_diff_conv)

lemma decodes_line:
  assumes "plain s" "Suc (length s) < CLI_BUFFER_SIZE"
  shows "decodes (Suc frames) (''+'' @ s @ CRLF) (int (length s)) s" "decodes (Suc frames) ('':'' @ s @ CRLF) (int (length s)) s"
    "decodes (Suc frames) (''-'' @ s @ CRLF) (-1) s"
proof -
  have "\<exists>sk1 sk2. sock_read sk (Suc 0) = ([c], sk1) \<and> read_line_raw sk1 CLI_BUFFER_SIZE = ((int (length s), Some s), sk2) \<and> sk_in sk2 = t"
    if "sk_in sk = c # s @ CRLF @ t" for sk c t
    using sock_read_one [OF that] read_line_raw_ok [OF _ assms] by blast
  then show "decodes (Suc frames) (''+'' @ s @ CRLF) (int (length s)) s" "decodes (Suc frames) ('':'' @ s @ CRLF) (int (length s)) s"
    "decodes (Suc frames) (''-'' @ s @ CRLF) (-1) s" by (fastforce simp: decodes_def recv_resp_raw.simps(2))+
qed

lemma decodes_bulk:
  assumes "is_cstr s" "length s < CLI_BUFFER_SIZE - 1"
  shows "decodes (Suc frames) (resp_bulk s) (int (length s)) s"
  unfolding decodes_def
proof (intro allI impI)
  fix sk :: sock and t
  assume sk: "sk_in sk = resp_bulk s @ t"
  let ?d = "nat_dec (length s)"
  have len: "length s < 4095" using assms(2) by (simp add: CLI_BUFFER_SIZE_def)
  then have d: "length ?d \<le> 4" by (intro nat_dec_length) simp_all
  have a: "atoi ?d = Inr (int (length s))"
    using atoi_int_dec [of "int (length s)" "''''"] len by (simp add: int_dec_def in_i32_def)
  have "sk_in sk = CHR ''$'' # (?d @ CRLF @ (s @ CRLF @ t))" using sk by (simp add: resp_bulk_def)
  from sock_read_one [OF this] obtain sk1 where 1: "sock_read sk (Suc 0) = (''$'', sk1)" "sk_in sk1 = ?d @ CRLF @ (s @ CRLF @ t)" by blast
  from read_line_raw_ok [OF 1(2) plain_dec(1), of 32] d obtain sk2 where
    2: "read_line_raw sk1 32 = ((int (length ?d), Some ?d), sk2)" "sk_in sk2 = s @ CRLF @ t" by auto
  from read_exact_ok [OF 2(2)] obtain sk3 where 3: "read_exact sk2 (length s) = ((0, s), sk3)" "sk_in sk3 = CRLF @ t" by blast
  from read_exact_ok [OF 3(2)] obtain sk4 where 4: "read_exact sk3 2 = ((0, CRLF), sk4)" "sk_in sk4 = t"
    by (auto simp: CRLF_def numeral_2_eq_2)
  have "recv_bulk sk1 CLI_BUFFER_SIZE = Inr ((int (length s), Some s), sk4)"
  proof (cases "s = []")
    case True
    then have "sk3 = sk2" using 3(1) by (simp add: read_exact.simps)
    with True 2 4 a show ?thesis by (simp add: recv_bulk_def)
  next
    case False
    with 2 3 4 a assms show ?thesis by (simp add: recv_bulk_def cstr_of_id)
  qed
  with 1(1) 4(2) show "\<exists>sk'. recv_resp_raw (Suc frames) sk CLI_BUFFER_SIZE = Inr ((int (length s), Some s), sk') \<and> sk_in sk' = t"
    by (simp add: recv_resp_raw.simps(2))
qed

lemma decodes_nil: "decodes (Suc frames) (''$-1'' @ CRLF) (-1) ''(nil)''"
  unfolding decodes_def
proof (intro allI impI)
  fix sk :: sock and t
  assume "sk_in sk = (''$-1'' @ CRLF) @ t"
  then have "sk_in sk = CHR ''$'' # (''-1'' @ CRLF @ t)" by simp
  from sock_read_one [OF this] obtain sk1 where 1: "sock_read sk (Suc 0) = (''$'', sk1)" "sk_in sk1 = ''-1'' @ CRLF @ t" by blast
  have p: "plain ''-1''" by (simp add: plain_def is_cstr_def)
  from read_line_raw_ok [OF 1(2) p, of 32] obtain sk2 where
    2: "read_line_raw sk1 32 = ((2, Some ''-1''), sk2)" "sk_in sk2 = t" by auto
  have "int_dec (-1) = ''-1''" by code_simp
  with atoi_int_dec [of "-1" "''''"] have "atoi ''-1'' = Inr (-1)" by (simp add: in_i32_def)
  with 1 2 show "\<exists>sk'. recv_resp_raw (Suc frames) sk CLI_BUFFER_SIZE = Inr ((-1, Some ''(nil)''), sk') \<and> sk_in sk' = t"
    by (simp add: recv_resp_raw.simps(2) recv_bulk_def snprintf_cut_def CLI_BUFFER_SIZE_def)
qed

text \<open>Elements that are decoded one after the other.\<close>

lemma recv_elems_ok:
  assumes "\<forall>s \<in> set ss. is_cstr s \<and> length s < CLI_BUFFER_SIZE - 1" "sk_in sk = concat (map resp_bulk ss) @ t"
  shows "\<exists>sk'. recv_elems (recv_resp_raw (Suc frames)) (length ss) sk = Inr (ss, sk') \<and> sk_in sk' = t"
  using assms
proof (induction ss arbitrary: sk)
  case (Cons s ss)
  have "decodes (Suc frames) (resp_bulk s) (int (length s)) s" using Cons.prems(1) by (intro decodes_bulk) auto
  then obtain sk1 where 1: "recv_resp_raw (Suc frames) sk CLI_BUFFER_SIZE = Inr ((int (length s), Some s), sk1)" "sk_in sk1 = concat (map resp_bulk ss) @ t"
    using Cons.prems(2) unfolding decodes_def by fastforce
  from Cons.IH [OF _ 1(2)] Cons.prems(1) obtain sk2 where
    "recv_elems (recv_resp_raw (Suc frames)) (length ss) sk1 = Inr (ss, sk2)" "sk_in sk2 = t" by auto
  with 1 Cons.prems(1) show ?case by simp
qed simp

lemma array_loop_ok:
  "length (out @ concat (map ((@) '' '') es)) < out_len - 1 \<Longrightarrow> 0 < i \<Longrightarrow>
     array_loop out_len i out es = out @ concat (map ((@) '' '') es)"
  by (induction out_len i out es rule: array_loop.induct) (auto simp: Let_def)

lemma array_text_join:
  assumes "length (join_args ss) < CLI_BUFFER_SIZE - 1" "length ss \<noteq> 3 \<or> hd ss \<notin> {''message'', ''subscribe'', ''unsubscribe''}"
  shows "array_text CLI_BUFFER_SIZE (int (length ss)) ss = join_args ss"
proof -
  have "array_loop CLI_BUFFER_SIZE 0 [] ss = join_args ss"
  proof (cases ss)
    case (Cons s ss')
    with assms(1) show ?thesis by (auto simp: join_args_Cons array_loop_ok simp del: join_args.simps(3))
  qed simp
  moreover have "hd ss = ss ! 0" if "length ss = 3" using that by (cases ss) auto
  ultimately show ?thesis using assms(2) by (auto simp: array_text_def)
qed

lemma decodes_array:
  assumes "ss \<noteq> []" "length ss \<le> 128" "\<forall>s \<in> set ss. is_cstr s \<and> length s < CLI_BUFFER_SIZE - 1"
  shows "decodes (Suc (Suc frames)) (''*'' @ nat_dec (length ss) @ CRLF @ concat (map resp_bulk ss))
    (int (length (array_text CLI_BUFFER_SIZE (int (length ss)) ss))) (array_text CLI_BUFFER_SIZE (int (length ss)) ss)"
  unfolding decodes_def
proof (intro allI impI)
  fix sk :: sock and t
  let ?d = "nat_dec (length ss)" and ?e = "concat (map resp_bulk ss) @ t"
  assume "sk_in sk = (''*'' @ ?d @ CRLF @ concat (map resp_bulk ss)) @ t"
  then have "sk_in sk = CHR ''*'' # (?d @ CRLF @ ?e)" by simp
  from sock_read_one [OF this] obtain sk1 where 1: "sock_read sk (Suc 0) = (''*'', sk1)" "sk_in sk1 = ?d @ CRLF @ ?e" by blast
  have d: "length ?d \<le> 3" using assms(2) by (intro nat_dec_length) simp_all
  have a: "atoi ?d = Inr (int (length ss))"
    using atoi_int_dec [of "int (length ss)" "''''"] assms(2) by (simp add: int_dec_def in_i32_def)
  from read_line_raw_ok [OF 1(2) plain_dec(1), of 32] d obtain sk2 where
    2: "read_line_raw sk1 32 = ((int (length ?d), Some ?d), sk2)" "sk_in sk2 = ?e" by auto
  from recv_elems_ok [OF assms(3) 2(2)] obtain sk3 where
    3: "recv_elems (recv_resp_raw (Suc frames)) (length ss) sk2 = Inr (ss, sk3)" "sk_in sk3 = t" by blast
  have "min (nat (int (length ss))) 128 = length ss" using assms(2) by simp
  with 1 2 3 a assms(1)
  show "\<exists>sk'. recv_resp_raw (Suc (Suc frames)) sk CLI_BUFFER_SIZE =
      Inr ((int (length (array_text CLI_BUFFER_SIZE (int (length ss)) ss)), Some (array_text CLI_BUFFER_SIZE (int (length ss)) ss)), sk') \<and> sk_in sk' = t"
    by (subst recv_resp_raw.simps(2)) (simp add: Let_def)
qed

subsection \<open>The line editor\<close>

text \<open>The edited line never outgrows its array of 8192 bytes and holds printable bytes only.\<close>

definition ui_inv :: "sub_ui \<Rightarrow> bool" where
  "ui_inv u \<longleftrightarrow> length (ui_line u) + 2 \<le> CLI_BUFFER_SIZE * 2 \<and> (\<forall>c \<in> set (ui_line u). 32 \<le> byte_of c \<and> byte_of c < 127)"

lemma ui_key_inv: "ui_inv u \<Longrightarrow> ui_inv (ui_key c u)"
  by (auto simp: ui_inv_def ui_key_def Let_def CLI_BUFFER_SIZE_def dest: in_set_butlastD)

definition printable :: "char \<Rightarrow> bool" where
  "printable c \<longleftrightarrow> 32 \<le> byte_of c \<and> byte_of c < 127"

lemma printable_not_control: "printable c \<Longrightarrow> c \<noteq> newline \<and> c \<noteq> CHR 0x0D"
  by (auto simp: printable_def byte_of_def)

lemma ui_type:
  "\<forall>c \<in> set s. printable c \<Longrightarrow> length (ui_line u) + length s + 2 \<le> CLI_BUFFER_SIZE * 2 \<Longrightarrow>
     fold ui_key s u = u\<lparr>ui_line := ui_line u @ s, ui_tty := ui_tty u @ s\<rparr>"
proof (induction s arbitrary: u)
  case (Cons c s)
  have "ui_key c u = u\<lparr>ui_line := ui_line u @ [c], ui_tty := ui_tty u @ [c]\<rparr>"
    using Cons.prems printable_not_control [of c] by (simp add: ui_key_def printable_def)
  with Cons show ?case by simp
qed simp

text \<open>The number of acknowledgements that are awaited is one more than there are channels.\<close>

lemma ack_count_channels:
  assumes "\<forall>w \<in> set chs. word_arg w"
  shows "ack_count (''SUBSCRIBE '' @ join_args chs) = length chs + (if chs = [] then 2 else 1)"
proof -
  have no: "filter (\<lambda>c. c = CHR '' '') w = []" if "word_arg w" for w
    using that delim_space by (auto simp: word_arg_def filter_empty_conv)
  have "length (filter (\<lambda>c. c = CHR '' '') (join_args chs)) = length chs - 1" using assms
    by (induction chs rule: join_args.induct) (simp_all add: no)
  then show ?thesis by (auto simp: ack_count_def Suc_diff_le)
qed

end
