(* ===== verification/System_Properties.thy ===== *)
theory System_Properties
  imports Command_Properties Cluster_Node Cli
begin

text \<open>
  The properties of persistence, of the cluster and of the client.
\<close>

subsection \<open>Persistence\<close>

text \<open>C9. A saved database of at most sixteen string keys comes back but for its expiry times: reopening the file
  gives every string key with its value, version, time stamp and origin, no other key, and no
  expiry time, so that keys that were to expire are permanent; the version counter is at least every
  restored version.\<close>

theorem save_open_roundtrip:
  assumes "kv_inv db" "savable_db db" "t_path db = Some p" "writable p" "length (saved_recs db) \<le> 16"
  shows "\<exists>fs' db'. kv_save writable db fs = (0, fs') \<and> kv_open mem now (Some p) fs' = Inr db' \<and> kv_inv db' \<and>
    (\<forall>k. kv_map db' k = Option.bind (kv_map db k) reborn) \<and>
    (\<forall>k obj. kv_map db' k = Some obj \<longrightarrow> o_ttl obj = -1 \<and> o_version obj \<le> t_version db')"
proof -
  let ?i = "kv_init (Some p)"
  have size: "2 * (used (t_entries ?i) + length (saved_recs db)) \<le> t_capacity ?i"
    "4 * (t_count ?i + length (saved_recs db)) \<le> 3 * t_capacity ?i"
    using assms(5) by (simp_all add: kv_init_def INITIAL_CAPACITY_def)
  obtain db' where d: "restore mem now ?i (saved_recs db) = Inr db'" "kv_inv db'"
    "kv_map db' = kv_map ?i ++ map_of (map rec_binding (saved_recs db))" "\<forall>(k, v, m) \<in> set (saved_recs db). m_version m \<le> t_version db'"
    using restore_exact [OF kv_init_inv size saved_recs_map(1) [OF assms(1)]] by blast
  have m: "kv_map db' k = Option.bind (kv_map db k) reborn" for k
    using d(3) saved_recs_map(2) [OF assms(1), of k] by (simp add: kv_init_map)
  have "o_ttl obj = -1 \<and> o_version obj \<le> t_version db'" if "kv_map db' k = Some obj" for k obj
  proof -
    have "map_of (map rec_binding (saved_recs db)) k = Some obj" using that d(3) by (simp add: kv_init_map)
    then have "(k, obj) \<in> rec_binding ` set (saved_recs db)" by (metis map_of_SomeD set_map)
    then obtain v mt where "(k, v, mt) \<in> set (saved_recs db)" "obj = rec_obj v mt" by (auto simp: rec_binding_def)
    with d(4) show ?thesis by (auto simp: rec_obj_def)
  qed
  moreover have "kv_save writable db fs = (0, fs(p \<mapsto> save_file db))" using assms(3,4) by (simp add: kv_save_def)
  moreover have "kv_open mem now (Some p) (fs(p \<mapsto> save_file db)) = Inr db'"
    using d(1) load_file_all [OF assms(1,2)] by (simp add: kv_open_def)
  ultimately show ?thesis using d(2) m by blast
qed

lemma kv_init_version: "t_version (kv_init path) = 0"
  by (simp add: kv_init_def)

text \<open>A database with one string key.\<close>

lemma set_once:
  "\<exists>db. kv_set (\<lambda>_. True) 7 (kv_init path) ''k'' ''v'' = Inr (0, db) \<and> kv_get db ''k'' = Some ''v'' \<and> kv_inv db \<and> t_count db < 2 ^ 64 \<and> t_path db = path \<and>
     saved_recs db = [(''k'', ''v'', \<lparr>m_version = 1, m_wallclock = 7, m_origin = ''''\<rparr>)]"
proof -
  let ?m = "\<lparr>m_version = 1, m_wallclock = 7, m_origin = ''''\<rparr>"
  let ?o = "\<lparr>o_val = OBJ_STRING ''v'', o_ttl = -1, o_version = 1, o_wallclock = 7, o_origin = ''''\<rparr>"
  obtain db where d: "kv_set (\<lambda>_. True) 7 (kv_init path) ''k'' ''v'' = Inr (0, db)" "kv_inv db" "kv_map db = [''k'' \<mapsto> ?o]"
    using kv_set_ok [OF kv_init_inv, of "\<lambda>_. True" 7 path "''k''" "''v''"] kv_init_can_grow
      kv_init_version by (auto simp: kv_init_map)
  have cp: "t_count db < 2 ^ 64 \<and> t_path db = path"
    using d(1) by (auto simp: kv_set_def kv_set_meta_def kv_set_object_def kv_next_version_def kv_init_def bump_def put_obj_def overfull_def
        INITIAL_CAPACITY_def Let_def split: if_splits prod.splits option.splits)
  have "occs (t_entries db) = [(''k'', ?o)]"
  proof -
    have m: "map_of (occs (t_entries db)) = [''k'' \<mapsto> ?o]" using d(3) by (simp add: kv_map_def tbl_map_def)
    have dist: "distinct (map fst (occs (t_entries db)))" using d(2) by (simp add: kv_inv_def tbl_wf_distinct)
    have "(x, y) \<in> set (occs (t_entries db)) \<longleftrightarrow> x = ''k'' \<and> y = ?o" for x y
      using map_of_eq_Some_iff [OF dist, of x y] m by (auto split: if_splits)
    then have "set (occs (t_entries db)) = {(''k'', ?o)}" by auto
    moreover have "distinct (occs (t_entries db))" using dist by (simp add: distinct_map)
    ultimately have "length (occs (t_entries db)) = 1" using distinct_card [of "occs (t_entries db)"] by simp
    then obtain e where "occs (t_entries db) = [e]" by (auto simp: length_Suc_conv)
    with \<open>set (occs (t_entries db)) = {(''k'', ?o)}\<close> show ?thesis by simp
  qed
  moreover have "kv_get db ''k'' = Some ''v''" using kv_get_ok [OF d(2), of "''k''"] d(3) by simp
  ultimately show ?thesis using d(1,2) cp by (intro exI [of _ db]) (simp add: saved_recs_def obj_meta_def)
qed

lemma savable_once: "saved_recs db = [(''k'', ''v'', \<lparr>m_version = 1, m_wallclock = 7, m_origin = ''''\<rparr>)] \<Longrightarrow> t_count db < 2 ^ 64 \<Longrightarrow> savable_db db"
  by (simp add: savable_db_def saveable_def is_cstr_def)

theorem save_open_roundtrip_witness:
  "\<exists>db fs' db'. kv_save (\<lambda>_. True) db Map.empty = (0, fs') \<and> kv_open (\<lambda>_. True) 9 (Some ''f'') fs' = Inr db' \<and>
     kv_get db' ''k'' = Some ''v''"
proof -
  obtain db where d: "kv_set (\<lambda>_. True) 7 (kv_init (Some ''f'')) ''k'' ''v'' = Inr (0, db)" "kv_inv db" "t_count db < 2 ^ 64"
    "t_path db = Some ''f''" "saved_recs db = [(''k'', ''v'', \<lparr>m_version = 1, m_wallclock = 7, m_origin = ''''\<rparr>)]"
    using set_once by blast
  obtain fs' db' where s: "kv_save (\<lambda>_. True) db Map.empty = (0, fs')" "kv_open (\<lambda>_. True) 9 (Some ''f'') fs' = Inr db'" "kv_inv db'"
    "\<forall>k. kv_map db' k = Option.bind (kv_map db k) reborn"
    using save_open_roundtrip [OF d(2) savable_once [OF d(5,3)] d(4), of "\<lambda>_. True" Map.empty "\<lambda>_. True" 9] d(5) by auto
  have "(''k'', ''v'', \<lparr>m_version = 1, m_wallclock = 7, m_origin = ''''\<rparr>) \<in> set (saved_recs db)" using d(5) by simp
  from saved_recs_reborn [OF d(2) this] have "kv_map db' ''k'' = Some (rec_obj ''v'' \<lparr>m_version = 1, m_wallclock = 7, m_origin = ''''\<rparr>)"
    using s(4) by auto
  then have "kv_get db' ''k'' = Some ''v''" using kv_get_ok [OF s(3), of "''k''"] by (simp add: rec_obj_def)
  with s show ?thesis by blast
qed

text \<open>C20. Whatever part of a saved file survives a crash, opening it neither faults nor fails, gives
  a well-formed database, and every key it holds was saved with that value and metadata.\<close>

theorem open_truncated_safe:
  assumes "kv_inv db" "savable_db db"
  shows "\<exists>db'. kv_open mem now (Some p) [p \<mapsto> take j (save_file db)] = Inr db' \<and> kv_inv db' \<and>
    (\<forall>k obj. kv_map db' k = Some obj \<longrightarrow> (\<exists>saved. kv_map db k = Some saved \<and> reborn saved = Some obj))"
proof -
  obtain i where "load_file mem now (take j (save_file db)) (kv_init (Some p)) = restore mem now (kv_init (Some p)) (take i (saved_recs db))"
    using load_file_cut [OF assms] by blast
  moreover obtain db' where d: "restore mem now (kv_init (Some p)) (take i (saved_recs db)) = Inr db'" "kv_inv db'"
    "\<forall>k obj. kv_map db' k = Some obj \<longrightarrow> kv_map (kv_init (Some p)) k = Some obj \<or>
       (\<exists>v m. (k, v, m) \<in> set (take i (saved_recs db)) \<and> obj = rec_obj v m)"
    using restore_sub [OF kv_init_inv] by blast
  ultimately have "kv_open mem now (Some p) [p \<mapsto> take j (save_file db)] = Inr db'" by (simp add: kv_open_def)
  moreover have "\<exists>saved. kv_map db k = Some saved \<and> reborn saved = Some obj" if b: "kv_map db' k = Some obj" for k obj
  proof -
    obtain v m where "(k, v, m) \<in> set (saved_recs db)" "obj = rec_obj v m"
      using d(3) [rule_format, OF b] in_set_takeD [of _ i "saved_recs db"] unfolding kv_init_map by blast
    then show ?thesis using saved_recs_reborn [OF assms(1)] by blast
  qed
  ultimately show ?thesis using d(2) by blast
qed

theorem open_truncated_safe_witness:
  "\<exists>db db'. kv_get db ''k'' = Some ''v'' \<and> kv_open (\<lambda>_. True) 9 (Some ''f'') [''f'' \<mapsto> take 20 (save_file db)] = Inr db' \<and> kv_inv db'"
proof -
  obtain db where d: "kv_get db ''k'' = Some ''v''" "kv_inv db" "t_count db < 2 ^ 64"
    "saved_recs db = [(''k'', ''v'', \<lparr>m_version = 1, m_wallclock = 7, m_origin = ''''\<rparr>)]"
    using set_once by blast
  with open_truncated_safe [OF d(2) savable_once [OF d(4,3)], of "\<lambda>_. True" 9 "''f''" 20] show ?thesis by blast
qed

subsection \<open>Cluster\<close>

text \<open>C10. The way of replicated writes through the code, under these conditions: fewer than 1024 writes are queued on a node
  whose queue is fresh and which has exactly one peer, alive, that takes every write to its socket; keys, values and
  origins are words and a line fits the receiver's buffer. Then as many turns of the daemon send the
  writes in order and once each, and a node that receives these bytes, cut into pieces in any way, ends with
  the store that applying the same writes in the same order gives. (The documentation calls replication non-functional;
  the defects that remain, the wrapped queue, arrival order and missing deletions, are the subject of other properties.)\<close>

theorem replicated_writes_arrive:
  assumes "\<forall>w \<in> set ws. good_write w" "length ws < 1024" "c_ring cs = repl_ring_init 1024" "c_peers cs = [p]" "live p"
    "\<forall>msg. wr (p_out_fd p) msg"
  shows "\<exists>cs1 cs2 out. replicate_all cs ws = Inr cs1 \<and> repl_turns wr (length ws) cs1 = Inr (cs2, out) \<and>
    (\<forall>m \<in> set out. fst m = p_out_fd p) \<and> length out = length ws \<and>
    (\<forall>mem now fd pieces cs' db. map_sum id b_db (bus_client mem now fd pieces (concat (map snd out)) cs' db) = restore mem now db ws)"
proof -
  let ?msgs = "map (\<lambda>w. set_line w @ NL) ws"
  have ring: "rr_inv (c_ring cs)" "rr_room (c_ring cs) (length ws)" "rr_items (c_ring cs) = []"
    using assms(2,3) repl_init_ok [of 1024] by simp_all
  obtain r where r: "replicate_all cs ws = Inr (cs\<lparr>c_ring := r\<rparr>)" "rr_inv r" "rr_items r = ?msgs"
    using replicate_all_queues [OF assms(1) ring(1,2)] ring(3) by auto
  obtain cs2 where t: "repl_turns wr (length ?msgs) (cs\<lparr>c_ring := r\<rparr>) = Inr (cs2, map (Pair (p_out_fd p)) ?msgs)"
    using repl_turns_drain [of "cs\<lparr>c_ring := r\<rparr>" ?msgs p wr] r(2,3) assms(4-6) by auto
  have e: "concat (map snd (map (Pair (p_out_fd p)) ?msgs)) = concat (map (\<lambda>w. set_line w @ [newline]) ws)"
    by (simp add: NL_def comp_def del: set_line.simps)
  have "map_sum id b_db (bus_client mem now fd pieces (concat (map snd (map (Pair (p_out_fd p)) ?msgs))) cs' db) = restore mem now db ws"
    for mem now fd pieces cs' db
    using bus_client_writes [OF assms(1), of mem now fd pieces cs' db] unfolding e by (cases "restore mem now db ws") auto
  with r(1) t show ?thesis by (intro exI conjI) auto
qed

text \<open>A node with one live peer.\<close>

definition lone_peer :: cluster_peer where
  "lone_peer = \<lparr>p_info = \<lparr>n_id = ''n2'', n_host = ''h'', n_client_port = 1, n_cluster_port = 2, n_repl = REPL_AUTO\<rparr>,
     p_out_fd = 4, p_in_fd = -1, p_last_seen = 0, p_last_version = 0, p_alive = True\<rparr>"

definition small_cluster :: cluster_state where
  "small_cluster = \<lparr>c_my_id = ''n1'', c_bus_port = 16380, c_conf = \<lparr>cf_nodes = [], cf_my_node = 0, cf_my_cluster_port = 16380\<rparr>,
     c_peers = [lone_peer], c_peer_count = 1, c_ring = repl_ring_init 1024, c_listener_fd = 3, c_stop = False\<rparr>"

lemma u64_dec_small: "u64_dec 1 = ''1''" "u64_dec 2 = ''2''"
proof -
  have "nat_dec 1 = ''1''" "nat_dec 2 = ''2''" by code_simp+
  then show "u64_dec 1 = ''1''" "u64_dec 2 = ''2''" by (simp_all add: u64_dec_def)
qed

lemma good_write_one: "good_write (''k'', ''v'', \<lparr>m_version = 1, m_wallclock = 2, m_origin = ''n1''\<rparr>)"
  by (simp add: good_meta_def field_def is_cstr_def is_space_def byte_of_def meta_fields_def u64_dec_small)

theorem replicated_writes_arrive_witness:
  "\<exists>cs1 cs2 out. replicate_all small_cluster [(''k'', ''v'', \<lparr>m_version = 1, m_wallclock = 2, m_origin = ''n1''\<rparr>)] = Inr cs1 \<and>
     repl_turns (\<lambda>_ _. True) 1 cs1 = Inr (cs2, out) \<and> length out = 1"
  using replicated_writes_arrive [of "[(''k'', ''v'', \<lparr>m_version = 1, m_wallclock = 2, m_origin = ''n1''\<rparr>)]" small_cluster lone_peer "\<lambda>_ _. True"]
    good_write_one by (auto simp: small_cluster_def lone_peer_def live_def simp del: good_write.simps)

text \<open>C35. The replication queue breaks when its write index wraps around: after 1024 messages, each
  taken before the next came, the daemon takes the first slot again, whose message it has freed, so
  that freed memory is read and freed a second time.\<close>

theorem ring_use_after_free:
  assumes "length msgs = 1024"
  shows "qrun repl_enqueue repl_deq (repl_ring_init 1024) (concat (map (\<lambda>m. [Put m, Take]) msgs) @ [Take]) = Inl UseAfterFree"
  by (rule ring_wraps [OF repl_init_drained]) (use assms in \<open>auto simp: repl_ring_init_def\<close>)

theorem ring_use_after_free_witness:
  "qrun repl_enqueue repl_deq (repl_ring_init 1024) (concat (map (\<lambda>m. [Put m, Take]) (replicate 1024 ''m'')) @ [Take]) = Inl UseAfterFree"
  by (rule ring_use_after_free) simp

text \<open>C36. Writes from peers are not merged by version: of two replicated writes to one key the one
  that arrives last wins, whatever their versions, so two nodes that receive them in different
  orders keep different values.\<close>

theorem replicas_diverge:
  assumes "kv_inv db" "4 * (t_count db + 2) \<le> 3 * t_capacity db" "good_write (k, v1, m1)" "good_write (k, v2, m2)"
  shows "\<exists>a b. bus_client mem now fd pieces (set_line (k, v1, m1) @ NL @ set_line (k, v2, m2) @ NL) cs db = Inr a \<and>
    bus_client mem now fd pieces (set_line (k, v2, m2) @ NL @ set_line (k, v1, m1) @ NL) cs db = Inr b \<and>
    kv_get (b_db a) k = Some v2 \<and> kv_get (b_db b) k = Some v1"
proof -
  have "\<exists>b. bus_client mem now fd pieces (set_line (k, x, mx) @ NL @ set_line (k, y, my) @ NL) cs db = Inr b \<and> kv_get (b_db b) k = Some y"
    if g: "good_write (k, x, mx)" "good_write (k, y, my)" for x mx y my
  proof -
    have no: "\<not> overfull db" using assms(2) by (simp add: overfull_def)
    then have grow: "can_grow mem db" by (simp add: can_grow_def)
    then obtain d where d: "kv_set_meta mem now db k x mx = Inr (0, d)"
      using kv_set_object_ok [OF assms(1) create_stamp_inv, of mem k mx now x "Some mx"]
      unfolding kv_set_meta_def stamped_create by auto
    have "\<not> overfull d" using kv_set_object_size(1,2) [OF no d [unfolded kv_set_meta_def stamped_create]] assms(2)
      by (simp add: overfull_def)
    then have "can_grow mem d" by (simp add: can_grow_def)
    from restore_last [OF assms(1) grow d this, of y my] obtain a where
      a: "restore mem now db [(k, x, mx), (k, y, my)] = Inr a" "kv_inv a" "kv_map a k = Some (rec_obj y my)" by blast
    have "kv_get a k = Some y" using kv_get_ok [OF a(2), of k] a(3) by (simp add: rec_obj_def)
    moreover have "\<forall>w \<in> set [(k, x, mx), (k, y, my)]. good_write w" using g by simp
    from bus_client_writes [OF this, of mem now fd pieces cs db, unfolded a(1)]
    have "\<exists>b. bus_client mem now fd pieces (set_line (k, x, mx) @ NL @ set_line (k, y, my) @ NL) cs db = Inr b \<and> b_db b = a"
      by (auto simp: NL_def simp del: set_line.simps)
    ultimately show ?thesis by blast
  qed
  from this [OF assms(3,4)] this [OF assms(4,3)] show ?thesis by blast
qed

lemma good_write_two: "good_write (''k'', ''w'', \<lparr>m_version = 2, m_wallclock = 1, m_origin = ''n2''\<rparr>)"
  by (simp add: good_meta_def field_def is_cstr_def is_space_def byte_of_def meta_fields_def u64_dec_small)

theorem replicas_diverge_witness:
  "\<exists>w1 w2 a b. bus_client (\<lambda>_. True) 0 4 (\<lambda>_. 7) (set_line w1 @ NL @ set_line w2 @ NL) small_cluster (kv_init None) = Inr a \<and>
    bus_client (\<lambda>_. True) 0 4 (\<lambda>_. 7) (set_line w2 @ NL @ set_line w1 @ NL) small_cluster (kv_init None) = Inr b \<and>
    kv_get (b_db a) ''k'' = Some ''w'' \<and> kv_get (b_db b) ''k'' = Some ''v''"
proof -
  have "4 * (t_count (kv_init None) + 2) \<le> 3 * t_capacity (kv_init None)" by (simp add: kv_init_def INITIAL_CAPACITY_def)
  from replicas_diverge [OF kv_init_inv this good_write_one good_write_two] show ?thesis by blast
qed

text \<open>After a turn of the heartbeat daemon every peer that still counts as alive was heard of
  within the last two seconds, no peer is lost from the list and the queue of writes is untouched;
  the turn never faults.\<close>

theorem heartbeat_fresh:
  "\<exists>cs' out. hb_turn dial wr now version cs = Inr (cs', out) \<and> length (c_peers cs') = length (c_peers cs) \<and> c_ring cs' = c_ring cs \<and>
     list_all (\<lambda>p. now - p_last_seen p \<le> CLUSTER_DEAD_MS) (filter p_alive (c_peers cs'))"
  using hb_turn_fresh [of dial wr now version cs] by (auto simp: list_all_iff)

text \<open>C23. The search for a field in a configuration line, which jumps from one occurrence of the key to
  the next, is equivalent to its specification: the value at the first position where the key
  starts a word and is followed by an equals sign, cut to the buffer.\<close>

theorem field_search_equivalent:
  assumes "key \<noteq> []" "\<forall>c \<in> set key. \<not> is_space c"
  shows "parse_field_str line key n = map_option (take (n - 1)) (field_ref line key)"
  using field_loop_ref [OF assms, of line 0] by (simp add: parse_field_str_def field_ref_def)

theorem field_search_equivalent_witness:
  "parse_field_str ''idx=1 id=n1 host=h'' ''id'' 16 = map_option (take 15) (field_ref ''idx=1 id=n1 host=h'' ''id'')"
  using field_search_equivalent [of "''id''" "''idx=1 id=n1 host=h''" 16] by (simp add: is_space_def byte_of_def)

subsection \<open>Client\<close>

text \<open>C19. What the server sends the client decodes, whatever the sizes of the reads: an integer to its
  digits, a bulk string of less than 4095 bytes to its text, an absent value to \<open>(nil)\<close>, and an
  array of at most 128 such strings to the strings joined by spaces where the text fits; exactly the
  bytes of the reply are consumed, so that the next reply starts at the right place. Arrays of three
  that begin like a message of a channel are formatted differently and are left out.\<close>

theorem client_decodes:
  assumes "in_i64 n" "is_cstr s" "length s < 4095"
    and "ss \<noteq> []" "length ss \<le> 128" "\<forall>x \<in> set ss. is_cstr x \<and> length x < 4095" "length (join_args ss) < 4095"
      "length ss \<noteq> 3 \<or> hd ss \<notin> {''message'', ''subscribe'', ''unsubscribe''}"
  shows "decodes (Suc frames) (send_int n) (int (length (int_dec n))) (int_dec n) \<and>
    (\<exists>bytes. send_bulk (Some s) = Inr bytes \<and> decodes (Suc frames) bytes (int (length s)) s) \<and>
    (\<exists>bytes. send_bulk None = Inr bytes \<and> decodes (Suc frames) bytes (-1) ''(nil)'') \<and>
    (\<exists>bytes. send_array ss = Inr bytes \<and> decodes (Suc (Suc frames)) bytes (int (length (join_args ss))) (join_args ss))"
proof (intro conjI)
  show "decodes (Suc frames) (send_int n) (int (length (int_dec n))) (int_dec n)"
    using decodes_line(2) [OF plain_dec(2), of n] int_dec_length [OF assms(1)] by (simp add: send_int_ok [OF assms(1)] CLI_BUFFER_SIZE_def)
  show "\<exists>bytes. send_bulk (Some s) = Inr bytes \<and> decodes (Suc frames) bytes (int (length s)) s"
    using send_bulk_ok [of s] decodes_bulk [OF assms(2), of frames] assms(3) by (simp add: CLI_BUFFER_SIZE_def)
  show "\<exists>bytes. send_bulk None = Inr bytes \<and> decodes (Suc frames) bytes (-1) ''(nil)''"
    using decodes_nil by (simp add: send_bulk_def send_reply_def)
  have "length (nat_dec (length ss)) \<le> 3" using assms(5) by (intro nat_dec_length) simp_all
  then have "send_array ss = Inr (''*'' @ nat_dec (length ss) @ CRLF @ concat (map resp_bulk ss))"
    using bulk_loop_ok [of ss] assms(6) by (fastforce simp: send_array_def send_array_len_def send_reply_def snprintf_cut_def)
  moreover have "array_text CLI_BUFFER_SIZE (int (length ss)) ss = join_args ss"
    using assms(7,8) by (intro array_text_join) (simp_all add: CLI_BUFFER_SIZE_def)
  ultimately show "\<exists>bytes. send_array ss = Inr bytes \<and> decodes (Suc (Suc frames)) bytes (int (length (join_args ss))) (join_args ss)"
    using decodes_array [OF assms(4,5), of frames] assms(6) by (auto simp: CLI_BUFFER_SIZE_def)
qed

theorem client_decodes_witness:
  "decodes 1 (send_int 42) (int (length (int_dec 42))) (int_dec 42) \<and>
    (\<exists>bytes. send_array [''a'', ''b''] = Inr bytes \<and> decodes 2 bytes 3 ''a b'')"
  using client_decodes [of 42 "''s''" "[''a'', ''b'']" 0]
  by (simp add: in_i64_def i64_min_def i64_max_def is_cstr_def numeral_2_eq_2)

text \<open>A command given on the client's command line reaches the server as given: the line it sends
  is one line whose words are the arguments, the first 64 of them, when they hold no white space and
  fit the buffer.\<close>

theorem command_arrives:
  assumes "\<forall>w \<in> set ws. word_arg w \<and> newline \<notin> set w \<and> is_cstr w" "length (join_args ws) < 4096" "ws \<noteq> []"
  shows "\<exists>line. next_line (send_cmd (join_words CLI_BUFFER_SIZE ws)) = Some (line, []) \<and> parse_line line MAX_ARGS = take MAX_ARGS ws"
proof -
  have j: "join_words CLI_BUFFER_SIZE ws = join_args ws" using assms(2) by (simp add: join_words_ok CLI_BUFFER_SIZE_def)
  have n: "newline \<notin> set (join_args ws)" "NUL \<notin> set (join_args ws)"
    using assms(1) by (induction ws rule: join_args.induct) (auto simp: is_cstr_def)
  have "next_line (join_args ws @ newline # []) = Some (join_args ws, [])"
    using next_line_newline [of "join_args ws" "[]"] n by (simp add: is_cstr_def)
  moreover have "parse_line (join_args ws) MAX_ARGS = take MAX_ARGS ws"
    using parse_line_join [of ws "[]" MAX_ARGS] assms(1) by simp
  ultimately show ?thesis by (simp add: j send_cmd_def)
qed

theorem command_arrives_witness:
  "\<exists>line. next_line (send_cmd (join_words CLI_BUFFER_SIZE [''SET'', ''k'', ''v''])) = Some (line, []) \<and>
     parse_line line MAX_ARGS = [''SET'', ''k'', ''v'']"
  using command_arrives [of "[''SET'', ''k'', ''v'']"] by (simp add: word_arg_def is_delim_def is_cstr_def MAX_ARGS_def)

text \<open>After \<open>SUBSCRIBE\<close> with \<open>n\<close> channels the client waits for \<open>n + 1\<close> acknowledgements although
  the server sends \<open>n\<close>, so it blocks until the first message arrives.\<close>

theorem client_awaits_one_too_many:
  assumes "\<forall>w \<in> set chs. word_arg w" "chs \<noteq> []"
  shows "ack_count (join_args (''SUBSCRIBE'' # chs)) = length chs + 1"
proof -
  have "join_args (''SUBSCRIBE'' # chs) = ''SUBSCRIBE '' @ join_args chs" using assms(2) by (cases chs) simp_all
  with ack_count_channels [OF assms(1)] assms(2) show ?thesis by simp
qed

theorem client_awaits_one_too_many_witness:
  "ack_count ''SUBSCRIBE news'' = 2"
  using client_awaits_one_too_many [of "[''news'']"] by (simp add: word_arg_def is_delim_def)

text \<open>In the subscribed mode a typed line of at most 8190 printable characters is kept in its
  buffer and, on return, sent with a newline and nothing else, unless it is \<open>QUIT\<close>; then the buffer
  is empty again.\<close>

theorem typed_line_sent:
  assumes "\<forall>c \<in> set s. printable c" "length s \<le> 8190" "s \<noteq> []" "\<not> same_nocase s ''QUIT''" "ui_line u = []" "ui_active u"
  shows "\<exists>u'. fold ui_key (s @ [newline]) u = u' \<and> ui_sent u' = ui_sent u @ s @ [newline] \<and> ui_line u' = [] \<and> ui_active u'"
  using ui_type [OF assms(1), of u] assms by (simp add: ui_key_def Let_def send_cmd_def CLI_BUFFER_SIZE_def)

theorem typed_line_sent_witness:
  "\<exists>u'. fold ui_key (''PING'' @ [newline]) \<lparr>ui_line = '''', ui_active = True, ui_sent = '''', ui_tty = ''''\<rparr> = u' \<and>
     ui_sent u' = ''PING'' @ [newline]"
  using typed_line_sent [of "''PING''" "\<lparr>ui_line = '''', ui_active = True, ui_sent = '''', ui_tty = ''''\<rparr>"]
  by (auto simp: printable_def byte_of_def same_nocase_def to_lower_def)

text \<open>C40. Sending a reply ends after finitely many calls, sends a prefix of it in order and without
  repetition, and sends all of it when no call fails, however few bytes each call accepts.\<close>

theorem reply_sent_completely:
  assumes "\<forall>i d. d \<noteq> [] \<longrightarrow> 0 < accept i d"
  shows "send_raw accept i data = data \<and> prefix (send_raw accept' i data) data"
  using send_raw_all [of accept i data] send_raw_prefix [of accept' i data] assms by blast

theorem reply_sent_completely_witness:
  "send_raw (\<lambda>_ _. 1) 0 ''+OK'' = ''+OK'' \<and> prefix (send_raw (\<lambda>i _. 2 - int i) 0 ''+OK'') ''+OK''"
  using reply_sent_completely [of "\<lambda>_ _. 1" 0 "''+OK''" "\<lambda>i _. 2 - int i"] by simp

end
