(* ===== verification/Listener.thy ===== *)
theory Listener
  imports Server_Start
begin

text \<open>
  The sockets the server listens on: the last part of \<open>main\<close> in \<open>src/src/server/server.c\<close> (socket,
  bind with retries, accept loop, signal handler) and the thread \<open>bus_listener_thread\<close> of
  \<open>src/src/cluster/cluster.c\<close>. The results of the system calls are arguments. What happens to the
  connections is in the theories of the thread pool, of the client handler and of the bus.
\<close>

subsection \<open>Binding\<close>

datatype bind_result = BIND_OK | BIND_INUSE | BIND_FAIL

text \<open>
  The loop that binds: \<open>bind i\<close> is the result of the \<open>i\<close>-th call. The loop calls \<open>bind\<close> once more when
  no retry is left. The result is whether the server goes on to listen, and the result of the last call.
\<close>

fun bind_loop :: "(nat \<Rightarrow> bind_result) \<Rightarrow> nat \<Rightarrow> nat \<Rightarrow> bool \<times> bind_result" where
  "bind_loop bind i 0 = (False, bind i)"
| "bind_loop bind i (Suc retries) = (case bind i of
       BIND_OK \<Rightarrow> (True, BIND_OK)
     | BIND_INUSE \<Rightarrow> bind_loop bind (Suc i) retries
     | BIND_FAIL \<Rightarrow> (False, BIND_FAIL))"

definition BIND_RETRIES :: nat where
  "BIND_RETRIES = 5"

text \<open>\<open>Some srv\<close> when the server listens, \<open>None\<close> when \<open>main\<close> returns 1.\<close>

definition server_listen :: "int \<Rightarrow> (nat \<Rightarrow> bind_result) \<Rightarrow> int option" where
  "server_listen srv bind =
     (if srv < 0 then None else if fst (bind_loop bind 0 BIND_RETRIES) then Some srv else None)"

lemma bind_loop_busy: "\<forall>j < n. bind (i + j) = BIND_INUSE \<Longrightarrow> bind_loop bind i (n + m) = bind_loop bind (i + n) m"
proof (induction n arbitrary: i)
  case (Suc n)
  have "bind i = BIND_INUSE" using Suc.prems by (metis add_0_right zero_less_Suc)
  moreover have "\<forall>j < n. bind (Suc i + j) = BIND_INUSE" using Suc.prems by (metis Suc_less_eq add_Suc_right add_Suc)
  ultimately show ?case using Suc.IH [of "Suc i"] by simp
qed simp

lemma bind_loop_ok: "fst (bind_loop bind i n) \<longleftrightarrow> (\<exists>k < n. bind (i + k) = BIND_OK \<and> (\<forall>j < k. bind (i + j) = BIND_INUSE))"
proof (induction n arbitrary: i)
  case (Suc n)
  show ?case
  proof (cases "bind i")
    case BIND_OK
    then show ?thesis by (auto intro!: exI [of _ 0])
  next
    case BIND_INUSE
    have "(\<exists>k < n. bind (Suc i + k) = BIND_OK \<and> (\<forall>j < k. bind (Suc i + j) = BIND_INUSE)) \<longleftrightarrow>
        (\<exists>k < Suc n. bind (i + k) = BIND_OK \<and> (\<forall>j < k. bind (i + j) = BIND_INUSE))" (is "?l \<longleftrightarrow> ?r")
    proof
      assume ?l
      then obtain k where "k < n" "bind (Suc i + k) = BIND_OK" "\<forall>j < k. bind (Suc i + j) = BIND_INUSE" by blast
      then show ?r using BIND_INUSE by (intro exI [of _ "Suc k"]) (auto simp: less_Suc_eq_0_disj)
    next
      assume ?r
      then obtain k where k: "k < Suc n" "bind (i + k) = BIND_OK" "\<forall>j < k. bind (i + j) = BIND_INUSE" by blast
      then obtain k' where "k = Suc k'" using BIND_INUSE by (cases k) auto
      with k show ?l by (intro exI [of _ k']) auto
    qed
    with BIND_INUSE Suc.IH [of "Suc i"] show ?thesis by simp
  next
    case BIND_FAIL
    then show ?thesis by (auto simp: less_Suc_eq_0_disj)
  qed
qed simp

subsection \<open>Accepting clients\<close>

text \<open>
  What the main thread and the workers do while the server runs: \<open>M_Accept fd\<close> is a return of \<open>accept\<close>
  (negative on an error), \<open>M_Signal\<close> a signal that clears \<open>g_running\<close>, \<open>M_Worker\<close> a worker that looks for
  a job. The flag is read before each call of \<open>accept\<close>: the call in which the signal arrives is the last
  one. The result are the operations on the pool.
\<close>

datatype main_event = M_Accept int | M_Signal | M_Worker

fun workers_only :: "main_event list \<Rightarrow> int qevent list" where
  "workers_only [] = []"
| "workers_only (M_Worker # es) = Take # workers_only es"
| "workers_only (_ # es) = workers_only es"

fun accept_loop :: "main_event list \<Rightarrow> bool \<Rightarrow> int qevent list" where
  "accept_loop [] g_running = []"
| "accept_loop (M_Accept client # es) g_running =
     (if client < 0 then [] else [Put client]) @ (if g_running then accept_loop es g_running else workers_only es)"
| "accept_loop (M_Signal # es) g_running = accept_loop es False"
| "accept_loop (M_Worker # es) g_running = Take # accept_loop es g_running"

text \<open>The clients that \<open>accept\<close> returned before the loop was left.\<close>

fun until_signal :: "main_event list \<Rightarrow> main_event list" where
  "until_signal [] = []"
| "until_signal (M_Signal # es) = takeWhile (\<lambda>e. e = M_Signal \<or> e = M_Worker) es @ take 1 (dropWhile (\<lambda>e. e = M_Signal \<or> e = M_Worker) es)"
| "until_signal (e # es) = e # until_signal es"

definition accepted :: "main_event list \<Rightarrow> int list" where
  "accepted es = concat (map (\<lambda>e. case e of M_Accept fd \<Rightarrow> if fd < 0 then [] else [fd] | _ \<Rightarrow> []) (until_signal es))"

lemma puts_workers [simp]: "puts (workers_only es) = []"
  by (induction es rule: workers_only.induct) simp_all

lemma puts_leaving:
  "puts (accept_loop es False) = concat (map (\<lambda>e. case e of M_Accept fd \<Rightarrow> if fd < 0 then [] else [fd] | _ \<Rightarrow> [])
     (takeWhile (\<lambda>e. e = M_Signal \<or> e = M_Worker) es @ take 1 (dropWhile (\<lambda>e. e = M_Signal \<or> e = M_Worker) es)))"
  by (induction es "False" rule: accept_loop.induct) simp_all

lemma puts_accept_loop: "puts (accept_loop es True) = accepted es"
  unfolding accepted_def
  by (induction es "True" rule: accept_loop.induct) (simp_all add: puts_leaving)

subsection \<open>The cluster bus\<close>

text \<open>The descriptors closed by the thread, the socket it listens on, and the state.\<close>

definition bus_listener_start :: "int \<Rightarrow> bool \<Rightarrow> cluster_state \<Rightarrow> int list \<times> int option \<times> cluster_state" where
  "bus_listener_start srv bound cs =
     (if srv < 0 then ([], None, cs)
      else if \<not> bound then ([srv], None, cs)
      else ([], Some srv, cs\<lparr>c_listener_fd := srv\<rparr>))"

text \<open>Each turn reads \<open>cs->stop\<close> and, if it is not set, calls \<open>accept\<close>; the result are the connections
  that are handed to a handler.\<close>

fun bus_accept_loop :: "(bool \<times> int) list \<Rightarrow> int list" where
  "bus_accept_loop [] = []"
| "bus_accept_loop ((stop, fd) # es) =
     (if stop then [] else if fd < 0 then bus_accept_loop es else fd # bus_accept_loop es)"

definition bus_listener_end :: "int \<Rightarrow> cluster_state \<Rightarrow> int list \<times> cluster_state" where
  "bus_listener_end srv cs = ([srv], cs\<lparr>c_listener_fd := -1\<rparr>)"

lemma bus_accept_loop_eq: "bus_accept_loop es = filter (\<lambda>fd. fd \<ge> 0) (map snd (takeWhile (\<lambda>e. \<not> fst e) es))"
  by (induction es rule: bus_accept_loop.induct) auto

lemma init_peers_fixed: "c_listener_fd (init_peers me i ns cs) = c_listener_fd cs \<and> c_ring (init_peers me i ns cs) = c_ring cs"
  by (induction me i ns cs rule: init_peers.induct) (simp_all add: add_peer_def)

lemma cluster_init_listener:
  "cluster_init dial now conf = (cs, out) \<Longrightarrow> c_listener_fd cs = 0 \<and> c_ring cs = repl_ring_init 1024"
  by (auto simp: cluster_init_def Let_def split_beta init_peers_fixed)

end
