(* ===== verification/Cli_Loop.thy ===== *)
theory Cli_Loop
  imports Cli
begin

text \<open>
  The loops of the command line client (\<open>src/src/cli/cli.c\<close>): the terminal, connecting, the subscribed
  mode, the interactive loop and \<open>main\<close>. The results of \<open>select\<close>, the keys and the lines the user
  types are given as lists; standard input is a terminal.
\<close>

subsection \<open>The terminal\<close>

text \<open>The settings the client changes, and \<open>tm_other\<close> for all others.\<close>

record termios =
  tm_icanon :: bool
  tm_echo :: bool
  tm_vmin :: nat
  tm_vtime :: nat
  tm_other :: nat

text \<open>The terminal, \<open>orig_termios\<close>, \<open>tty_raw\<close>, and how often \<open>tty_reset\<close> is registered with \<open>atexit\<close>.\<close>

record tty =
  tt_now :: termios
  tt_orig :: termios
  tt_raw :: bool
  tt_atexit :: nat

definition tty_reset :: "tty \<Rightarrow> tty" where
  "tty_reset t = (if tt_raw t then t\<lparr>tt_now := tt_orig t, tt_raw := False\<rparr> else t)"

definition raw_mode :: "termios \<Rightarrow> termios" where
  "raw_mode m = m\<lparr>tm_icanon := False, tm_echo := False, tm_vmin := 1, tm_vtime := 0\<rparr>"

definition tty_set_raw :: "tty \<Rightarrow> tty" where
  "tty_set_raw t =
     (if tt_raw t then t
      else t\<lparr>tt_orig := tt_now t, tt_now := raw_mode (tt_now t), tt_raw := True, tt_atexit := Suc (tt_atexit t)\<rparr>)"

text \<open>
  How a process ends: it returns from \<open>main\<close> or calls \<open>exit\<close>, which runs what is registered with \<open>atexit\<close>; or a
  signal whose default action is not changed kills it (the client changes none: \<open>SIGINT\<close> of the terminal,
  whose \<open>ISIG\<close> stays on, \<open>SIGTERM\<close>, and \<open>SIGPIPE\<close> of a write to a closed connection), which runs nothing.
\<close>

datatype process_end = Exits | Killed

definition tty_at_end :: "process_end \<Rightarrow> tty \<Rightarrow> tty" where
  "tty_at_end w t = (case w of Exits \<Rightarrow> if 0 < tt_atexit t then tty_reset t else t | Killed \<Rightarrow> t)"

subsection \<open>Connecting\<close>

text \<open>The results of \<open>socket\<close>, \<open>inet_pton\<close> and \<open>connect\<close>; the return value and the descriptors closed.\<close>

definition connect_server :: "int \<Rightarrow> int \<Rightarrow> int \<Rightarrow> int \<times> int list" where
  "connect_server sock pton conn =
     (if sock < 0 then (-1, [])
      else if pton \<le> 0 then (-1, [sock])
      else if conn < 0 then (-1, [sock])
      else (sock, []))"

subsection \<open>The subscribed mode\<close>

text \<open>
  What a turn of the loop sees: \<open>select\<close> is interrupted, \<open>select\<close> fails, or it says whether the server has
  data and what reading the keyboard gives (nothing there, no byte at the end of the input, a key).
\<close>

datatype select_event = SEL_EINTR | SEL_FAIL | SEL bool "char option option"

text \<open>\<open>ui_active\<close> is cleared when the loop is left, by \<open>break\<close> too.\<close>

definition leave_ui :: "sub_ui \<Rightarrow> sub_ui" where
  "leave_ui u = u\<lparr>ui_active := False\<rparr>"

definition server_data :: "nat \<Rightarrow> sub_ui \<Rightarrow> sock \<Rightarrow> (sub_ui \<times> sock) res" where
  "server_data frames u sk =
     bindr (recv_resp_raw frames sk CLI_BUFFER_SIZE) (\<lambda>(reply, sk). bindr (ui_reply reply u) (\<lambda>u. Inr (u, sk)))"

definition user_input :: "char option option \<Rightarrow> sub_ui \<Rightarrow> sub_ui" where
  "user_input key u = (case key of None \<Rightarrow> u | Some None \<Rightarrow> leave_ui u | Some (Some c) \<Rightarrow> ui_key c u)"

definition select_turn :: "nat \<Rightarrow> select_event \<Rightarrow> sub_ui \<Rightarrow> sock \<Rightarrow> (sub_ui \<times> sock) res" where
  "select_turn frames ev u sk = (case ev of
       SEL_EINTR \<Rightarrow> Inr (u, sk)
     | SEL_FAIL \<Rightarrow> Inr (leave_ui u, sk)
     | SEL server key \<Rightarrow>
         bindr (if server then server_data frames u sk else Inr (u, sk)) (\<lambda>(u, sk).
         Inr (if ui_active u then user_input key u else u, sk)))"

fun select_loop :: "nat \<Rightarrow> select_event list \<Rightarrow> sub_ui \<Rightarrow> sock \<Rightarrow> (sub_ui \<times> sock) res" where
  "select_loop frames [] u sk = Inr (u, sk)"
| "select_loop frames (ev # evs) u sk =
     (if ui_active u then bindr (select_turn frames ev u sk) (\<lambda>(u, sk). select_loop frames evs u sk) else Inr (u, sk))"

definition subscribed_banner :: string where
  "subscribed_banner = clear_line @ ''-- Subscribed. Messages appear in real-time. --'' @ [newline, newline]"

text \<open>
  When the events are used up and the loop still runs, the terminal is still raw; this is also the state in
  which a signal that comes now finds the client.
\<close>

definition pubsub_read_loop :: "nat \<Rightarrow> select_event list \<Rightarrow> tty \<Rightarrow> sock \<Rightarrow> (sub_ui \<times> sock \<times> tty) res" where
  "pubsub_read_loop frames evs t sk =
     (let t = tty_set_raw t in
      bindr (select_loop frames evs \<lparr>ui_line = [], ui_active = True, ui_sent = [], ui_tty = subscribed_banner\<rparr> sk) (\<lambda>(u, sk).
      Inr (u, sk, if ui_active u then t else tty_reset t)))"

subsection \<open>The interactive loop\<close>

text \<open>The bytes sent and printed, the terminal, and whether the loop was left.\<close>

record repl_run =
  rn_sent :: string
  rn_out :: string
  rn_tty :: tty
  rn_done :: bool

definition rn_add :: "string \<Rightarrow> string \<Rightarrow> repl_run \<Rightarrow> repl_run" where
  "rn_add sent out r = r\<lparr>rn_sent := sent @ rn_sent r, rn_out := out @ rn_out r\<rparr>"

text \<open>
  \<open>readline\<close> gives the lines one after the other and then the end of the input; the events that come
  with a line are those of the subscribed mode it may start. \<open>wr\<close> says whether a \<open>write\<close> to the server
  takes all bytes.
\<close>

fun repl_lines :: "(string \<Rightarrow> bool) \<Rightarrow> nat \<Rightarrow> (string \<times> select_event list) list \<Rightarrow> tty \<Rightarrow> sock \<Rightarrow> repl_run res" where
  "repl_lines wr frames [] t sk = Inr \<lparr>rn_sent = [], rn_out = [], rn_tty = t, rn_done = True\<rparr>"
| "repl_lines wr frames ((line, evs) # ls) t sk =
     (if line = [] then repl_lines wr frames ls t sk
      else if \<not> wr (send_cmd line) then Inr \<lparr>rn_sent = [], rn_out = [], rn_tty = t, rn_done = True\<rparr>
      else bindr (repl_round frames line sk) (\<lambda>(next, sent, txt, sk).
        case next of
          Repl_Quit \<Rightarrow> Inr \<lparr>rn_sent = sent, rn_out = txt, rn_tty = t, rn_done = True\<rparr>
        | Repl_Next \<Rightarrow> bindr (repl_lines wr frames ls t sk) (\<lambda>r. Inr (rn_add sent txt r))
        | Repl_Sub \<Rightarrow>
            bindr (pubsub_read_loop frames evs t sk) (\<lambda>(u, sk, t).
            if ui_active u
            then Inr \<lparr>rn_sent = sent @ ui_sent u, rn_out = txt @ ui_tty u, rn_tty = t, rn_done = False\<rparr>
            else bindr (repl_lines wr frames ls t sk) (\<lambda>r.
                 Inr (rn_add (sent @ ui_sent u) (txt @ ui_tty u @ ''[back to kvdb>]'' @ [newline]) r)))))"

definition repl_loop :: "(string \<Rightarrow> bool) \<Rightarrow> nat \<Rightarrow> (string \<times> select_event list) list \<Rightarrow> tty \<Rightarrow> sock \<Rightarrow> repl_run res" where
  "repl_loop wr frames ls t sk =
     bindr (repl_lines wr frames ls t sk) (\<lambda>r. Inr (rn_add [] (''Connected. Type commands (QUIT to exit).'' @ [newline]) r))"

subsection \<open>Options\<close>

fun cli_options :: "string list \<Rightarrow> string \<Rightarrow> int \<Rightarrow> (string \<times> int \<times> string list) res" where
  "cli_options (a # v # rest) host port =
     (if strcmp a ''-h'' = 0 then cli_options rest v port
      else if strcmp a ''-p'' = 0 then bindr (atoi v) (\<lambda>n. cli_options rest host n)
      else Inr (host, port, a # v # rest))"
| "cli_options args host port = Inr (host, port, args)"

text \<open>
  \<open>main\<close>: the exit code, the bytes sent and printed, and the terminal. \<open>dial host port\<close> is the connection
  \<open>connect_server\<close> makes, if it does.
\<close>

definition cli_main ::
  "(string \<Rightarrow> int \<Rightarrow> sock option) \<Rightarrow> (string \<Rightarrow> bool) \<Rightarrow> nat \<Rightarrow> string list \<Rightarrow> (string \<times> select_event list) list \<Rightarrow> tty \<Rightarrow> (int \<times> string \<times> string \<times> tty) res" where
  "cli_main dial wr frames args typed t =
     bindr (cli_options args ''127.0.0.1'' 6379) (\<lambda>(host, port, cmd). case dial host port of
       None \<Rightarrow> Inr (1, [], [], t)
     | Some sk \<Rightarrow>
         if cmd \<noteq> [] then bindr (one_shot frames cmd sk) (\<lambda>(sent, txt). Inr (0, sent, txt, t))
         else bindr (repl_loop wr frames typed t sk) (\<lambda>r. Inr (0, rn_sent r, rn_out r, rn_tty r)))"

subsection \<open>Lemmas\<close>

lemma tty_reset_raw: "\<not> tt_raw t \<Longrightarrow> tt_now (tty_reset (tty_set_raw t)) = tt_now t \<and> \<not> tt_raw (tty_reset (tty_set_raw t))"
  by (simp add: tty_reset_def tty_set_raw_def)

lemma pubsub_read_loop_tty:
  assumes "pubsub_read_loop frames evs t sk = Inr (u, sk', t')" "\<not> tt_raw t"
  shows "tt_now (tty_reset t') = tt_now t \<and> (tt_raw t' \<longrightarrow> 0 < tt_atexit t') \<and> (\<not> ui_active u \<longrightarrow> tt_now t' = tt_now t \<and> \<not> tt_raw t') \<and>
    (ui_active u \<longrightarrow> tt_now t' = raw_mode (tt_now t))"
  using assms tty_reset_raw [OF assms(2)]
  by (auto simp: pubsub_read_loop_def Let_def split_beta) (auto simp: tty_reset_def tty_set_raw_def)

text \<open>Whatever is typed and received, the client leaves the terminal as it was, or is in the subscribed mode.\<close>

lemma repl_lines_tty:
  assumes "\<not> tt_raw t" "repl_lines wr frames ls t sk = Inr r"
  shows "tt_now (tty_reset (rn_tty r)) = tt_now t \<and> (tt_raw (rn_tty r) \<longrightarrow> 0 < tt_atexit (rn_tty r)) \<and>
    (rn_done r \<longrightarrow> tt_now (rn_tty r) = tt_now t \<and> \<not> tt_raw (rn_tty r)) \<and> (\<not> rn_done r \<longrightarrow> tt_now (rn_tty r) = raw_mode (tt_now t))"
  using assms
proof (induction wr frames ls t sk arbitrary: r rule: repl_lines.induct)
  case (2 wr frames line evs ls t sk)
  show ?case
  proof (cases "line = [] \<or> \<not> wr (send_cmd line)")
    case True
    with 2 show ?thesis by (auto simp: tty_reset_def split: if_splits)
  next
    case False
    with "2.prems"(2) obtain nx sent tx sk1 where r: "repl_round frames line sk = Inr (nx, sent, tx, sk1)" by (auto)
    show ?thesis
    proof (cases nx)
      case Repl_Sub
      with False r "2.prems"(2) obtain u sk2 t2 where p: "pubsub_read_loop frames evs t sk1 = Inr (u, sk2, t2)" by auto
      note t = pubsub_read_loop_tty [OF p "2.prems"(1)]
      show ?thesis
      proof (cases "ui_active u")
        case True
        with False r Repl_Sub p "2.prems"(2) t show ?thesis by auto
      next
        case na: False
        with False r Repl_Sub p "2.prems"(2) obtain r' where r': "repl_lines wr frames ls t2 sk2 = Inr r'" "rn_tty r = rn_tty r'" "rn_done r = rn_done r'"
          by (auto simp: rn_add_def)
        from "2.IH"(2) [OF _ _ Repl_Sub na _ r'(1)] False t na r'(2,3) show ?thesis by auto
      qed
    next
      case Repl_Quit
      with False r "2.prems" show ?thesis by (auto simp: tty_reset_def)
    next
      case Repl_Next
      with False r "2.prems"(2) obtain r' where r': "repl_lines wr frames ls t sk1 = Inr r'" "rn_tty r = rn_tty r'" "rn_done r = rn_done r'"
        by (auto simp: rn_add_def)
      from "2.IH"(3) [OF _ _ Repl_Next "2.prems"(1) r'(1)] False r'(2,3) show ?thesis by auto
    qed
  qed
qed (auto simp: tty_reset_def)

text \<open>The subscribed mode keeps its line buffer.\<close>

lemma ui_reply_inv: "ui_reply reply u = Inr u' \<Longrightarrow> ui_inv u \<Longrightarrow> ui_inv u'"
  by (auto simp: ui_reply_def ui_inv_def split: prod.splits option.splits if_splits)

lemma leave_ui_inv: "ui_inv (leave_ui u) = ui_inv u"
  by (simp add: ui_inv_def leave_ui_def)

lemma server_data_inv: "server_data frames u sk = Inr (u', sk') \<Longrightarrow> ui_inv u \<Longrightarrow> ui_inv u'"
  using ui_reply_inv by (auto simp: server_data_def)

lemma user_input_inv: "ui_inv u \<Longrightarrow> ui_inv (user_input key u)"
  by (simp add: user_input_def leave_ui_inv ui_key_inv split: option.split)

lemma select_turn_inv: "ui_inv u \<Longrightarrow> select_turn frames ev u sk = Inr (u', sk') \<Longrightarrow> ui_inv u'"
  using server_data_inv [of frames u sk]
  by (auto simp: select_turn_def leave_ui_inv user_input_inv split: select_event.splits if_splits)

lemma select_loop_inv: "ui_inv u \<Longrightarrow> select_loop frames evs u sk = Inr (u', sk') \<Longrightarrow> ui_inv u'"
  by (induction frames evs u sk rule: select_loop.induct) (auto split: if_splits dest: select_turn_inv)

lemma cli_options_given:
  assumes "atoi p = Inr n" "cmd = [] \<or> (hd cmd \<noteq> ''-h'' \<and> hd cmd \<noteq> ''-p'')"
  shows "cli_options (''-h'' # h # ''-p'' # p # cmd) host port = Inr (h, n, cmd)"
proof -
  have "cli_options cmd h n = Inr (h, n, cmd)" using assms(2) by (cases "(cmd, h, n)" rule: cli_options.cases) auto
  with assms(1) show ?thesis by simp
qed

end
