(* ===== verification/Client_Properties.thy ===== *)
theory Client_Properties
  imports Server_Properties System_Properties Listener Cli_Loop
begin

text \<open>
  The properties that span the command line client and the server, and those of the sockets the
  server listens on.
\<close>

subsection \<open>A command and its reply\<close>

text \<open>The text the client prints for a reply that is not an array.\<close>

fun reply_text :: "reply \<Rightarrow> string option" where
  "reply_text (RStatus s) = (if plain s \<and> length s < 4000 then Some s else None)"
| "reply_text (RErr s) = (if plain s \<and> length s < 4000 then Some s else None)"
| "reply_text (RInt n) = (if in_i64 n then Some (int_dec n) else None)"
| "reply_text (RBulk None) = Some ''(nil)''"
| "reply_text (RBulk (Some s)) = (if is_cstr s \<and> length s < 4095 then Some s else None)"
| "reply_text (RArray X) = None"

lemma encodes_decodes:
  assumes "encodes r b" "reply_text r = Some t"
  shows "\<exists>n. decodes (Suc frames) b n t"
  using assms
proof (induction r b rule: encodes.induct)
  case (1 s b)
  then show ?case using decodes_line(1) [of s frames] by (auto simp: encodes.simps CLI_BUFFER_SIZE_def split: if_splits)
next
  case (2 s b)
  then show ?case using decodes_line(3) [of s frames] by (auto simp: encodes.simps CLI_BUFFER_SIZE_def split: if_splits)
next
  case (3 n b)
  then show ?case using decodes_line(2) [OF plain_dec(2), of n frames] int_dec_length [of n]
    by (auto simp: encodes.simps CLI_BUFFER_SIZE_def split: if_splits)
next
  case (4 b)
  then show ?case using decodes_nil [of frames] by (auto simp: encodes.simps)
next
  case (5 s b)
  then show ?case using decodes_bulk [of s frames] by (auto simp: encodes.simps CLI_BUFFER_SIZE_def split: if_splits)
qed simp

lemma words_line:
  assumes "\<forall>w \<in> set ws. word_arg w \<and> newline \<notin> set w \<and> is_cstr w" "length (join_args ws) < 4096"
  shows "join_words CLI_BUFFER_SIZE ws = join_args ws" "parse_line (join_args ws) MAX_ARGS = take MAX_ARGS ws"
  using assms parse_line_join [of ws "[]" MAX_ARGS] by (simp_all add: join_words_ok CLI_BUFFER_SIZE_def)

text \<open>C11. A data command given on the client's command line, from end to end: the client joins its arguments, which are
  words of less than 4096 bytes in all, to one line and sends it; the server, which has no cluster,
  room for one more key and no key that is past its time, executes the command on these arguments (the first 64)
  as the command reference promises, however the bytes arrive; and the client, however the reply arrives, prints
  the text of the promised reply. The reply is a status, an error, a number or a string of less than
  4095 bytes, not an array and not empty.\<close>

theorem command_round_trip:
  assumes "kv_inv (sv_db sv)" "ps_inv (sv_ps sv)" "sv_cs sv = None" "room (sv_db sv) 1" "timely (now_ms (es 0)) (sv_db sv)"
    and "\<forall>w \<in> set ws. word_arg w \<and> newline \<notin> set w \<and> is_cstr w" "ws \<noteq> []" "length (join_args ws) < 4096" "data_line (join_args ws)"
    and "command_spec (es 0) (take MAX_ARGS ws) (live_abs (now_ms (es 0)) (sv_db sv)) = Some (a, r)" "fits r" "reply_text r = Some t" "t \<noteq> []"
  shows "\<exists>db' b. handle_client_unlocked es fd pieces (send_cmd (join_words CLI_BUFFER_SIZE ws)) sv =
      Inr (sv\<lparr>sv_db := db', sv_ps := pubsub_unsubscribe_all (sv_ps sv) fd\<rparr>, [(fd, b)]) \<and> kv_inv db' \<and> kv_abs db' = a \<and>
    (\<forall>sk. sk_in sk = b \<longrightarrow> one_shot 1 ws sk = Inr (send_cmd (join_args ws), t @ [newline]))"
proof -
  note w = words_line [OF assms(6,8)]
  have "take MAX_ARGS ws \<noteq> []" using assms(7) by (simp add: MAX_ARGS_def)
  then have s: "session_spec (zip (map es [0..<length [join_args ws]]) [join_args ws]) (kv_abs (sv_db sv)) = Some (a, [r])"
    using assms(10) live_abs_timely [OF assms(5)] w(2) by (auto simp: line_spec_def split: list.split)
  have f: "\<forall>r \<in> set [r]. fits r" "\<forall>l \<in> set [join_args ws]. data_line l" "room (sv_db sv) (length [join_args ws])" using assms(4,9,11) by simp_all
  have st: "stream_of [join_args ws] = send_cmd (join_words CLI_BUFFER_SIZE ws)" unfolding w(1) by (simp add: stream_of_def send_cmd_def)
  from session_handled [OF assms(1-3) f(2,3) s f(1), of fd pieces] obtain db' b where
    h: "handle_client_unlocked es fd pieces (send_cmd (join_words CLI_BUFFER_SIZE ws)) sv =
        Inr (sv\<lparr>sv_db := db', sv_ps := pubsub_unsubscribe_all (sv_ps sv) fd\<rparr>, [(fd, b)])" "encodes r b" "kv_inv db'" "kv_abs db' = a"
    unfolding st by (auto simp: list_all2_Cons1)
  from encodes_decodes [OF h(2) assms(12), of 0] obtain n where n: "decodes 1 b n t" by auto
  have "one_shot 1 ws sk = Inr (send_cmd (join_args ws), t @ [newline])" if b: "sk_in sk = b" for sk
  proof -
    from n b obtain sk' where "recv_resp_raw 1 sk CLI_BUFFER_SIZE = Inr ((n, Some t), sk')" unfolding decodes_def by (metis append_Nil2)
    with assms(13) w(1) show ?thesis by (simp add: one_shot_def shown_def)
  qed
  with h show ?thesis by blast
qed

theorem command_round_trip_witness:
  "\<exists>db' b. handle_client_unlocked (\<lambda>_. calm) 5 (\<lambda>_. 2) (send_cmd (join_words CLI_BUFFER_SIZE [''SET'', ''k'', ''v''])) fresh =
      Inr (fresh\<lparr>sv_db := db', sv_ps := []\<rparr>, [(5, b)]) \<and> kv_abs db' = [''k'' \<mapsto> AStr ''v''] \<and>
    (\<forall>sk. sk_in sk = b \<longrightarrow> one_shot 1 [''SET'', ''k'', ''v''] sk = Inr (''SET k v'' @ [newline], ''OK'' @ [newline]))"
proof -
  let ?ws = "[''SET'', ''k'', ''v'']"
  have f: "kv_inv (sv_db fresh)" "ps_inv (sv_ps fresh)" "sv_cs fresh = None" "sv_ps fresh = []"
    using ready_fresh by (simp_all add: ready_def sv_inv_def fresh_def)
  have rm: "room (sv_db fresh) 1" by (simp add: fresh_def room_def kv_init_def INITIAL_CAPACITY_def)
  have w: "\<forall>w \<in> set ?ws. word_arg w \<and> newline \<notin> set w \<and> is_cstr w" by (simp add: word_arg_def is_delim_def is_cstr_def)
  have d: "data_line (join_args ?ws)" using parse_SET
    by (simp add: data_line_def is_cstr_def BUFFER_SIZE_def MAX_ARGS_def same_nocase_def to_lower_def byte_of_def)
  have c: "command_spec calm (take MAX_ARGS ?ws) (live_abs (now_ms calm) (sv_db fresh)) = Some ([''k'' \<mapsto> AStr ''v''], RStatus ''OK'')"
    unfolding fresh_live by (simp add: MAX_ARGS_def command_spec_def spec_table_def same_nocase_def to_lower_def byte_of_def s_set_def)
  have t: "reply_text (RStatus ''OK'') = Some ''OK''" "fits (RStatus ''OK'')" "length (join_args ?ws) < 4096" "join_args ?ws = ''SET k v''"
    by (simp_all add: plain_def is_cstr_def)
  from command_round_trip [OF f(1-3) rm fresh_timely w _ t(3) d c t(2,1), of 5 "\<lambda>_. 2"] show ?thesis
    unfolding f(4) t(4) send_cmd_def by (auto simp del: fun_upd_apply)
qed

subsection \<open>The terminal\<close>

text \<open>C37. The terminal when the interactive client ends, whatever is typed, received and read: when the loop was
  left, the settings are those of the start; when the process exits inside the subscribed mode, \<open>tty_reset\<close>,
  which is registered to run at exit, restores them; but when a signal kills it there, the
  terminal is left in raw mode, without echo and line editing.\<close>

theorem terminal_at_end:
  assumes "\<not> tt_raw t" "repl_loop wr frames ls t sk = Inr r"
  shows "(rn_done r \<longrightarrow> tt_now (rn_tty r) = tt_now t) \<and> tt_now (tty_at_end Exits (rn_tty r)) = tt_now t \<and>
    (\<not> rn_done r \<longrightarrow> tt_now (tty_at_end Killed (rn_tty r)) = raw_mode (tt_now t))"
proof -
  obtain r' where r': "repl_lines wr frames ls t sk = Inr r'" "rn_tty r = rn_tty r'" "rn_done r = rn_done r'"
    using assms(2) by (auto simp: repl_loop_def rn_add_def)
  from repl_lines_tty [OF assms(1) r'(1)] r'(2,3) show ?thesis by (auto simp: tty_at_end_def tty_reset_def)
qed

definition cooked :: tty where
  "cooked = \<lparr>tt_now = \<lparr>tm_icanon = True, tm_echo = True, tm_vmin = 1, tm_vtime = 0, tm_other = 0\<rparr>,
     tt_orig = \<lparr>tm_icanon = False, tm_echo = False, tm_vmin = 0, tm_vtime = 0, tm_other = 0\<rparr>, tt_raw = False, tt_atexit = 0\<rparr>"

theorem terminal_at_end_witness:
  "\<exists>r. repl_loop (\<lambda>_. True) 1 [(''SUBSCRIBE c'', [SEL_EINTR])] cooked \<lparr>sk_in = [], sk_calls = 0, sk_pieces = (\<lambda>_. 1)\<rparr> = Inr r \<and>
     tt_now (tty_at_end Exits (rn_tty r)) = tt_now cooked \<and> \<not> tm_echo (tt_now (tty_at_end Killed (rn_tty r)))"
proof -
  let ?sk = "\<lparr>sk_in = [], sk_calls = 0, sk_pieces = (\<lambda>_. 1)\<rparr> :: sock"
  have "\<exists>txt sk. repl_round 1 ''SUBSCRIBE c'' ?sk = Inr (Repl_Sub, ''SUBSCRIBE c'' @ [newline], txt, sk)"
    by (simp add: repl_round_def prefix_nocase_def same_nocase_def to_lower_def byte_of_def send_cmd_def ack_count_def recv_resp_raw.simps(2) sock_read_def)
  then have "\<exists>r. repl_loop (\<lambda>_. True) 1 [(''SUBSCRIBE c'', [SEL_EINTR])] cooked ?sk = Inr r \<and> \<not> rn_done r"
    by (auto simp: repl_loop_def pubsub_read_loop_def select_turn_def rn_add_def)
  then obtain r where r: "repl_loop (\<lambda>_. True) 1 [(''SUBSCRIBE c'', [SEL_EINTR])] cooked ?sk = Inr r" "\<not> rn_done r" by blast
  have "\<not> tt_raw cooked" by (simp add: cooked_def)
  from terminal_at_end [OF this r(1)] r show ?thesis by (auto simp: raw_mode_def)
qed

subsection \<open>Leaving the subscribed mode\<close>

text \<open>Leaving the subscribed mode with \<open>QUIT\<close> leaves the connection useless: the client sends \<open>QUIT\<close>
  and returns to its prompt, but the server neither ends the connection nor its subscribed mode, and
  every command typed afterwards is swallowed without a reply, while the client waits for one.\<close>

theorem quit_keeps_subscription:
  assumes "cl_sub c" "ui_line u = ''QUIT''" "\<forall>l \<in> set ls. data_line l"
  shows "ui_sent (ui_key newline u) = ui_sent u @ stream_of [''QUIT''] \<and> \<not> ui_active (ui_key newline u) \<and>
    each_line BUFFER_SIZE (client_line es fd) (stream_of (''QUIT'' # ls)) c = Inr (c\<lparr>cl_lines := Suc (cl_lines c + length ls)\<rparr>, False, [])"
proof (intro conjI)
  show "ui_sent (ui_key newline u) = ui_sent u @ stream_of [''QUIT'']" "\<not> ui_active (ui_key newline u)"
    using assms(2) by (simp_all add: ui_key_def Let_def send_cmd_def stream_of_def same_nocase_def)
  have "ignored ''QUIT''"
    using parse_QUIT by (simp add: ignored_def is_cstr_def BUFFER_SIZE_def MAX_ARGS_def same_nocase_def to_lower_def byte_of_def)
  moreover have "\<forall>l \<in> set ls. ignored l" using assms(3) by (auto simp: ignored_def data_line_def split: list.splits)
  ultimately show "each_line BUFFER_SIZE (client_line es fd) (stream_of (''QUIT'' # ls)) c =
      Inr (c\<lparr>cl_lines := Suc (cl_lines c + length ls)\<rparr>, False, [])"
    using ignored_stream [OF assms(1), of "''QUIT'' # ls" es fd] by simp
qed

theorem quit_keeps_subscription_witness:
  "each_line BUFFER_SIZE (client_line (\<lambda>_. calm) 5) (stream_of [''QUIT'', ''GET n'']) \<lparr>cl_sv = fresh, cl_sub = True, cl_lines = 3, cl_out = []\<rparr> =
     Inr (\<lparr>cl_sv = fresh, cl_sub = True, cl_lines = 5, cl_out = []\<rparr>, False, [])"
proof -
  have "data_line ''GET n''" using session_parses(3)
    by (simp add: data_line_def is_cstr_def BUFFER_SIZE_def MAX_ARGS_def same_nocase_def to_lower_def byte_of_def)
  then show ?thesis
    using quit_keeps_subscription [of "\<lparr>cl_sv = fresh, cl_sub = True, cl_lines = 3, cl_out = []\<rparr>"
        "\<lparr>ui_line = ''QUIT'', ui_active = True, ui_sent = '''', ui_tty = ''''\<rparr>" "[''GET n'']" "\<lambda>_. calm" 5] by simp
qed

subsection \<open>Sockets\<close>

text \<open>C39. The server listens exactly when its socket was created and one of the first five calls of
  \<open>bind\<close> succeeds after others that found the port in use; when only the sixth call succeeds, it holds
  the port and yet reports that it could not bind and exits.\<close>

theorem server_listens:
  "(server_listen srv bind = Some srv' \<longleftrightarrow> srv' = srv \<and> 0 \<le> srv \<and> (\<exists>k < 5. bind k = BIND_OK \<and> (\<forall>j < k. bind j = BIND_INUSE))) \<and>
   bind_loop ((\<lambda>_. BIND_INUSE)(5 := BIND_OK)) 0 BIND_RETRIES = (False, BIND_OK)"
proof
  show "server_listen srv bind = Some srv' \<longleftrightarrow> srv' = srv \<and> 0 \<le> srv \<and> (\<exists>k < 5. bind k = BIND_OK \<and> (\<forall>j < k. bind j = BIND_INUSE))"
    using bind_loop_ok [of bind 0 5] by (auto simp: server_listen_def BIND_RETRIES_def)
  show "bind_loop ((\<lambda>_. BIND_INUSE)(5 := BIND_OK)) 0 BIND_RETRIES = (False, BIND_OK)"
    using bind_loop_busy [of 5 "(\<lambda>_. BIND_INUSE)(5 := BIND_OK)" 0 0] by (simp add: BIND_RETRIES_def)
qed

theorem server_listens_witness: "server_listen 3 (\<lambda>_. BIND_OK) = Some 3"
proof -
  have "\<exists>k < (5 :: nat). BIND_OK = BIND_OK \<and> (\<forall>j < k. BIND_OK = BIND_INUSE)" by (intro exI [of _ 0]) simp
  with server_listens [of 3 "\<lambda>_. BIND_OK" 3] show ?thesis by simp
qed

text \<open>The descriptor of the cluster bus at the end: where the bus listens, \<open>cluster_shutdown\<close> closes its
  socket and the listener thread, which it then waits for, closes the same number again; where the
  bus could not listen, \<open>cluster_shutdown\<close> closes descriptor 0, the standard input, since \<open>listener_fd\<close>
  still has the value it was allocated with.\<close>

theorem bus_descriptor_closed_wrongly:
  assumes "cluster_init dial now conf = (cs, out)" "0 \<le> srv"
  shows "\<exists>fds fds'. cluster_shutdown (snd (snd (bus_listener_start srv True cs))) = Inr (srv # fds) \<and>
    fst (bus_listener_end srv (snd (snd (bus_listener_start srv True cs)))) = [srv] \<and>
    bus_listener_start srv False cs = ([srv], None, cs) \<and> cluster_shutdown cs = Inr (0 # fds')"
proof -
  note l = cluster_init_listener [OF assms(1)]
  have r: "rr_inv (c_ring cs)" using l repl_init_ok(1) by simp
  have s: "snd (snd (bus_listener_start srv True cs)) = cs\<lparr>c_listener_fd := srv\<rparr>" using assms(2) by (simp add: bus_listener_start_def)
  show ?thesis unfolding s
    using cluster_shutdown_ok [OF r] cluster_shutdown_ok [of "cs\<lparr>c_listener_fd := srv\<rparr>"] r l assms(2)
    by (simp add: bus_listener_end_def bus_listener_start_def)
qed

theorem bus_descriptor_closed_wrongly_witness:
  "\<exists>fds. cluster_shutdown (fst (cluster_init (\<lambda>_. -1) 0 \<lparr>cf_nodes = [], cf_my_node = 0, cf_my_cluster_port = 0\<rparr>)) = Inr (0 # fds)"
  using bus_descriptor_closed_wrongly [of "\<lambda>_. -1" 0 "\<lparr>cf_nodes = [], cf_my_node = 0, cf_my_cluster_port = 0\<rparr>" _ _ 3]
  by (metis order_refl prod.collapse zero_le_numeral)

subsection \<open>From accept to the workers\<close>

text \<open>C6. Every client the main thread accepts is served exactly once and in the order of acceptance, also
  across a shutdown: for any interleaving of connections, failed calls of \<open>accept\<close>, the signal and turns
  of the workers, then the shutdown and enough turns of the workers, these have taken exactly the
  clients accepted up to the first return of \<open>accept\<close> after the signal, no pointer of the job list was
  misused, and each worker leaves its loop.\<close>

theorem accepted_served:
  assumes "length (accepted es) \<le> n"
  shows "\<exists>out1 tp1 out2 tp2. qrun tp_submit tp_deq tp_init (accept_loop es True) = Inr (out1, tp1) \<and>
    qrun tp_submit tp_deq (tp_shutdown tp1) (replicate n Take) = Inr (out2, tp2) \<and>
    out1 @ out2 = accepted es \<and> tp_worker_take tp2 = Inr (TP_Exit, tp2)"
  using pool_serves_all [of "accept_loop es True" n] assms by (simp add: puts_accept_loop)

theorem accepted_served_witness:
  "\<exists>out1 tp1 out2 tp2.
    qrun tp_submit tp_deq tp_init (accept_loop [M_Accept 7, M_Accept (-1), M_Worker, M_Accept 8, M_Signal, M_Accept 9, M_Accept 10] True) =
      Inr (out1, tp1) \<and>
    qrun tp_submit tp_deq (tp_shutdown tp1) (replicate 3 Take) = Inr (out2, tp2) \<and>
    out1 @ out2 = [7, 8, 9] \<and> tp_worker_take tp2 = Inr (TP_Exit, tp2)"
  using accepted_served [of "[M_Accept 7, M_Accept (-1), M_Worker, M_Accept 8, M_Signal, M_Accept 9, M_Accept 10]" 3]
  by (simp add: accepted_def)

end
