(* ===== verification/Sections.thy ===== *)
theory Sections
  imports Prelude
begin

text \<open>
  Programs that several threads run on one state. A program is its result, or the next atomic section, which
  acts on the state and says how to go on. \<open>alone_run\<close> runs a program without others; \<open>run_sched\<close> runs
  several in the order of a schedule, in which each number is a thread that runs its next section.
\<close>

datatype ('s, 'r) prog = Ret 'r | Sec "'s \<Rightarrow> fault + (('s, 'r) prog \<times> 's)"

primrec alone_run :: "('s, 'r) prog \<Rightarrow> 's \<Rightarrow> ('r \<times> 's) res" where
  "alone_run (Ret r) = (\<lambda>s. Inr (r, s))"
| "alone_run (Sec f) = (\<lambda>s. case (map_sum id (map_prod alone_run id) \<circ> f) s of Inl e \<Rightarrow> Inl e | Inr (g, s) \<Rightarrow> g s)"

lemma alone_Sec: "alone_run (Sec f) s = bindr (f s) (\<lambda>(p, s). alone_run p s)"
  by (cases "f s") (auto simp: bindr_def)

declare alone_run.simps(2) [simp del]

fun run_sched :: "nat list \<Rightarrow> ('s, 'r) prog list \<Rightarrow> 's \<Rightarrow> (('s, 'r) prog list \<times> 's) res" where
  "run_sched [] ps s = Inr (ps, s)"
| "run_sched (i # is) ps s = (case ps ! i of
       Ret _ \<Rightarrow> run_sched is ps s
     | Sec f \<Rightarrow> bindr (f s) (\<lambda>(p, s). run_sched is (ps[i := p]) s))"

end
