(* ===== verification/Lock_Sections.thy ===== *)
theory Lock_Sections
  imports Command_Refinement Sections
begin

text \<open>
  Several threads on one store. An operation of \<open>src/src/core/kvdb.c\<close> that takes the lock of the table
  more than once is a sequence of critical sections; between two of them other threads run theirs.

  The definitions below cut \<open>kv_incrby\<close>, \<open>kv_append\<close>, \<open>kv_setnx\<close> and \<open>kv_del\<close> at the points where the source
  releases the lock. The second call of \<open>get_string_obj\<close> in \<open>kv_append\<close> is not a section of its own: it
  changes nothing and its result is not used. Alone the programs are the operations; the last section
  shows what can happen between two sections.
\<close>

type_synonym int_prog = "(kv_table, int \<times> int option) prog"

subsection \<open>The operations as sections\<close>

definition finished :: "((int \<times> int option) \<times> kv_table) res \<Rightarrow> fault + (int_prog \<times> kv_table)" where
  "finished m = bindr m (\<lambda>(r, db). Inr (Ret r, db))"

definition incr_finish :: "string \<Rightarrow> int \<Rightarrow> int_prog" where
  "incr_finish key delta = Sec (\<lambda>db. finished (incr_slot (fst (probe (t_entries db) key)) delta db))"

definition incr_store :: "(nat \<Rightarrow> bool) \<Rightarrow> u64 \<Rightarrow> string \<Rightarrow> int \<Rightarrow> u64 \<Rightarrow> int_prog" where
  "incr_store mem now key delta ver = Sec (\<lambda>db.
     bindr (kv_set_object mem db key ((obj_create_string now ''0'')\<lparr>o_version := ver\<rparr>) None) (\<lambda>(_, db).
     Inr (incr_finish key delta, db)))"

definition incr_version :: "(nat \<Rightarrow> bool) \<Rightarrow> u64 \<Rightarrow> string \<Rightarrow> int \<Rightarrow> int_prog" where
  "incr_version mem now key delta = Sec (\<lambda>db. case kv_next_version db of (ver, db) \<Rightarrow> Inr (incr_store mem now key delta ver, db))"

definition incr_prog :: "(nat \<Rightarrow> bool) \<Rightarrow> u64 \<Rightarrow> string \<Rightarrow> int \<Rightarrow> int_prog" where
  "incr_prog mem now key delta = Sec (\<lambda>db. case probe (t_entries db) key of (idx, found) \<Rightarrow>
     if found then finished (incr_slot idx delta db) else Inr (incr_version mem now key delta, db))"

definition append_finish :: "string \<Rightarrow> string \<Rightarrow> int_prog" where
  "append_finish key sfx = Sec (\<lambda>db. case append_at db key sfx of ((r, len), db) \<Rightarrow> Inr (Ret (r, map_option int len), db))"

definition append_store :: "(nat \<Rightarrow> bool) \<Rightarrow> u64 \<Rightarrow> string \<Rightarrow> string \<Rightarrow> int_prog" where
  "append_store mem now key sfx = Sec (\<lambda>db.
     bindr (kv_set_object mem db key (obj_create_string now '''') None) (\<lambda>(r, db).
     Inr (if r \<noteq> 0 then Ret (-1, None) else append_finish key sfx, db)))"

definition append_prog :: "(nat \<Rightarrow> bool) \<Rightarrow> u64 \<Rightarrow> string \<Rightarrow> string \<Rightarrow> int_prog" where
  "append_prog mem now key sfx = Sec (\<lambda>db.
     Inr (case get_string_obj db key of Some _ \<Rightarrow> append_finish key sfx | None \<Rightarrow> append_store mem now key sfx, db))"

definition set_store :: "(nat \<Rightarrow> bool) \<Rightarrow> u64 \<Rightarrow> string \<Rightarrow> string \<Rightarrow> u64 \<Rightarrow> int_prog" where
  "set_store mem now key value ver = Sec (\<lambda>db.
     bindr (kv_set_meta mem now db key value \<lparr>m_version = ver, m_wallclock = now, m_origin = ''''\<rparr>) (\<lambda>(r, db).
     Inr (Ret (r, None), db)))"

definition set_prog :: "(nat \<Rightarrow> bool) \<Rightarrow> u64 \<Rightarrow> string \<Rightarrow> string \<Rightarrow> int_prog" where
  "set_prog mem now key value = Sec (\<lambda>db. case kv_next_version db of (ver, db) \<Rightarrow> Inr (set_store mem now key value ver, db))"

definition setnx_prog :: "(nat \<Rightarrow> bool) \<Rightarrow> u64 \<Rightarrow> string \<Rightarrow> string \<Rightarrow> int_prog" where
  "setnx_prog mem now key value = Sec (\<lambda>db.
     Inr (if kv_exists db key then Ret (0, None) else set_prog mem now key value, db))"

definition del_prog :: "string \<Rightarrow> int_prog" where
  "del_prog key = Sec (\<lambda>db. bindr (kv_del db key) (\<lambda>(r, db). Inr (Ret (r, None), db)))"

lemmas prog_defs = incr_prog_def incr_version_def incr_store_def incr_finish_def append_prog_def append_store_def append_finish_def
  setnx_prog_def set_prog_def set_store_def del_prog_def finished_def

text \<open>Without other threads the sections are the operations.\<close>

lemma incr_alone: "alone_run (incr_prog mem now k d) db = kv_incrby mem now db k d"
  by (auto simp: prog_defs alone_Sec kv_incrby_def bindr_def Let_def split: prod.split sum.split)

lemma append_alone:
  "alone_run (append_prog mem now k t) db = bindr (kv_append mem now db k t) (\<lambda>((r, len), db). Inr ((r, map_option int len), db))"
  by (auto simp: prog_defs alone_Sec kv_append_def bindr_def Let_def split: prod.split sum.split option.split)

lemma setnx_alone: "alone_run (setnx_prog mem now k v) db = bindr (kv_setnx mem now db k v) (\<lambda>(r, db). Inr ((r, None), db))"
  by (auto simp: prog_defs alone_Sec kv_setnx_def kv_set_def bindr_def Let_def split: prod.split sum.split)

lemma del_alone: "alone_run (del_prog k) db = bindr (kv_del db k) (\<lambda>(r, db). Inr ((r, None), db))"
  by (auto simp: prog_defs alone_Sec bindr_def split: prod.split sum.split)

subsection \<open>Single sections\<close>

lemma version_same [simp]:
  "room (db\<lparr>t_version := v\<rparr>) n = room db n" "kv_abs (db\<lparr>t_version := v\<rparr>) = kv_abs db"
  by (simp_all add: room_def kv_abs_def fun_eq_iff)

lemma absent_probe: "kv_inv db \<Longrightarrow> k \<notin> dom (kv_abs db) \<Longrightarrow> \<exists>idx. probe (t_entries db) k = (idx, False)"
  using kv_exists_ok [of db k] by (cases "probe (t_entries db) k") (auto simp: kv_exists_def dom_abs)

text \<open>Storing an object where there is room.\<close>

lemma store_section:
  assumes "kv_inv db" "room db (Suc n)" "obj_inv obj"
  shows "\<exists>d. kv_set_object mem db k obj meta = Inr (0, d) \<and> kv_inv d \<and> kv_abs d = (kv_abs db)(k \<mapsto> absval (o_val obj)) \<and> room d n"
proof -
  note r = room_D [OF assms(2), of mem]
  from kv_set_object_ok [OF assms(1,3), of mem k meta] r obtain d where
    d: "kv_set_object mem db k obj meta = Inr (0, d)" "kv_inv d"
      "kv_map d = (kv_map db |` (- victims (grown mem db) k))(k \<mapsto> stamped meta obj)" by auto
  have "o_val (stamped meta obj) = o_val obj" by (simp add: stamped_def stamp_def split: option.split)
  then have a: "kv_abs d = (kept mem db k)(k \<mapsto> absval (o_val obj))" using kv_abs_stored [OF d(3)] by simp
  have "grows (Suc 0) db d" using set_object_grows [OF d(1)] r by blast
  from grows_room [OF this assms(2)] d(1,2) a kept_exact [OF assms(1), of mem k] r show ?thesis by simp
qed

lemma set_section:
  assumes "kv_inv db" "room db (Suc n)"
  shows "\<exists>d. kv_set_meta mem now db k s m = Inr (0, d) \<and> kv_inv d \<and> kv_abs d = (kv_abs db)(k \<mapsto> AStr s) \<and> room d n"
  using store_section [OF assms create_stamp_inv, of mem k m now s "Some m"]
  by (simp add: kv_set_meta_def stamp_def obj_create_string_def)

text \<open>Adding to a number that is there.\<close>

lemma incr_section:
  assumes inv: "kv_inv db" and s: "kv_abs db k = Some (AStr s)" "number_at db k = Some v" "in_i64 v" "in_i64 (v + delta)"
  shows "\<exists>idx d. probe (t_entries db) k = (idx, True) \<and> incr_slot idx delta db = Inr ((0, Some (v + delta)), d) \<and> kv_inv d \<and>
    kv_abs d = (kv_abs db)(k \<mapsto> AStr (int_dec (v + delta))) \<and> grows 0 db d"
proof -
  obtain idx obj where f: "kv_find db k = Some (idx, obj)" using s(1) kv_find_abs(1) [OF inv, of k] by (cases "kv_find db k") auto
  have o: "o_val obj = OBJ_STRING s" using kv_find_abs(2) [OF inv f] s(1) by (cases "o_val obj") auto
  have v: "v = (case scan_lld s of None \<Rightarrow> 0 | Some v \<Rightarrow> v)" using s(1,2) by (simp add: number_at_def)
  from incr_slot_ok [OF inv f o v s(3,4)] obtain d where
    d: "incr_slot idx delta db = Inr ((0, Some (v + delta)), d)" "kv_inv d" "kv_abs d = (kv_abs db)(k \<mapsto> AStr (int_dec (v + delta)))" by blast
  moreover have "grows 0 db d" using upto_incr_slot [OF grows_refl, of 0 db idx delta] d(1) by simp
  ultimately show ?thesis using kv_find_Some(5) [OF inv f] by blast
qed

lemma number_dec: "kv_abs db k = Some (AStr (int_dec v)) \<Longrightarrow> number_at db k = Some v"
  using scan_int_dec [of "''''" v] by (simp add: number_at_def)

lemma zero_dec: "''0'' = int_dec 0"
  by code_simp

lemma room_grows0: "grows 0 db d \<Longrightarrow> room db n \<Longrightarrow> room d n"
  by (auto simp: grows_def room_def)

lemma incr_prog_present:
  assumes "kv_inv db" "kv_abs db k = Some (AStr s)" "number_at db k = Some v" "in_i64 v" "in_i64 (v + delta)"
  shows "\<exists>f d. incr_prog mem now k delta = Sec f \<and> f db = Inr (Ret (0, Some (v + delta)), d) \<and> kv_inv d \<and>
    kv_abs d = (kv_abs db)(k \<mapsto> AStr (int_dec (v + delta))) \<and> number_at d k = Some (v + delta)"
  using incr_section [OF assms] number_dec [of _ k "v + delta"] by (fastforce simp: incr_prog_def finished_def)

text \<open>Threads that have run their only section have returned, the others still have their program.\<close>

definition adding :: "(nat \<Rightarrow> bool) \<Rightarrow> u64 \<Rightarrow> string \<Rightarrow> int list \<Rightarrow> nat set \<Rightarrow> int_prog list \<Rightarrow> bool" where
  "adding mem now k ds D ps \<longleftrightarrow> length ps = length ds \<and>
     (\<forall>i < length ds. if i \<in> D then \<exists>w. ps ! i = Ret (0, Some w) else ps ! i = incr_prog mem now k (ds ! i))"

lemma adding_step:
  "adding mem now k ds D ps \<Longrightarrow> i < length ds \<Longrightarrow> adding mem now k ds (insert i D) (ps[i := Ret (0, Some w)])"
  by (auto simp: adding_def nth_list_update)

lemma sum_part:
  assumes "D \<subseteq> {..<length ds}" "\<bar>v\<bar> + (\<Sum>d\<leftarrow>ds. \<bar>d\<bar>) < 2 ^ 63"
  shows "in_i64 (v + (\<Sum>i\<in>D. ds ! i))"
proof -
  have "\<bar>\<Sum>i\<in>D. ds ! i\<bar> \<le> (\<Sum>i\<in>D. \<bar>ds ! i\<bar>)" by (rule sum_abs)
  also have "\<dots> \<le> (\<Sum>i<length ds. \<bar>ds ! i\<bar>)" using assms(1) by (intro sum_mono2) auto
  also have "\<dots> = (\<Sum>d\<leftarrow>ds. \<bar>d\<bar>)" by (simp add: sum_list_sum_nth atLeast0LessThan)
  finally show ?thesis using assms(2) by (auto simp: in_i64_def i64_min_def i64_max_def)
qed

lemma adding_run:
  assumes "set is \<subseteq> {..<length ds}" "D \<subseteq> {..<length ds}" "\<bar>v\<bar> + (\<Sum>d\<leftarrow>ds. \<bar>d\<bar>) < 2 ^ 63" "adding mem now k ds D ps"
    "kv_inv db" "kv_abs db k = Some (AStr s)" "number_at db k = Some (v + (\<Sum>i\<in>D. ds ! i))"
  shows "\<exists>ps' d s'. run_sched is ps db = Inr (ps', d) \<and> adding mem now k ds (D \<union> set is) ps' \<and> kv_inv d \<and>
    kv_abs d = (kv_abs db)(k \<mapsto> AStr s') \<and> number_at d k = Some (v + (\<Sum>i\<in>D \<union> set is. ds ! i)) \<and>
    s' = (if set is \<subseteq> D then s else int_dec (v + (\<Sum>i\<in>D \<union> set is. ds ! i)))"
  using assms
proof (induction "is" arbitrary: D ps db s)
  case Nil
  then show ?case by (auto simp: fun_upd_idem)
next
  case (Cons i "is")
  then have i: "i < length ds" "set is \<subseteq> {..<length ds}" by auto
  show ?case
  proof (cases "i \<in> D")
    case True
    with Cons.prems(4) i(1) obtain w where "ps ! i = Ret (0, Some w)" unfolding adding_def by meson
    moreover from True have u: "D \<union> set (i # is) = D \<union> set is" "set (i # is) \<subseteq> D \<longleftrightarrow> set is \<subseteq> D" by auto
    ultimately show ?thesis using Cons.IH [OF i(2) Cons.prems(2-7)] unfolding u by simp
  next
    case False
    let ?x = "v + (\<Sum>i\<in>D. ds ! i)" let ?D = "insert i D"
    have fin: "finite D" using Cons.prems(2) finite_subset by blast
    have x: "?x + ds ! i = v + (\<Sum>i\<in>?D. ds ! i)" using False fin by simp
    have D: "?D \<subseteq> {..<length ds}" using Cons.prems(2) i by simp
    note b = sum_part [OF Cons.prems(2,3)] sum_part [OF D Cons.prems(3)]
    from incr_prog_present [OF Cons.prems(5,6,7) b(1), of "ds ! i" mem now] b(2) obtain f d where
      f: "incr_prog mem now k (ds ! i) = Sec f" "f db = Inr (Ret (0, Some (?x + ds ! i)), d)" "kv_inv d"
        "kv_abs d = (kv_abs db)(k \<mapsto> AStr (int_dec (?x + ds ! i)))" "number_at d k = Some (?x + ds ! i)" unfolding x by blast
    have p: "ps ! i = Sec f" using Cons.prems(4) i False f(1) by (simp add: adding_def)
    have k: "kv_abs d k = Some (AStr (int_dec (?x + ds ! i)))" using f(4) by simp
    have u: "D \<union> set (i # is) = ?D \<union> set is" by auto
    from Cons.IH [OF i(2) D Cons.prems(3) adding_step [OF Cons.prems(4) i(1)] f(3) k] f(5) x obtain ps' d' s' where
      r: "run_sched is (ps[i := Ret (0, Some (?x + ds ! i))]) d = Inr (ps', d')" "adding mem now k ds (?D \<union> set is) ps'" "kv_inv d'"
        "kv_abs d' = (kv_abs d)(k \<mapsto> AStr s')" "number_at d' k = Some (v + (\<Sum>i\<in>?D \<union> set is. ds ! i))"
        "s' = (if set is \<subseteq> ?D then int_dec (?x + ds ! i) else int_dec (v + (\<Sum>i\<in>?D \<union> set is. ds ! i)))" by metis
    have "s' = int_dec (v + (\<Sum>i\<in>?D \<union> set is. ds ! i))" using r(6) x Un_absorb2 [of "set is" ?D] by presburger
    moreover have "run_sched (i # is) ps db = Inr (ps', d')" using r(1) by (simp add: p f(2))
    moreover have "kv_abs d' = (kv_abs db)(k \<mapsto> AStr s')" using r(4) f(4) by simp
    moreover have "\<not> set (i # is) \<subseteq> D" using False by simp
    ultimately show ?thesis unfolding u using r(2,3,5) by auto
  qed
qed

text \<open>What the sections of a counter that is missing do, and of a deletion.\<close>

lemma incr_prog_absent:
  assumes "kv_inv db" "k \<notin> dom (kv_abs db)"
  shows "\<exists>f. incr_prog mem now k delta = Sec f \<and> f db = Inr (incr_version mem now k delta, db)"
  using absent_probe [OF assms] by (auto simp: incr_prog_def)

lemma version_section:
  "incr_version mem now k delta = Sec (\<lambda>db. Inr (incr_store mem now k delta (t_version db + 1), db\<lparr>t_version := t_version db + 1\<rparr>))"
  by (simp add: incr_version_def kv_next_version_def Let_def)

lemma counter_stored:
  assumes "kv_inv db" "room db (Suc n)"
  shows "\<exists>f d. incr_store mem now k delta ver = Sec f \<and> f db = Inr (incr_finish k delta, d) \<and> kv_inv d \<and>
    kv_abs d = (kv_abs db)(k \<mapsto> AStr (int_dec 0)) \<and> room d n"
proof -
  have "obj_inv ((obj_create_string now ''0'')\<lparr>o_version := ver\<rparr>)" by simp
  from store_section [OF assms this, of mem k None] show ?thesis
    by (auto simp: incr_store_def obj_create_string_def simp flip: zero_dec)
qed

lemma counter_finished:
  assumes "kv_inv db" "kv_abs db k = Some (AStr (int_dec v))" "in_i64 v" "in_i64 (v + delta)"
  shows "\<exists>f d. incr_finish k delta = Sec f \<and> f db = Inr (Ret (0, Some (v + delta)), d) \<and> kv_inv d \<and>
    kv_abs d = (kv_abs db)(k \<mapsto> AStr (int_dec (v + delta))) \<and> (\<forall>n. room db n \<longrightarrow> room d n)"
  using incr_section [OF assms(1,2) number_dec [OF assms(2)] assms(3,4)] room_grows0
  by (fastforce simp: incr_finish_def finished_def)

lemma finish_missing:
  assumes "kv_inv db" "k \<notin> dom (kv_abs db)" "room db (Suc n)"
  shows "\<exists>f. incr_finish k delta = Sec f \<and> f db = Inl NullDeref"
proof -
  obtain idx where p: "probe (t_entries db) k = (idx, False)" using absent_probe [OF assms(1,2)] by blast
  have "t_entries db ! idx = E_EMPTY"
    using probe_not_full [OF kv_invD(1) [OF assms(1)] _ p] room_D [OF assms(3)] assms(1) by (auto simp: kv_inv_def)
  then show ?thesis by (simp add: incr_finish_def finished_def incr_slot_def p)
qed

lemma del_section:
  assumes "kv_inv db" "k \<in> dom (kv_abs db)"
  shows "\<exists>f d. del_prog k = Sec f \<and> f db = Inr (Ret (0, None), d) \<and> kv_inv d \<and> kv_abs d = (kv_abs db)(k := None) \<and>
    (\<forall>n. room db n \<longrightarrow> room d n)"
proof -
  from kv_del_ok [OF assms(1), of k] assms(2) obtain d where
    d: "kv_del db k = Inr (0, d)" "kv_inv d" "kv_map d = (kv_map db)(k := None)" by (auto simp: dom_abs)
  moreover have "kv_abs d = (kv_abs db)(k := None)" using d(3) by (auto simp: kv_abs_def)
  moreover have "grows 0 db d" using upto_del [OF assms(1), of k] d(1) by simp
  ultimately show ?thesis using room_grows0 by (auto simp: del_prog_def)
qed

lemma setnx_section:
  assumes "kv_inv db" "k \<notin> dom (kv_abs db)"
  shows "\<exists>f. setnx_prog mem now k v = Sec f \<and> f db = Inr (set_prog mem now k v, db)"
  using kv_exists_ok [OF assms(1), of k] assms(2) by (simp add: setnx_prog_def dom_abs)

lemma set_version_section:
  "set_prog mem now k v = Sec (\<lambda>db. Inr (set_store mem now k v (t_version db + 1), db\<lparr>t_version := t_version db + 1\<rparr>))"
  by (simp add: set_prog_def kv_next_version_def Let_def)

lemma set_store_section:
  assumes "kv_inv db" "room db (Suc n)"
  shows "\<exists>f d. set_store mem now k v ver = Sec f \<and> f db = Inr (Ret (0, None), d) \<and> kv_inv d \<and>
    kv_abs d = (kv_abs db)(k \<mapsto> AStr v) \<and> room d n"
  using set_section [OF assms] by (fastforce simp: set_store_def)

lemma version_inv [simp]: "kv_inv (db\<lparr>t_version := v\<rparr>) = kv_inv db"
  by (simp add: kv_inv_def)

subsection \<open>Threads\<close>

text \<open>
  A thread somewhere inside one of the commands: \<open>string_prog incr n p\<close> says that \<open>p\<close> is what is left of it, at most
  \<open>n\<close> sections; \<open>incr\<close> allows increments.
\<close>

inductive string_prog :: "bool \<Rightarrow> nat \<Rightarrow> int_prog \<Rightarrow> bool" for incr where
  returned: "string_prog incr n (Ret r)"
| del: "1 \<le> n \<Longrightarrow> string_prog incr n (del_prog k)"
| set_last: "1 \<le> n \<Longrightarrow> string_prog incr n (set_store mem now k v ver)"
| set: "2 \<le> n \<Longrightarrow> string_prog incr n (set_prog mem now k v)"
| setnx: "3 \<le> n \<Longrightarrow> string_prog incr n (setnx_prog mem now k v)"
| append_last: "1 \<le> n \<Longrightarrow> string_prog incr n (append_finish k v)"
| append_next: "2 \<le> n \<Longrightarrow> string_prog incr n (append_store mem now k v)"
| append: "3 \<le> n \<Longrightarrow> string_prog incr n (append_prog mem now k v)"
| incr_last: "incr \<Longrightarrow> 1 \<le> n \<Longrightarrow> string_prog incr n (incr_finish k d)"
| incr_next: "incr \<Longrightarrow> 2 \<le> n \<Longrightarrow> string_prog incr n (incr_store mem now k d ver)"
| incr_then: "incr \<Longrightarrow> 3 \<le> n \<Longrightarrow> string_prog incr n (incr_version mem now k d)"
| incr: "incr \<Longrightarrow> 4 \<le> n \<Longrightarrow> string_prog incr n (incr_prog mem now k d)"

lemma slot_find: "kv_inv db \<Longrightarrow> idx < length (t_entries db) \<Longrightarrow> t_entries db ! idx = E_OCCUPIED k obj \<Longrightarrow> kv_find db k = Some (idx, obj)"
  by (auto simp: kv_find_def kv_inv_def tbl_wf_def)

text \<open>Whatever slot the increment works on, also that of another key, the store stays well-formed.\<close>

lemma incr_slot_any:
  assumes "kv_inv db"
  shows "case incr_slot (fst (probe (t_entries db) k)) d db of
      Inl e \<Rightarrow> e = NullDeref \<or> e = SignedOverflow | Inr (r, db') \<Rightarrow> kv_inv db'"
proof -
  let ?i = "fst (probe (t_entries db) k)"
  have i: "?i < length (t_entries db)" using assms probe_ok(1) [of "t_entries db" k] by (cases "probe (t_entries db) k") (auto simp: kv_inv_def)
  show ?thesis
  proof (cases "t_entries db ! ?i")
    case (E_OCCUPIED k' obj)
    from slot_find [OF assms i this] have f: "kv_find db k' = Some (?i, obj)" .
    have "kv_inv (put_obj ?i (obj\<lparr>o_val := OBJ_STRING s\<rparr>) db)" for s by (rule put_obj_ok(1) [OF assms f]) (simp add: obj_inv_def)
    with E_OCCUPIED assms show ?thesis by (auto simp: incr_slot_def i64_def split: obj_val.split option.split)
  qed (simp_all add: incr_slot_def)
qed

lemma append_at_any: "kv_inv db \<Longrightarrow> kv_inv (snd (append_at db k v))"
  using put_obj_ok(1) [of db k] by (auto simp: append_at_def obj_inv_def split: option.split obj_val.split)

lemma set_object_any:
  assumes "kv_inv db" "obj_inv obj"
  shows "\<exists>r d. kv_set_object mem db k obj meta = Inr (r, d) \<and> kv_inv d"
  using kv_set_object_ok [OF assms] by blast

text \<open>One section of such a thread.\<close>

lemma string_section:
  assumes "string_prog incr n (Sec f)" "kv_inv db"
  shows "0 < n \<and> (case f db of
      Inl e \<Rightarrow> incr \<and> (e = NullDeref \<or> e = SignedOverflow) | Inr (p, d) \<Rightarrow> string_prog incr (n - 1) p \<and> kv_inv d)"
  using assms(1)
proof (cases rule: string_prog.cases)
  case (del k)
  with kv_del_ok [OF assms(2), of k] show ?thesis by (auto simp: del_prog_def intro: string_prog.returned)
next
  case (set_last mem now k v ver)
  let ?m = "\<lparr>m_version = ver, m_wallclock = now, m_origin = []\<rparr>"
  from set_object_any [OF assms(2) create_stamp_inv, of mem k ?m now v "Some ?m"] set_last show ?thesis
    by (auto simp: set_store_def kv_set_meta_def intro!: string_prog.returned)
next
  case (set mem now k v)
  then show ?thesis using assms(2) by (auto simp: set_version_section intro!: string_prog.set_last)
next
  case (setnx mem now k v)
  then show ?thesis using assms(2) by (auto simp: setnx_prog_def intro!: string_prog.returned string_prog.set)
next
  case (append_last k v)
  with append_at_any [OF assms(2), of k v] show ?thesis by (auto simp: append_finish_def split: prod.split intro!: string_prog.returned)
next
  case (append_next mem now k v)
  have "obj_inv (obj_create_string now [])" by simp
  from set_object_any [OF assms(2) this, of mem k None] append_next show ?thesis by (auto simp: append_store_def intro!: string_prog.returned string_prog.append_last)
next
  case (append mem now k v)
  then show ?thesis using assms(2) by (auto simp: append_prog_def split: option.split intro!: string_prog.append_last string_prog.append_next)
next
  case (incr_last k d)
  with incr_slot_any [OF assms(2), of k d] show ?thesis
    by (auto simp: incr_finish_def finished_def split: sum.splits prod.splits intro!: string_prog.returned)
next
  case (incr_next mem now k d ver)
  have "obj_inv ((obj_create_string now ''0'')\<lparr>o_version := ver\<rparr>)" by simp
  from set_object_any [OF assms(2) this, of mem k None] incr_next show ?thesis by (auto simp: incr_store_def intro!: string_prog.incr_last)
next
  case (incr_then mem now k d)
  then show ?thesis using assms(2) by (auto simp: version_section intro!: string_prog.incr_next)
next
  case (incr mem now k d)
  with incr_slot_any [OF assms(2), of k d] assms(2) show ?thesis
    by (auto simp: incr_prog_def finished_def split: sum.splits prod.splits intro!: string_prog.returned string_prog.incr_then)
qed

lemma string_run:
  assumes "set is \<subseteq> {..<length ps}" "\<forall>i < length ps. string_prog incr (b i) (ps ! i)" "kv_inv db"
  shows "case run_sched is ps db of
      Inl e \<Rightarrow> incr \<and> (e = NullDeref \<or> e = SignedOverflow)
    | Inr (ps', d) \<Rightarrow> kv_inv d \<and> length ps' = length ps \<and> (\<forall>i < length ps. string_prog incr (b i - count_list is i) (ps' ! i))"
  using assms
proof (induction "is" arbitrary: ps b db)
  case (Cons i "is")
  have i: "i < length ps" "set is \<subseteq> {..<length ps}" using Cons.prems(1) by auto
  have shift: "(b(i := b i - 1)) j - count_list is j = b j - count_list (i # is) j" for j by simp
  show ?case
  proof (cases "ps ! i")
    case (Ret r)
    have "\<forall>j < length ps. string_prog incr ((b(i := b i - 1)) j) (ps ! j)" using Cons.prems(2) Ret by (auto intro: string_prog.returned)
    from Cons.IH [OF i(2) this Cons.prems(3)] show ?thesis unfolding shift by (simp add: Ret)
  next
    case (Sec f)
    note sec = string_section [OF Cons.prems(2) [rule_format, OF i(1), unfolded Sec] Cons.prems(3)]
    show ?thesis
    proof (cases "f db")
      case (Inl e)
      with sec Sec show ?thesis by simp
    next
      case (Inr q)
      then obtain p d where q: "f db = Inr (p, d)" by (cases q) auto
      have "\<forall>j < length (ps[i := p]). string_prog incr ((b(i := b i - 1)) j) (ps[i := p] ! j)"
        using Cons.prems(2) sec q i(1) by (auto simp: nth_list_update)
      from Cons.IH [OF _ this, of d] sec q i have "case run_sched is (ps[i := p]) d of
            Inl e \<Rightarrow> incr \<and> (e = NullDeref \<or> e = SignedOverflow)
          | Inr (ps', d) \<Rightarrow> kv_inv d \<and> length ps' = length ps \<and> (\<forall>j < length ps. string_prog incr (b j - count_list (i # is) j) (ps' ! j))"
        unfolding shift length_list_update by (simp del: count_list.simps)
      then show ?thesis using Sec q by (simp del: count_list.simps)
    qed
  qed
qed simp

lemma string_prog_0: "string_prog incr 0 p \<Longrightarrow> \<exists>r. p = Ret r"
  by (erule string_prog.cases) auto


text \<open>C13. Increments of a counter that is present are atomic: whatever the order in which the threads
  run, no increment is lost, every thread returns 0, no other key changes and nothing overflows while
  the sums stay within 64 bits.\<close>

theorem counters_atomic:
  assumes "kv_inv db" "kv_abs db k = Some (AStr s)" "number_at db k = Some v" "\<bar>v\<bar> + (\<Sum>d\<leftarrow>ds. \<bar>d\<bar>) < 2 ^ 63"
    and "set is = {..<length ds}" "ds \<noteq> []"
  shows "\<exists>ps d. run_sched is (map (incr_prog mem now k) ds) db = Inr (ps, d) \<and> length ps = length ds \<and>
    (\<forall>p \<in> set ps. \<exists>w. p = Ret (0, Some w)) \<and> kv_inv d \<and> kv_abs d = (kv_abs db)(k \<mapsto> AStr (int_dec (v + sum_list ds)))"
proof -
  have "adding mem now k ds {} (map (incr_prog mem now k) ds)" by (simp add: adding_def)
  from adding_run [OF _ _ assms(4) this assms(1,2), of "is"] assms(3,5,6) obtain ps d where
    r: "run_sched is (map (incr_prog mem now k) ds) db = Inr (ps, d)" "adding mem now k ds {..<length ds} ps" "kv_inv d"
      "kv_abs d = (kv_abs db)(k \<mapsto> AStr (int_dec (v + (\<Sum>i<length ds. ds ! i))))" by (auto simp: lessThan_empty_iff)
  have "length ps = length ds" "\<forall>p \<in> set ps. \<exists>w. p = Ret (0, Some w)" using r(2) by (auto simp: adding_def in_set_conv_nth)
  with r show ?thesis by (simp add: sum_list_sum_nth atLeast0LessThan)
qed

lemma empty_store: "kv_abs (kv_init p) = Map.empty" "k \<notin> dom (kv_abs (kv_init p))"
  by (simp_all add: kv_abs_def kv_init_map fun_eq_iff dom_def)

lemma empty_room: "room (kv_init p) 2" "room (kv_init p) (Suc 0)"
  by (simp_all add: room_def kv_init_def INITIAL_CAPACITY_def)

lemma counter_db: "\<exists>db. kv_inv db \<and> kv_abs db = [''n'' \<mapsto> AStr (int_dec 7)]"
  using set_section [OF kv_init_inv empty_room(2), of "\<lambda>_. True" 9 None "''n''" "int_dec 7" "\<lparr>m_version = 1, m_wallclock = 9, m_origin = []\<rparr>"] empty_store(1) by auto

theorem counters_atomic_witness:
  "\<exists>db ps d. kv_abs db = [''n'' \<mapsto> AStr (int_dec 7)] \<and>
     run_sched [2, 0, 1] (map (incr_prog (\<lambda>_. True) 9 ''n'') [1, -3, 10]) db = Inr (ps, d) \<and> kv_abs d = [''n'' \<mapsto> AStr (int_dec 15)]"
proof -
  obtain db where d: "kv_inv db" "kv_abs db = [''n'' \<mapsto> AStr (int_dec 7)]" using counter_db by blast
  then have n: "kv_abs db ''n'' = Some (AStr (int_dec 7))" by simp
  have "set [2, 0, 1] = {..<length [1, -3, 10 :: int]}" by auto
  from counters_atomic [OF d(1) n number_dec [OF n] _ this, of "\<lambda>_. True" 9] d(2) show ?thesis by fastforce
qed


text \<open>C28. An increment of a missing counter is not atomic: \<open>kv_incrby\<close> releases the lock before it stores the
  zero. When a second increment runs in between, the zero of the first overwrites it: both return as
  if they were alone, and only the first is left in the store.\<close>

theorem lost_increment:
  assumes "kv_inv db" "k \<notin> dom (kv_abs db)" "room db 2" "in_i64 x" "in_i64 y"
  shows "\<exists>d. run_sched [0, 1, 1, 1, 1, 0, 0, 0] [incr_prog mem now k x, incr_prog mem now k y] db =
      Inr ([Ret (0, Some x), Ret (0, Some y)], d) \<and> kv_inv d \<and> kv_abs d = (kv_abs db)(k \<mapsto> AStr (int_dec x))"
proof -
  obtain f g where f: "incr_prog mem now k x = Sec f" "f db = Inr (incr_version mem now k x, db)"
    and g: "incr_prog mem now k y = Sec g" "g db = Inr (incr_version mem now k y, db)"
    using incr_prog_absent [OF assms(1,2)] by metis
  let ?a = "db\<lparr>t_version := t_version db + 1\<rparr>"
  have a: "kv_inv ?a" "room ?a (Suc (Suc 0))" using assms(1,3) by (simp_all add: numeral_2_eq_2)
  obtain h b where h: "incr_store mem now k y (t_version db + 1) = Sec h" "h ?a = Inr (incr_finish k y, b)" "kv_inv b"
      "kv_abs b = (kv_abs ?a)(k \<mapsto> AStr (int_dec 0))" "room b (Suc 0)" using counter_stored [OF a] by metis
  have bk: "kv_abs b k = Some (AStr (int_dec 0))" using h(4) by simp
  obtain i c where i: "incr_finish k y = Sec i" "i b = Inr (Ret (0, Some y), c)" "kv_inv c"
      "kv_abs c = (kv_abs b)(k \<mapsto> AStr (int_dec y))" "room c (Suc 0)"
    using counter_finished [OF h(3) bk, of y] assms(5) h(5) by auto
  let ?c = "c\<lparr>t_version := t_version c + 1\<rparr>"
  have c: "kv_inv ?c" "room ?c (Suc 0)" using i by simp_all
  obtain j d where j: "incr_store mem now k x (t_version c + 1) = Sec j" "j ?c = Inr (incr_finish k x, d)" "kv_inv d"
      "kv_abs d = (kv_abs ?c)(k \<mapsto> AStr (int_dec 0))" using counter_stored [OF c] by metis
  have dk: "kv_abs d k = Some (AStr (int_dec 0))" using j(4) by simp
  obtain l e where "incr_finish k x = Sec l" "l d = Inr (Ret (0, Some x), e)" "kv_inv e"
      "kv_abs e = (kv_abs d)(k \<mapsto> AStr (int_dec x))" using counter_finished [OF j(3) dk, of x] assms(4) by auto
  with f g h i j show ?thesis by (simp add: version_section)
qed

theorem lost_increment_witness:
  "\<exists>d. run_sched [0, 1, 1, 1, 1, 0, 0, 0] [incr_prog (\<lambda>_. True) 9 ''n'' 1, incr_prog (\<lambda>_. True) 9 ''n'' 1] (kv_init None) =
     Inr ([Ret (0, Some 1), Ret (0, Some 1)], d) \<and> kv_abs d ''n'' = Some (AStr (int_dec 1))"
  using lost_increment [OF kv_init_inv empty_store(2) empty_room(1) in_i64_small(2,2)] fun_upd_same by metis

text \<open>C31. A deletion between the two halves of an increment: \<open>kv_incrby\<close> does not look at \<open>found\<close> when it
  probes again, so that it reads the object of an empty slot.\<close>

theorem increment_null_deref:
  assumes "kv_inv db" "k \<notin> dom (kv_abs db)" "room db 2"
  shows "run_sched [0, 0, 0, 1, 0] [incr_prog mem now k x, del_prog k] db = Inl NullDeref"
proof -
  obtain f where f: "incr_prog mem now k x = Sec f" "f db = Inr (incr_version mem now k x, db)"
    using incr_prog_absent [OF assms(1,2)] by metis
  let ?a = "db\<lparr>t_version := t_version db + 1\<rparr>"
  have a: "kv_inv ?a" "room ?a (Suc (Suc 0))" using assms(1,3) by (simp_all add: numeral_2_eq_2)
  obtain h b where h: "incr_store mem now k x (t_version db + 1) = Sec h" "h ?a = Inr (incr_finish k x, b)" "kv_inv b"
      "kv_abs b = (kv_abs ?a)(k \<mapsto> AStr (int_dec 0))" "room b (Suc 0)" using counter_stored [OF a] by metis
  from del_section [OF h(3), of k] h(4,5) obtain g c where g: "del_prog k = Sec g" "g b = Inr (Ret (0, None), c)" "kv_inv c"
      "kv_abs c = (kv_abs b)(k := None)" "room c (Suc 0)" by auto
  have "k \<notin> dom (kv_abs c)" using g(4) by auto
  from finish_missing [OF g(3) this g(5), of x] f g h show ?thesis by (auto simp: version_section)
qed

theorem increment_null_deref_witness:
  "run_sched [0, 0, 0, 1, 0] [incr_prog (\<lambda>_. True) 9 ''n'' 1, del_prog ''n''] (kv_init None) = Inl NullDeref"
  by (rule increment_null_deref [OF kv_init_inv empty_store(2) empty_room(1)])

text \<open>\<open>SETNX\<close> tests and stores in different sections: two of them on a missing key both store, and the
  value that was there first is overwritten.\<close>

theorem setnx_overwrites:
  assumes "kv_inv db" "k \<notin> dom (kv_abs db)" "room db 2"
  shows "\<exists>b d. run_sched [0, 1, 1, 1] [setnx_prog mem now k x, setnx_prog mem now k y] db = Inr b \<and> kv_abs (snd b) k = Some (AStr y) \<and>
    run_sched [0, 0] (fst b) (snd b) = Inr ([Ret (0, None), Ret (0, None)], d) \<and> kv_inv d \<and> kv_abs d = (kv_abs db)(k \<mapsto> AStr x)"
proof -
  obtain f g where f: "setnx_prog mem now k x = Sec f" "f db = Inr (set_prog mem now k x, db)"
    and g: "setnx_prog mem now k y = Sec g" "g db = Inr (set_prog mem now k y, db)" using setnx_section [OF assms(1,2)] by metis
  let ?a = "db\<lparr>t_version := t_version db + 1\<rparr>"
  have a: "kv_inv ?a" "room ?a (Suc (Suc 0))" using assms(1,3) by (simp_all add: numeral_2_eq_2)
  obtain h b where h: "set_store mem now k y (t_version db + 1) = Sec h" "h ?a = Inr (Ret (0, None), b)" "kv_inv b"
      "kv_abs b = (kv_abs ?a)(k \<mapsto> AStr y)" "room b (Suc 0)" using set_store_section [OF a] by metis
  let ?b = "b\<lparr>t_version := t_version b + 1\<rparr>"
  have b: "kv_inv ?b" "room ?b (Suc 0)" using h by simp_all
  obtain j d where j: "set_store mem now k x (t_version b + 1) = Sec j" "j ?b = Inr (Ret (0, None), d)" "kv_inv d"
      "kv_abs d = (kv_abs ?b)(k \<mapsto> AStr x)" using set_store_section [OF b] by metis
  with f g h show ?thesis by (simp add: set_version_section)
qed

theorem setnx_overwrites_witness:
  "\<exists>b d. run_sched [0, 1, 1, 1] [setnx_prog (\<lambda>_. True) 9 ''k'' ''a'', setnx_prog (\<lambda>_. True) 9 ''k'' ''b''] (kv_init None) = Inr b \<and>
     kv_abs (snd b) ''k'' = Some (AStr ''b'') \<and> run_sched [0, 0] (fst b) (snd b) = Inr ([Ret (0, None), Ret (0, None)], d) \<and>
     kv_abs d ''k'' = Some (AStr ''a'')"
  using setnx_overwrites [OF kv_init_inv empty_store(2) empty_room(1)] fun_upd_same by metis

end
