(* ===== verification/Runs.thy ===== *)
theory Runs
  imports Main
begin

text \<open>
  Step relations of threads: an invariant that every step keeps, and a measure that every step
  decreases, so that every run has a bounded length and ends in a state without a step. The locale is
  interpreted on the thread pool and on the threads that take locks.
\<close>

locale invariant_runs =
  fixes step :: "'s \<Rightarrow> 's \<Rightarrow> bool" and inv :: "'s \<Rightarrow> bool"
  assumes keeps: "inv s \<Longrightarrow> step s s' \<Longrightarrow> inv s'"
begin

lemma run_inv: "step\<^sup>*\<^sup>* s s' \<Longrightarrow> inv s \<Longrightarrow> inv s'"
  by (induction rule: rtranclp_induct) (auto dest: keeps)

lemma runs_inv: "(step ^^ n) s s' \<Longrightarrow> inv s \<Longrightarrow> inv s'"
  using run_inv relpowp_imp_rtranclp by metis

end

locale bounded_runs = invariant_runs step inv for step :: "'s \<Rightarrow> 's \<Rightarrow> bool" and inv :: "'s \<Rightarrow> bool" +
  fixes m :: "'s \<Rightarrow> nat"
  assumes decreases: "inv s \<Longrightarrow> step s s' \<Longrightarrow> m s' < m s"
begin

lemma run_bound: "(step ^^ n) s s' \<Longrightarrow> inv s \<Longrightarrow> n + m s' \<le> m s"
proof (induction n arbitrary: s')
  case (Suc n)
  then obtain t where t: "(step ^^ n) s t" "step t s'" by (auto elim: relpowp_Suc_E)
  with Suc have "n + m t \<le> m s" "m s' < m t" using runs_inv decreases by blast+
  then show ?case by simp
qed simp

lemma run_ends: "inv s \<Longrightarrow> \<exists>s'. step\<^sup>*\<^sup>* s s' \<and> inv s' \<and> (\<forall>t. \<not> step s' t)"
proof (induction "m s" arbitrary: s rule: less_induct)
  case less
  show ?case
  proof (cases "\<exists>t. step s t")
    case True
    then obtain t where t: "step s t" by blast
    with less.hyps [OF decreases] keeps less.prems obtain s' where "step\<^sup>*\<^sup>* t s'" "inv s'" "\<forall>u. \<not> step s' u" by meson
    with t show ?thesis by (meson converse_rtranclp_into_rtranclp)
  qed (use less.prems in blast)
qed

end

end
