(* ===== verification/Pool_Threads.thy ===== *)
theory Pool_Threads
  imports Work_Queues Runs
begin

text \<open>
  The threads of the pool (\<open>tp_worker\<close>, \<open>tp_submit\<close>, \<open>tp_shutdown\<close> of \<open>src/src/server/server.c\<close>) with their mutex
  and condition variable. The sections under \<open>g_tp.lock\<close> are steps; a worker that finds no job sleeps in
  \<open>pthread_cond_wait\<close> until it is signalled, and may also wake up without a reason.
\<close>

datatype worker = W_Enter | W_Sleep | W_Woken | W_Serve int | W_Exit

datatype main_state = M_Accepting | M_Joining | M_Done

text \<open>\<open>pl_in\<close> and \<open>pl_out\<close> record the connections submitted and taken so far.\<close>

record pool =
  pl_tp :: thread_pool
  pl_workers :: "worker list"
  pl_main :: main_state
  pl_in :: "int list"
  pl_out :: "int list"

definition THREAD_POOL_SIZE :: nat where
  "THREAD_POOL_SIZE = 8"

definition pool_init :: pool where
  "pool_init = \<lparr>pl_tp = tp_init, pl_workers = replicate THREAD_POOL_SIZE W_Enter, pl_main = M_Accepting, pl_in = [], pl_out = []\<rparr>"

text \<open>A worker that has the lock, up to where it gives it up.\<close>

definition worker_section :: "thread_pool \<Rightarrow> (worker \<times> thread_pool) res" where
  "worker_section tp = bindr (tp_worker_take tp) (\<lambda>(r, tp).
     Inr (case r of TP_Wait \<Rightarrow> W_Sleep | TP_Exit \<Rightarrow> W_Exit | TP_Job fd \<Rightarrow> W_Serve fd, tp))"

fun served_fd :: "worker \<Rightarrow> int list" where
  "served_fd (W_Serve fd) = [fd]"
| "served_fd _ = []"

text \<open>\<open>pthread_cond_broadcast\<close> wakes all sleepers; \<open>pthread_cond_signal\<close> wakes some, at least one if there is one.\<close>

definition broadcast :: "worker list \<Rightarrow> worker list" where
  "broadcast ws = map (\<lambda>w. if w = W_Sleep then W_Woken else w) ws"

definition signalled :: "worker list \<Rightarrow> worker list \<Rightarrow> bool" where
  "signalled ws ws' \<longleftrightarrow> list_all2 (\<lambda>w w'. w' = w \<or> w = W_Sleep \<and> w' = W_Woken) ws ws' \<and> (W_Sleep \<in> set ws \<longrightarrow> ws' \<noteq> ws)"

inductive pool_step :: "pool \<Rightarrow> pool \<Rightarrow> bool" where
  look: "i < length (pl_workers s) \<Longrightarrow> pl_workers s ! i = W_Enter \<or> pl_workers s ! i = W_Woken \<Longrightarrow> worker_section (pl_tp s) = Inr (w, tp) \<Longrightarrow>
    pool_step s (s\<lparr>pl_tp := tp, pl_workers := (pl_workers s)[i := w], pl_out := pl_out s @ served_fd w\<rparr>)"
| served: "i < length (pl_workers s) \<Longrightarrow> pl_workers s ! i = W_Serve fd \<Longrightarrow>
    pool_step s (s\<lparr>pl_workers := (pl_workers s)[i := W_Enter]\<rparr>)"
| spurious: "i < length (pl_workers s) \<Longrightarrow> pl_workers s ! i = W_Sleep \<Longrightarrow>
    pool_step s (s\<lparr>pl_workers := (pl_workers s)[i := W_Woken]\<rparr>)"
| submit: "pl_main s = M_Accepting \<Longrightarrow> tp_submit (pl_tp s) fd = Inr tp \<Longrightarrow> signalled (pl_workers s) ws \<Longrightarrow>
    pool_step s (s\<lparr>pl_tp := tp, pl_workers := ws, pl_in := pl_in s @ [fd]\<rparr>)"
| shutdown: "pl_main s = M_Accepting \<Longrightarrow>
    pool_step s (s\<lparr>pl_tp := tp_shutdown (pl_tp s), pl_workers := broadcast (pl_workers s), pl_main := M_Joining\<rparr>)"
| joined: "pl_main s = M_Joining \<Longrightarrow> \<forall>w \<in> set (pl_workers s). w = W_Exit \<Longrightarrow> pool_step s (s\<lparr>pl_main := M_Done\<rparr>)"

inductive_cases pool_stepE: "pool_step s s'"

subsection \<open>No wake-up is lost\<close>

text \<open>Workers on their way to the queue.\<close>

definition on_way :: "worker \<Rightarrow> bool" where
  "on_way w \<longleftrightarrow> w = W_Enter \<or> w = W_Woken"

lemma on_way_simps [simp]: "on_way W_Enter" "on_way W_Woken" "\<not> on_way W_Sleep" "\<not> on_way (W_Serve fd)" "\<not> on_way W_Exit"
  by (simp_all add: on_way_def)

definition alert :: "worker list \<Rightarrow> nat" where
  "alert ws = length (filter on_way ws)"

definition pool_inv :: "pool \<Rightarrow> bool" where
  "pool_inv s \<longleftrightarrow> tp_inv (pl_tp s) \<and> pl_in s = pl_out s @ tp_jobs (pl_tp s) \<and>
     (tp_stop (pl_tp s) \<longleftrightarrow> pl_main s \<noteq> M_Accepting) \<and>
     (tp_stop (pl_tp s) \<longrightarrow> W_Sleep \<notin> set (pl_workers s)) \<and> (\<not> tp_stop (pl_tp s) \<longrightarrow> W_Exit \<notin> set (pl_workers s)) \<and>
     (W_Sleep \<in> set (pl_workers s) \<longrightarrow> length (tp_jobs (pl_tp s)) \<le> alert (pl_workers s)) \<and>
     (W_Exit \<in> set (pl_workers s) \<longrightarrow> tp_jobs (pl_tp s) = []) \<and> length (pl_workers s) = THREAD_POOL_SIZE \<and>
     (pl_main s = M_Done \<longrightarrow> set (pl_workers s) \<subseteq> {W_Exit})"

lemma worker_section_cases:
  assumes "tp_inv tp"
  shows "tp_jobs tp = [] \<and> worker_section tp = Inr (if tp_stop tp then W_Exit else W_Sleep, tp) \<or>
    (\<exists>fd fds tp'. tp_jobs tp = fd # fds \<and> worker_section tp = Inr (W_Serve fd, tp') \<and> tp_inv tp' \<and> tp_jobs tp' = fds \<and> tp_stop tp' = tp_stop tp)"
proof (cases "tp_jobs tp")
  case Nil
  with tp_take_empty [OF assms] show ?thesis by (simp add: worker_section_def)
next
  case (Cons fd fds)
  obtain as where r: "tp_rep tp as" using assms by (auto simp: tp_inv_def)
  then obtain a bs where "as = a # bs" using tp_rep_jobs [OF r] Cons by (cases as) auto
  with tp_take_rep [of tp a bs] r Cons show ?thesis by (auto simp: worker_section_def tp_inv_def)
qed

lemma alert_update:
  "i < length ws \<Longrightarrow> alert (ws[i := w]) + of_bool (on_way (ws ! i)) = alert ws + of_bool (on_way w)"
proof (induction ws arbitrary: i)
  case (Cons a ws)
  show ?case
  proof (cases i)
    case (Suc j)
    then show ?thesis using Cons.IH [of j] Cons.prems by (auto simp: alert_def)
  qed (auto simp: alert_def)
qed simp

lemma alert_woken:
  assumes "list_all2 (\<lambda>w w'. w' = w \<or> w = W_Sleep \<and> w' = W_Woken) ws ws'"
  shows "alert ws \<le> alert ws' \<and> (ws' \<noteq> ws \<longrightarrow> alert ws < alert ws')"
  using assms by (induction ws ws' rule: list_all2_induct) (auto simp: alert_def on_way_def)

lemma woken_set:
  assumes "list_all2 (\<lambda>w w'. w' = w \<or> w = W_Sleep \<and> w' = W_Woken) ws ws'"
  shows "W_Sleep \<in> set ws' \<longrightarrow> W_Sleep \<in> set ws" "W_Exit \<in> set ws' \<longleftrightarrow> W_Exit \<in> set ws" "length ws' = length ws"
    "set ws \<subseteq> {W_Exit} \<longrightarrow> ws' = ws"
  using assms by (induction ws ws' rule: list_all2_induct) auto

lemma broadcast_set: "W_Sleep \<notin> set (broadcast ws)" "W_Exit \<in> set (broadcast ws) \<longleftrightarrow> W_Exit \<in> set ws" "length (broadcast ws) = length ws"
  by (auto simp: broadcast_def image_iff)

lemma in_update: "x \<in> set (xs[i := y]) \<Longrightarrow> x = y \<or> x \<in> set xs"
  using set_update_subset_insert [of xs i y] by blast

lemma not_done: "pool_inv s \<Longrightarrow> i < length (pl_workers s) \<Longrightarrow> pl_workers s ! i \<noteq> W_Exit \<Longrightarrow> pl_main s \<noteq> M_Done"
  using nth_mem [of i "pl_workers s"] unfolding pool_inv_def by blast

text \<open>Each kind of step keeps the invariant.\<close>

lemma look_inv:
  assumes inv: "pool_inv s" and i: "i < length (pl_workers s)" "on_way (pl_workers s ! i)" and w: "worker_section (pl_tp s) = Inr (w, tp)"
  shows "pool_inv (s\<lparr>pl_tp := tp, pl_workers := (pl_workers s)[i := w], pl_out := pl_out s @ served_fd w\<rparr>)"
proof -
  let ?ws = "pl_workers s"
  have nd: "pl_main s \<noteq> M_Done" using not_done [OF inv i(1)] i(2) by (auto simp: on_way_def)
  from worker_section_cases [of "pl_tp s"] inv have "tp_inv (pl_tp s)" by (simp add: pool_inv_def)
  from worker_section_cases [OF this] show ?thesis
  proof (elim disjE exE conjE)
    assume "tp_jobs (pl_tp s) = []" "worker_section (pl_tp s) = Inr (if tp_stop (pl_tp s) then W_Exit else W_Sleep, pl_tp s)"
    with inv w nd show ?thesis by (cases "tp_stop (pl_tp s)") (auto simp: pool_inv_def dest!: in_update)
  next
    fix fd fds tp'
    assume j: "tp_jobs (pl_tp s) = fd # fds" "worker_section (pl_tp s) = Inr (W_Serve fd, tp')" "tp_inv tp'" "tp_jobs tp' = fds"
      "tp_stop tp' = tp_stop (pl_tp s)"
    have "Suc (alert (?ws[i := W_Serve fd])) = alert ?ws" using alert_update [OF i(1), of "W_Serve fd"] i(2) by simp
    with inv w nd j show ?thesis by (auto simp: pool_inv_def dest!: in_update)
  qed
qed

lemma submit_inv:
  assumes inv: "pool_inv s" and m: "pl_main s = M_Accepting" "tp_submit (pl_tp s) fd = Inr tp" "signalled (pl_workers s) ws"
  shows "pool_inv (s\<lparr>pl_tp := tp, pl_workers := ws, pl_in := pl_in s @ [fd]\<rparr>)"
proof -
  obtain as where "tp_rep (pl_tp s) as" using inv by (auto simp: pool_inv_def tp_inv_def)
  from tp_submit_rep [OF this, of fd] m(2) have t: "tp_inv tp" "tp_jobs tp = tp_jobs (pl_tp s) @ [fd]" "tp_stop tp = tp_stop (pl_tp s)"
    by (auto simp: tp_inv_def)
  have w: "list_all2 (\<lambda>w w'. w' = w \<or> w = W_Sleep \<and> w' = W_Woken) (pl_workers s) ws" "W_Sleep \<in> set (pl_workers s) \<longrightarrow> ws \<noteq> pl_workers s"
    using m(3) by (auto simp: signalled_def)
  show ?thesis using inv m(1) t w(2) alert_woken [OF w(1)] woken_set [OF w(1)] by (auto simp: pool_inv_def)
qed

lemma shutdown_inv:
  assumes "pool_inv s" "pl_main s = M_Accepting"
  shows "pool_inv (s\<lparr>pl_tp := tp_shutdown (pl_tp s), pl_workers := broadcast (pl_workers s), pl_main := M_Joining\<rparr>)"
proof -
  have "tp_inv (tp_shutdown (pl_tp s)) = tp_inv (pl_tp s)" "tp_jobs (tp_shutdown (pl_tp s)) = tp_jobs (pl_tp s)" "tp_stop (tp_shutdown (pl_tp s))"
    by (simp_all add: tp_inv_def tp_rep_def tp_shutdown_def tp_jobs_def)
  with assms show ?thesis by (simp add: pool_inv_def broadcast_set)
qed

lemma worker_inv:
  assumes "pool_inv s" "i < length (pl_workers s)" "pl_workers s ! i = W_Sleep \<or> (\<exists>fd. pl_workers s ! i = W_Serve fd)" "on_way w"
  shows "pool_inv (s\<lparr>pl_workers := (pl_workers s)[i := w]\<rparr>)"
proof -
  have "alert ((pl_workers s)[i := w]) = Suc (alert (pl_workers s))"
    using alert_update [OF assms(2), of w] assms(3,4) by auto
  moreover have "pl_main s \<noteq> M_Done" using not_done [OF assms(1,2)] assms(3) by auto
  ultimately show ?thesis using assms(1,4) by (auto simp: pool_inv_def on_way_def dest!: in_update)
qed

lemma pool_step_inv: "pool_inv s \<Longrightarrow> pool_step s s' \<Longrightarrow> pool_inv s'"
proof (erule pool_stepE, goal_cases)
  case (1 i w tp)
  then show ?case using look_inv [of s i w tp] by (simp add: on_way_def)
next
  case (2 i fd)
  then show ?case using worker_inv [of s i W_Enter] by (simp add: on_way_def)
next
  case (3 i)
  then show ?case using worker_inv [of s i W_Woken] by (simp add: on_way_def)
next
  case (4 fd tp ws)
  then show ?case using submit_inv by simp
next
  case 5
  then show ?case using shutdown_inv by simp
next
  case 6
  then show ?case by (auto simp: pool_inv_def)
qed

interpretation pool_runs: invariant_runs pool_step pool_inv
  by unfold_locales (rule pool_step_inv)

lemma pool_init_inv: "pool_inv pool_init"
  using tp_init_ok by (simp add: pool_inv_def pool_init_def tp_init_def)

definition pool_reachable :: "pool \<Rightarrow> bool" where
  "pool_reachable s \<longleftrightarrow> pool_step\<^sup>*\<^sup>* pool_init s"

lemma pool_reachable_inv: "pool_reachable s \<Longrightarrow> pool_inv s"
  unfolding pool_reachable_def using pool_runs.run_inv pool_init_inv by blast

subsection \<open>The shutdown ends\<close>

definition worker_work :: "worker \<Rightarrow> nat" where
  "worker_work w = (case w of W_Serve _ \<Rightarrow> 2 | W_Exit \<Rightarrow> 0 | _ \<Rightarrow> 1)"

definition pool_work :: "pool \<Rightarrow> nat" where
  "pool_work s = 2 * length (tp_jobs (pl_tp s)) + (\<Sum>w\<leftarrow>pl_workers s. worker_work w) + of_bool (pl_main s = M_Joining)"

definition stopping :: "int list \<Rightarrow> pool \<Rightarrow> bool" where
  "stopping xs s \<longleftrightarrow> pool_inv s \<and> pl_main s \<noteq> M_Accepting \<and> pl_in s = xs"

lemma work_update:
  "i < length ws \<Longrightarrow> (\<Sum>w\<leftarrow>ws[i := w]. worker_work w) + worker_work (ws ! i) = (\<Sum>w\<leftarrow>ws. worker_work w) + worker_work w"
proof (induction ws arbitrary: i)
  case (Cons a ws)
  then show ?case by (cases i) auto
qed simp

lemma work_bound: "(\<Sum>w\<leftarrow>ws. worker_work w) \<le> 2 * length ws"
  by (induction ws) (auto simp: worker_work_def split: worker.split)

lemma look_work:
  assumes inv: "stopping xs s" and i: "i < length (pl_workers s)" "on_way (pl_workers s ! i)" and w: "worker_section (pl_tp s) = Inr (w, tp)"
  shows "2 * length (tp_jobs tp) + worker_work w < 2 * length (tp_jobs (pl_tp s)) + worker_work (pl_workers s ! i)"
proof -
  have "tp_inv (pl_tp s)" "tp_stop (pl_tp s)" using inv by (auto simp: stopping_def pool_inv_def)
  moreover have "worker_work (pl_workers s ! i) = 1" using i(2) by (auto simp: on_way_def worker_work_def)
  ultimately show ?thesis using worker_section_cases [of "pl_tp s"] w by (auto simp: worker_work_def)
qed

lemma stopping_step:
  assumes "stopping xs s" "pool_step s s'"
  shows "stopping xs s' \<and> pool_work s' < pool_work s"
  using assms(2)
proof cases
  case (look i w tp)
  then have "on_way (pl_workers s ! i)" by (auto simp: on_way_def)
  from look_work [OF assms(1) look(2) this look(4)] work_update [OF look(2), of w] have "pool_work s' < pool_work s"
    by (simp add: look(1) pool_work_def)
  with look assms pool_step_inv show ?thesis by (auto simp: stopping_def)
next
  case (served i fd)
  from work_update [OF served(2), of W_Enter] have "pool_work s' < pool_work s"
    by (simp add: served pool_work_def worker_work_def)
  with served assms pool_step_inv show ?thesis by (auto simp: stopping_def)
next
  case (spurious i)
  then show ?thesis using assms(1) nth_mem [of i "pl_workers s"] by (auto simp: stopping_def pool_inv_def)
next
  case joined
  then show ?thesis using assms pool_step_inv by (auto simp: stopping_def pool_work_def)
qed (use assms(1) in \<open>auto simp: stopping_def\<close>)

interpretation stops: bounded_runs pool_step "stopping xs" pool_work for xs
  by unfold_locales (auto dest: stopping_step)

lemma stopping_final:
  assumes inv: "stopping xs s" and final: "\<And>t. \<not> pool_step s t"
  shows "pl_main s = M_Done \<and> (\<forall>w \<in> set (pl_workers s). w = W_Exit) \<and> pl_out s = xs"
proof -
  note d = inv [unfolded stopping_def pool_inv_def]
  obtain v tp where sec: "worker_section (pl_tp s) = Inr (v, tp)" using worker_section_cases [of "pl_tp s"] d by auto
  have all: "w = W_Exit" if "w \<in> set (pl_workers s)" for w
  proof -
    from that obtain i where i: "i < length (pl_workers s)" "pl_workers s ! i = w" by (auto simp: in_set_conv_nth)
    have "\<not> on_way w" using final pool_step.look [OF i(1) _ sec] i(2) unfolding on_way_def by blast
    moreover have "w \<noteq> W_Serve fd" for fd using final pool_step.served [OF i(1)] i(2) by blast
    ultimately show ?thesis using d that by (cases w) auto
  qed
  then have "pl_main s \<noteq> M_Joining" using final pool_step.joined by blast
  moreover have "pl_workers s \<noteq> []" using d by (auto simp: THREAD_POOL_SIZE_def)
  then have "W_Exit \<in> set (pl_workers s)" using all by (cases "pl_workers s") auto
  ultimately show ?thesis using d all by (cases "pl_main s") auto
qed

text \<open>A pool to which one connection was submitted.\<close>

lemma one_job: "\<exists>s. pool_reachable s \<and> pl_main s = M_Accepting \<and> pl_in s = [7] \<and> tp_jobs (pl_tp s) = [7] \<and> pl_workers s = replicate THREAD_POOL_SIZE W_Enter"
proof -
  have "tp_rep tp_init []" by (simp add: tp_rep_def tp_init_def)
  from tp_submit_rep [OF this, of 7] obtain tp where tp: "tp_submit tp_init 7 = Inr tp" "tp_jobs tp = [7]" using tp_init_ok by auto
  have "signalled (pl_workers pool_init) (pl_workers pool_init)" by (simp add: signalled_def pool_init_def list_all2_refl)
  from pool_step.submit [of pool_init, OF _ _ this, of 7 tp] tp have "pool_reachable (pool_init\<lparr>pl_tp := tp, pl_in := [7]\<rparr>)"
    by (auto simp: pool_reachable_def pool_init_def)
  with tp(2) show ?thesis by (intro exI [of _ "pool_init\<lparr>pl_tp := tp, pl_in := [7]\<rparr>"]) (simp add: pool_init_def)
qed

subsection \<open>Properties\<close>

text \<open>C8. No wake-up is lost, for any schedule of the eight workers and the main thread, with signals that
  wake one or more sleepers and wake-ups without a reason: connections are taken in the order of
  submission; while a worker sleeps, at least as many workers are on their way to the queue as there are
  connections waiting in it; when one waits, either every worker is serving a client or a worker on its
  way takes the first of the queue next; and after the shutdown nobody sleeps. The pool never faults.\<close>

theorem pool_wakes:
  assumes "pool_reachable s"
  shows "pl_in s = pl_out s @ tp_jobs (pl_tp s) \<and> (\<exists>w tp. worker_section (pl_tp s) = Inr (w, tp)) \<and>
    (W_Sleep \<in> set (pl_workers s) \<longrightarrow> length (tp_jobs (pl_tp s)) \<le> alert (pl_workers s)) \<and>
    (tp_jobs (pl_tp s) \<noteq> [] \<longrightarrow> (\<forall>w \<in> set (pl_workers s). \<exists>fd. w = W_Serve fd) \<or>
       0 < alert (pl_workers s) \<and> (\<exists>tp. worker_section (pl_tp s) = Inr (W_Serve (hd (tp_jobs (pl_tp s))), tp))) \<and>
    (pl_main s \<noteq> M_Accepting \<longrightarrow> W_Sleep \<notin> set (pl_workers s))"
proof -
  note inv = pool_reachable_inv [OF assms, unfolded pool_inv_def]
  have "(\<forall>w \<in> set (pl_workers s). \<exists>fd. w = W_Serve fd) \<or> 0 < alert (pl_workers s)" if j: "tp_jobs (pl_tp s) \<noteq> []"
  proof (cases "W_Sleep \<in> set (pl_workers s)")
    case True
    with inv j show ?thesis by (cases "tp_jobs (pl_tp s)") auto
  next
    case False
    have "W_Exit \<notin> set (pl_workers s)" using inv j by auto
    with False have "on_way w \<or> (\<exists>fd. w = W_Serve fd)" if "w \<in> set (pl_workers s)" for w using that by (cases w) auto
    then show ?thesis by (auto simp: alert_def filter_empty_conv)
  qed
  with worker_section_cases [of "pl_tp s"] inv show ?thesis by auto
qed

theorem pool_wakes_witness:
  "\<exists>s. pool_reachable s \<and> tp_jobs (pl_tp s) = [7] \<and> 0 < alert (pl_workers s) \<and> (\<exists>tp. worker_section (pl_tp s) = Inr (W_Serve 7, tp))"
proof -
  obtain s where s: "pool_reachable s" "tp_jobs (pl_tp s) = [7]" "pl_workers s = replicate THREAD_POOL_SIZE W_Enter" using one_job by blast
  from pool_wakes [OF s(1)] s show ?thesis by (auto simp: THREAD_POOL_SIZE_def)
qed

text \<open>C12. The shutdown of the pool ends, without any assumption on the scheduler: once the main thread has
  called \<open>tp_shutdown\<close> with \<open>n\<close> connections waiting, at most \<open>2 n + 17\<close> more steps are possible, where a step
  that serves a client is the return of its handler; when no step is possible any more, all workers have
  left, the main thread has joined them, and exactly the submitted connections were taken, in order.\<close>

theorem shutdown_completes:
  assumes "pool_reachable s" "pl_main s = M_Joining"
  shows "(\<forall>k s'. (pool_step ^^ k) s s' \<longrightarrow> k \<le> 2 * length (tp_jobs (pl_tp s)) + 17) \<and>
    (\<forall>s'. pool_step\<^sup>*\<^sup>* s s' \<longrightarrow> (\<forall>t. \<not> pool_step s' t) \<longrightarrow>
       pl_main s' = M_Done \<and> (\<forall>w \<in> set (pl_workers s'). w = W_Exit) \<and> pl_out s' = pl_in s)"
proof (intro conjI allI impI)
  have s: "stopping (pl_in s) s" using pool_reachable_inv [OF assms(1)] assms(2) by (simp add: stopping_def)
  have w: "pool_work s \<le> 2 * length (tp_jobs (pl_tp s)) + 17"
    using work_bound [of "pl_workers s"] s by (simp add: pool_work_def stopping_def pool_inv_def THREAD_POOL_SIZE_def)
  show "k \<le> 2 * length (tp_jobs (pl_tp s)) + 17" if "(pool_step ^^ k) s s'" for k s'
    using stops.run_bound [OF that s] w by simp
  fix s' assume "pool_step\<^sup>*\<^sup>* s s'" "\<forall>t. \<not> pool_step s' t"
  with stops.run_inv [OF _ s] stopping_final
  show "pl_main s' = M_Done" "\<forall>w \<in> set (pl_workers s'). w = W_Exit" "pl_out s' = pl_in s" by blast+
qed

theorem shutdown_completes_witness:
  "\<exists>s s'. pool_reachable s \<and> pl_main s = M_Joining \<and> pl_in s = [7] \<and> pool_step\<^sup>*\<^sup>* s s' \<and> pl_main s' = M_Done \<and> pl_out s' = [7]"
proof -
  obtain s0 where s0: "pool_reachable s0" "pl_main s0 = M_Accepting" "pl_in s0 = [7]" using one_job by blast
  let ?s = "s0\<lparr>pl_tp := tp_shutdown (pl_tp s0), pl_workers := broadcast (pl_workers s0), pl_main := M_Joining\<rparr>"
  have s: "pool_reachable ?s" using s0(1) pool_step.shutdown [OF s0(2)] unfolding pool_reachable_def by (rule rtranclp.rtrancl_into_rtrancl)
  have "stopping [7] ?s" using pool_reachable_inv [OF s] s0(3) by (simp add: stopping_def)
  from stops.run_ends [OF this] obtain s' where r: "pool_step\<^sup>*\<^sup>* ?s s'" "\<forall>t. \<not> pool_step s' t" by blast
  with shutdown_completes [OF s] s0(3) have "pl_main s' = M_Done" "pl_out s' = [7]" by auto
  with s r(1) s0(3) show ?thesis by (intro exI [of _ ?s] exI [of _ s']) simp
qed

end
