(* ===== verification/Daemon_Threads.thy ===== *)
theory Daemon_Threads
  imports Work_Queues Runs
begin

text \<open>
  The replication daemon and its end (\<open>repl_thread\<close>, \<open>repl_enqueue\<close> and \<open>cluster_shutdown\<close> of
  \<open>src/src/cluster/cluster.c\<close>) with \<open>repl_lock\<close> and \<open>repl_cond\<close>. \<open>cluster_shutdown\<close> sets \<open>stop\<close> and broadcasts without
  the lock, so its steps come between any two of the daemon. Messages are queued by the worker threads
  only, which have ended before \<open>cluster_shutdown\<close> is called.
\<close>

text \<open>
  Where the daemon is: \<open>D_Woken\<close> it wants the lock; \<open>D_Test\<close> it has the lock and is at the head of its loop;
  \<open>D_Wait_Call\<close> it has found nothing to do and is about to call \<open>pthread_cond_wait\<close>; \<open>D_Asleep\<close> it sleeps
  there without the lock; \<open>D_Send\<close> it sends a message without the lock.
\<close>

datatype daemon_pc = D_Woken | D_Test | D_Wait_Call | D_Asleep | D_Send repl_item | D_Exit

datatype shutdown_pc = C_Running | C_Stopped | C_Joining | C_Done

record daemon =
  dm_ring :: repl_ring
  dm_pc :: daemon_pc
  dm_stop :: bool
  dm_main :: shutdown_pc
  dm_sent :: "repl_item list"

definition daemon_init :: daemon where
  "daemon_init = \<lparr>dm_ring = repl_ring_init 1024, dm_pc = D_Woken, dm_stop = False, dm_main = C_Running, dm_sent = []\<rparr>"

text \<open>One turn of the loop of the daemon, which holds the lock.\<close>

definition daemon_test :: "daemon \<Rightarrow> daemon res" where
  "daemon_test s =
     (if dm_stop s then Inr (s\<lparr>dm_pc := D_Exit\<rparr>)
      else bindr (repl_take (dm_ring s)) (\<lambda>p. case p of
          None \<Rightarrow> Inr (s\<lparr>dm_pc := D_Wait_Call\<rparr>)
        | Some (item, r) \<Rightarrow> Inr (s\<lparr>dm_pc := D_Send item, dm_ring := r\<rparr>)))"

definition wake :: "daemon_pc \<Rightarrow> daemon_pc" where
  "wake pc = (if pc = D_Asleep then D_Woken else pc)"

inductive daemon_step :: "daemon \<Rightarrow> daemon \<Rightarrow> bool" where
  lock: "dm_pc s = D_Woken \<Longrightarrow> daemon_step s (s\<lparr>dm_pc := D_Test\<rparr>)"
| test: "dm_pc s = D_Test \<Longrightarrow> daemon_test s = Inr s' \<Longrightarrow> daemon_step s s'"
| wait: "dm_pc s = D_Wait_Call \<Longrightarrow> daemon_step s (s\<lparr>dm_pc := D_Asleep\<rparr>)"
| spurious: "dm_pc s = D_Asleep \<Longrightarrow> daemon_step s (s\<lparr>dm_pc := D_Woken\<rparr>)"
| send: "dm_pc s = D_Send item \<Longrightarrow> daemon_step s (s\<lparr>dm_pc := D_Woken, dm_sent := dm_sent s @ [item]\<rparr>)"
| enqueue: "dm_main s = C_Running \<Longrightarrow> dm_pc s \<noteq> D_Test \<Longrightarrow> dm_pc s \<noteq> D_Wait_Call \<Longrightarrow> repl_enqueue (dm_ring s) msg = Inr r \<Longrightarrow>
    daemon_step s (s\<lparr>dm_ring := r, dm_pc := wake (dm_pc s)\<rparr>)"
| stop: "dm_main s = C_Running \<Longrightarrow> daemon_step s (s\<lparr>dm_stop := True, dm_main := C_Stopped\<rparr>)"
| broadcast: "dm_main s = C_Stopped \<Longrightarrow> daemon_step s (s\<lparr>dm_pc := wake (dm_pc s), dm_main := C_Joining\<rparr>)"
| joined: "dm_main s = C_Joining \<Longrightarrow> dm_pc s = D_Exit \<Longrightarrow> daemon_step s (s\<lparr>dm_main := C_Done\<rparr>)"

inductive_cases daemon_stepE: "daemon_step s s'"

definition daemon_reachable :: "daemon \<Rightarrow> bool" where
  "daemon_reachable s \<longleftrightarrow> daemon_step\<^sup>*\<^sup>* daemon_init s"

subsection \<open>When the broadcast is seen\<close>

definition daemon_ending :: "daemon \<Rightarrow> bool" where
  "daemon_ending s \<longleftrightarrow> dm_stop s \<and> (dm_main s = C_Joining \<or> dm_main s = C_Done) \<and> dm_pc s \<noteq> D_Wait_Call \<and> dm_pc s \<noteq> D_Asleep"

definition daemon_work :: "daemon \<Rightarrow> nat" where
  "daemon_work s = (case dm_pc s of D_Send _ \<Rightarrow> 3 | D_Woken \<Rightarrow> 2 | D_Test \<Rightarrow> 1 | _ \<Rightarrow> 0) + of_bool (dm_main s = C_Joining)"

lemma daemon_ending_step: "daemon_ending s \<Longrightarrow> daemon_step s s' \<Longrightarrow> daemon_ending s' \<and> daemon_work s' < daemon_work s"
  by (erule daemon_stepE) (auto simp: daemon_ending_def daemon_work_def daemon_test_def)

interpretation ending: bounded_runs daemon_step daemon_ending daemon_work
  by unfold_locales (auto dest: daemon_ending_step)

lemma daemon_ending_final:
  assumes "daemon_ending s" "\<forall>t. \<not> daemon_step s t"
  shows "dm_main s = C_Done"
proof (cases "dm_pc s")
  case D_Test
  then have "daemon_step s (s\<lparr>dm_pc := D_Exit\<rparr>)" using assms(1) by (intro daemon_step.test) (auto simp: daemon_test_def daemon_ending_def)
  with assms(2) show ?thesis by blast
next
  case D_Exit
  then show ?thesis using assms daemon_step.joined [of s] by (auto simp: daemon_ending_def)
qed (use assms daemon_step.lock [of s] daemon_step.send [of s] in \<open>auto simp: daemon_ending_def\<close>)

text \<open>In every reachable state the flag is set exactly when the shutdown has begun.\<close>

lemma daemon_stop_reachable: "daemon_reachable s \<Longrightarrow> dm_stop s \<longleftrightarrow> dm_main s \<noteq> C_Running"
  unfolding daemon_reachable_def
proof (induction rule: rtranclp_induct)
  case (step s s')
  from step.hyps(2) step.IH show ?case
    by (cases rule: daemon_step.cases) (auto simp: daemon_test_def split: if_splits option.splits prod.splits)
qed (simp add: daemon_init_def)

subsection \<open>Properties\<close>

text \<open>C38. The end of the replication daemon: when \<open>cluster_shutdown\<close> broadcasts while the daemon is not just
  between its test and its call of \<open>pthread_cond_wait\<close>, at most four more steps of the daemon and of the
  joining thread are possible, and when none is, the daemon has ended and was joined.\<close>

theorem daemon_stops:
  assumes "daemon_reachable s" "dm_main s = C_Stopped" "dm_pc s \<noteq> D_Wait_Call" "daemon_step s s'" "dm_main s' = C_Joining"
  shows "(\<forall>k t. (daemon_step ^^ k) s' t \<longrightarrow> k \<le> 4) \<and> (\<forall>t. daemon_step\<^sup>*\<^sup>* s' t \<longrightarrow> (\<forall>u. \<not> daemon_step t u) \<longrightarrow> dm_main t = C_Done)"
proof -
  have s: "dm_stop s" using daemon_stop_reachable [OF assms(1)] assms(2) by simp
  have e: "daemon_ending s'" using assms(4,2,3,5) s
    by (cases rule: daemon_step.cases) (auto simp: daemon_ending_def wake_def daemon_test_def split: if_splits)
  have "daemon_work s' \<le> 4" by (simp add: daemon_work_def split: daemon_pc.split)
  with ending.run_bound [OF _ e] ending.run_inv [OF _ e] daemon_ending_final show ?thesis by (meson add_leD1 order_trans)
qed

lemma daemon_run: "daemon_reachable s \<Longrightarrow> daemon_step s s' \<Longrightarrow> daemon_reachable s'"
  unfolding daemon_reachable_def by (rule rtranclp.rtrancl_into_rtrancl)

theorem daemon_stops_witness:
  "\<exists>s s' t. daemon_reachable s \<and> dm_main s = C_Stopped \<and> daemon_step s s' \<and> daemon_step\<^sup>*\<^sup>* s' t \<and> dm_main t = C_Done"
proof -
  let ?s = "daemon_init\<lparr>dm_stop := True, dm_main := C_Stopped\<rparr>"
  let ?t = "?s\<lparr>dm_pc := wake (dm_pc ?s), dm_main := C_Joining\<rparr>"
  have s: "daemon_reachable ?s" unfolding daemon_reachable_def
    by (intro r_into_rtranclp daemon_step.stop) (simp add: daemon_init_def)
  have t: "daemon_step ?s ?t" by (rule daemon_step.broadcast) simp
  have pc: "dm_pc ?s \<noteq> D_Wait_Call" by (simp add: daemon_init_def)
  have "daemon_ending ?t" by (simp add: daemon_ending_def wake_def daemon_init_def)
  from ending.run_ends [OF this] obtain u where "daemon_step\<^sup>*\<^sup>* ?t u" "\<forall>v. \<not> daemon_step u v" by blast
  with daemon_stops [OF s _ pc t] s t show ?thesis by (intro exI [of _ ?s] exI [of _ ?t] exI [of _ u]) simp
qed

text \<open>C30. A lost wake-up: \<open>cluster_shutdown\<close> sets \<open>stop\<close> and broadcasts without the lock. When the daemon has just
  found the queue empty and calls \<open>pthread_cond_wait\<close> after the broadcast, it sleeps for ever and
  \<open>cluster_shutdown\<close> waits for it in \<open>pthread_join\<close>: but for a wake-up without a reason no step is
  possible.\<close>

theorem shutdown_wakeup_lost:
  "\<exists>s. daemon_reachable s \<and> dm_main s = C_Joining \<and> dm_stop s \<and> dm_pc s = D_Asleep \<and>
     (\<forall>t. daemon_step s t \<longleftrightarrow> t = s\<lparr>dm_pc := D_Woken\<rparr>)"
proof -
  let ?a = "daemon_init\<lparr>dm_pc := D_Test\<rparr>" and ?b = "daemon_init\<lparr>dm_pc := D_Wait_Call\<rparr>"
  let ?c = "?b\<lparr>dm_stop := True, dm_main := C_Stopped\<rparr>"
  let ?d = "?c\<lparr>dm_main := C_Joining\<rparr>"
  let ?e = "?d\<lparr>dm_pc := D_Asleep\<rparr>"
  have "daemon_reachable daemon_init" by (simp add: daemon_reachable_def)
  moreover have "daemon_step daemon_init ?a" by (rule daemon_step.lock) (simp add: daemon_init_def)
  moreover have "daemon_step ?a ?b" by (rule daemon_step.test) (simp_all add: daemon_test_def daemon_init_def repl_take_def repl_ring_init_def)
  moreover have "daemon_step ?b ?c" by (rule daemon_step.stop) (simp add: daemon_init_def)
  moreover have "daemon_step ?c ?d" using daemon_step.broadcast [of ?c] by (simp add: wake_def daemon_init_def)
  moreover have "daemon_step ?d ?e" by (rule daemon_step.wait) simp
  ultimately have "daemon_reachable ?e" using daemon_run by meson
  moreover have "daemon_step ?e t \<longleftrightarrow> t = ?e\<lparr>dm_pc := D_Woken\<rparr>" for t
    using daemon_step.spurious [of ?e] by (auto elim!: daemon_stepE)
  ultimately show ?thesis by (intro exI [of _ ?e]) simp
qed

end
