(* ===== verification/Lock_Order.thy ===== *)
theory Lock_Order
  imports Runs
begin

text \<open>
  The mutexes and reader-writer locks of the server and of the cluster, and the order in which the code takes them. For
  every function that locks, a definition lists its calls of \<open>pthread_rwlock_rdlock\<close>, \<open>pthread_rwlock_wrlock\<close>,
  \<open>pthread_mutex_lock\<close> and their \<open>unlock\<close>, with the branches it may take as arguments. The threads
  interleave; the property is that they never wait for each other's locks for ever.

  A thread that sleeps at a condition variable or waits in \<open>pthread_join\<close> holds no lock in this code and counts as
  idle here; whether it is woken is the subject of \<open>Pool_Threads\<close> and \<open>Daemon_Threads\<close>.

  The lock \<open>L_Client i\<close> is the variable \<open>wlock\<close> of \<open>handle_client_unlocked\<close> on the stack of thread \<open>i\<close>. A
  command runs with its client's lock held and may publish to other clients, whose locks it then
  takes; this is without danger only because a client in the subscribed mode runs no commands.
  \<open>pubsub_publish\<close> collects pointers to the mutexes of the subscribers under the lock of the manager and locks them
  after it has released it. When a subscriber's handler has returned meanwhile, it locks a mutex that no
  longer exists; the flag \<open>ls_dangling\<close> records that this can happen.
\<close>

datatype lock = L_Client nat | L_Pool | L_Db | L_Version | L_Pubsub | L_Repl | L_Peers | L_Peer nat

text \<open>\<open>Rd\<close> is shared, \<open>Wr\<close> exclusive (also for a mutex). \<open>Send_All\<close> stands for the end of \<open>pubsub_publish\<close>: it unlocks the
  manager and then locks the clients it has collected one after the other.\<close>

datatype lock_op = Rd lock | Wr lock | Rel lock | Send_All

subsection \<open>The store\<close>

definition version_locks :: "lock_op list" where
  "version_locks = [Wr L_Version, Rel L_Version]"

definition read_locks :: "lock_op list" where
  "read_locks = [Rd L_Db, Rel L_Db]"

definition write_locks :: "lock_op list" where
  "write_locks = [Wr L_Db, Rel L_Db]"

definition set_object_locks :: "bool \<Rightarrow> bool \<Rightarrow> lock_op list" where
  "set_object_locks grown meta =
     (if \<not> grown then [Wr L_Db, Rel L_Db] else [Wr L_Db] @ (if meta then version_locks else []) @ [Rel L_Db])"

definition del_meta_locks :: "bool \<Rightarrow> lock_op list" where
  "del_meta_locks older = (if older then [Wr L_Db, Rel L_Db] else [Wr L_Db] @ version_locks @ [Rel L_Db])"

definition set_locks :: "bool \<Rightarrow> lock_op list" where
  "set_locks grown = version_locks @ set_object_locks grown True"

definition incrby_locks :: "bool \<Rightarrow> bool \<Rightarrow> lock_op list" where
  "incrby_locks found grown =
     [Wr L_Db] @ (if found then [] else [Rel L_Db] @ version_locks @ set_object_locks grown False @ [Wr L_Db]) @ [Rel L_Db]"

definition append_locks :: "bool \<Rightarrow> bool \<Rightarrow> lock_op list" where
  "append_locks found grown =
     read_locks @ (if found then [Wr L_Db, Rel L_Db]
       else if grown then set_object_locks True False @ read_locks @ [Wr L_Db, Rel L_Db] else set_object_locks False False)"

definition ensure_locks :: "bool \<Rightarrow> bool \<Rightarrow> lock_op list" where
  "ensure_locks found grown =
     read_locks @ (if found then [] else set_object_locks grown False @ (if grown then read_locks else []))"

subsection \<open>Publish and subscribe, the pool, the cluster\<close>

definition subscribe_locks :: "nat \<Rightarrow> nat \<Rightarrow> lock_op list" where
  "subscribe_locks i n =
     concat (replicate n [Wr L_Pubsub, Rel L_Pubsub, Rd L_Pubsub, Rel L_Pubsub, Wr (L_Client i), Rel (L_Client i)])"

definition unsubscribe_locks :: "nat \<Rightarrow> nat \<Rightarrow> lock_op list" where
  "unsubscribe_locks i n =
     (if n = 0 then [Wr L_Pubsub, Rel L_Pubsub, Wr (L_Client i), Rel (L_Client i)] else subscribe_locks i n)"

definition quit_locks :: "nat \<Rightarrow> lock_op list" where
  "quit_locks i = [Wr (L_Client i), Rel (L_Client i)]"

definition publish_locks :: "lock_op list" where
  "publish_locks = [Rd L_Pubsub, Send_All]"

definition pool_locks :: "lock_op list" where
  "pool_locks = [Wr L_Pool, Rel L_Pool]"

definition enqueue_locks :: "lock_op list" where
  "enqueue_locks = [Wr L_Repl, Rel L_Repl]"

definition peer_locks :: "nat \<Rightarrow> lock_op list" where
  "peer_locks p = [Wr (L_Peer p), Rel (L_Peer p)]"

text \<open>\<open>failed\<close>: the write failed, the descriptor is closed; \<open>connected\<close>: a new connection was made.\<close>

definition cluster_send_locks :: "nat \<times> bool \<Rightarrow> lock_op list" where
  "cluster_send_locks = (\<lambda>(p, failed). peer_locks p @ (if failed then peer_locks p else []))"

definition connect_peer_locks :: "nat \<times> bool \<Rightarrow> lock_op list" where
  "connect_peer_locks = (\<lambda>(p, connected). peer_locks p @ (if connected then peer_locks p else []))"

definition reap_locks :: "nat \<times> bool \<Rightarrow> lock_op list" where
  "reap_locks = (\<lambda>(p, dead). peer_locks p @ (if dead then peer_locks p else []))"

definition repl_turn_locks :: "(nat \<times> bool) list \<Rightarrow> lock_op list" where
  "repl_turn_locks ps = [Wr L_Repl, Rel L_Repl, Rd L_Peers] @ concat (map cluster_send_locks ps) @ [Rel L_Peers]"

definition hb_turn_locks :: "(nat \<times> bool \<times> bool \<times> bool) list \<Rightarrow> lock_op list" where
  "hb_turn_locks ps = version_locks @
     [Rd L_Peers] @ concat (map (\<lambda>(p, c, f, d). connect_peer_locks (p, c) @ cluster_send_locks (p, f)) ps) @ [Rel L_Peers] @
     [Wr L_Peers] @ concat (map (\<lambda>(p, c, f, d). reap_locks (p, d)) ps) @ [Rel L_Peers]"

text \<open>A heartbeat message, a \<open>JOIN\<close> and the end of a bus connection look at some of the peers.\<close>

definition peers_locks :: "nat list \<Rightarrow> lock_op list" where
  "peers_locks ps = [Wr L_Peers] @ concat (map peer_locks ps) @ [Rel L_Peers]"

definition init_connect_locks :: "(nat \<times> bool) list \<Rightarrow> lock_op list" where
  "init_connect_locks ps = [Rd L_Peers] @ concat (map connect_peer_locks ps) @ [Rel L_Peers]"

subsection \<open>What a thread does\<close>

text \<open>The calls a command makes.\<close>

inductive call :: "lock_op list \<Rightarrow> bool" where
  "call version_locks" | "call read_locks" | "call write_locks" | "call (set_object_locks grown meta)" | "call (del_meta_locks older)"
| "call (set_locks grown)" | "call (incrby_locks found grown)" | "call (append_locks found grown)" | "call (ensure_locks found grown)"
| "call enqueue_locks" | "call publish_locks"

text \<open>One activity of thread \<open>i\<close>, from one point without a lock to the next; \<open>sub\<close> is the flag \<open>subscribed\<close> of the
  client it serves.\<close>

inductive activity :: "nat \<Rightarrow> bool \<Rightarrow> lock_op list \<Rightarrow> bool" where
  command: "list_all call cs \<Longrightarrow> activity i False ([Wr (L_Client i)] @ concat cs @ [Rel (L_Client i)])"
| quit: "activity i False (quit_locks i)"
| unsubscribe: "activity i sub (unsubscribe_locks i n)"
| resubscribe: "activity i True (subscribe_locks i n)"
| leave: "activity i sub [Wr L_Pubsub, Rel L_Pubsub]"
| pool: "activity i sub pool_locks"
| store: "call c \<Longrightarrow> c \<noteq> publish_locks \<Longrightarrow> activity i sub c"
| repl: "activity i sub (repl_turn_locks ps)"
| beat: "activity i sub (hb_turn_locks qs)"
| peers: "activity i sub (peers_locks ns)"
| init: "activity i sub (init_connect_locks ps)"
| closing: "activity i sub (concat (map peer_locks ns))"

subsection \<open>Threads and locks\<close>

text \<open>What a thread holds, with \<open>True\<close> for exclusively, and what it still has to do.\<close>

record lthread =
  lt_held :: "(lock \<times> bool) list"
  lt_todo :: "lock_op list"

record lstate =
  ls_threads :: "lthread list"
  ls_subs :: "nat set"
  ls_dangling :: bool

abbreviation held_by :: "lstate \<Rightarrow> nat \<Rightarrow> (lock \<times> bool) list" where
  "held_by s i \<equiv> lt_held (ls_threads s ! i)"

abbreviation todo_of :: "lstate \<Rightarrow> nat \<Rightarrow> lock_op list" where
  "todo_of s i \<equiv> lt_todo (ls_threads s ! i)"

definition others :: "lstate \<Rightarrow> nat \<Rightarrow> nat set" where
  "others s i = {j. j < length (ls_threads s) \<and> j \<noteq> i}"

text \<open>A mutex or a write lock needs that nobody holds the lock. A read lock needs that nobody holds it
  exclusively and, where waiting writers are preferred (\<open>pref\<close>), that no other thread waits to write.\<close>

fun granted :: "bool \<Rightarrow> lstate \<Rightarrow> nat \<Rightarrow> lock_op \<Rightarrow> bool" where
  "granted pref s i (Wr l) \<longleftrightarrow> (\<forall>j < length (ls_threads s). l \<notin> fst ` set (held_by s j))"
| "granted pref s i (Rd l) \<longleftrightarrow> (\<forall>j < length (ls_threads s). (l, True) \<notin> set (held_by s j)) \<and>
     (pref \<longrightarrow> (\<forall>j \<in> others s i. take 1 (todo_of s j) \<noteq> [Wr l]))"
| "granted pref s i _ \<longleftrightarrow> True"

fun perform :: "lock_op \<Rightarrow> (lock \<times> bool) list \<Rightarrow> (lock \<times> bool) list" where
  "perform (Rd l) held = (l, False) # held"
| "perform (Wr l) held = (l, True) # held"
| "perform (Rel l) held = filter (\<lambda>h. fst h \<noteq> l) held"
| "perform Send_All held = filter (\<lambda>h. fst h \<noteq> L_Pubsub) held"

text \<open>The clients a publication is sent to are some of those in the subscribed mode.\<close>

definition targets_locks :: "nat list \<Rightarrow> lock_op list" where
  "targets_locks fs = concat (map (\<lambda>f. [Wr (L_Client f), Rel (L_Client f)]) fs)"

definition clients :: "lock_op list \<Rightarrow> nat set" where
  "clients ops = {f. Rd (L_Client f) \<in> set ops \<or> Wr (L_Client f) \<in> set ops \<or> Rel (L_Client f) \<in> set ops}"

definition mentions :: "lthread \<Rightarrow> nat set" where
  "mentions t = {f. L_Client f \<in> fst ` set (lt_held t)} \<union> clients (lt_todo t)"

inductive lock_step :: "bool \<Rightarrow> nat \<Rightarrow> lstate \<Rightarrow> lstate \<Rightarrow> bool" for pref where
  act: "i < length (ls_threads s) \<Longrightarrow> todo_of s i = op # ops \<Longrightarrow> op \<noteq> Send_All \<Longrightarrow> granted pref s i op \<Longrightarrow>
    lock_step pref i s (s\<lparr>ls_threads := (ls_threads s)[i := \<lparr>lt_held = perform op (held_by s i), lt_todo = ops\<rparr>]\<rparr>)"
| send: "i < length (ls_threads s) \<Longrightarrow> todo_of s i = Send_All # ops \<Longrightarrow> set fs \<subseteq> ls_subs s \<Longrightarrow>
    lock_step pref i s (s\<lparr>ls_threads := (ls_threads s)[i := \<lparr>lt_held = perform Send_All (held_by s i), lt_todo = targets_locks fs @ ops\<rparr>]\<rparr>)"
| start: "i < length (ls_threads s) \<Longrightarrow> todo_of s i = [] \<Longrightarrow> activity i (i \<in> ls_subs s) ops \<Longrightarrow>
    lock_step pref i s (s\<lparr>ls_threads := (ls_threads s)[i := (ls_threads s ! i)\<lparr>lt_todo := ops\<rparr>]\<rparr>)"
| subscribe: "i < length (ls_threads s) \<Longrightarrow> todo_of s i = [] \<Longrightarrow> 0 < n \<Longrightarrow>
    lock_step pref i s (s\<lparr>ls_threads := (ls_threads s)[i := (ls_threads s ! i)\<lparr>lt_todo := subscribe_locks i n\<rparr>], ls_subs := insert i (ls_subs s)\<rparr>)"
| ended: "i < length (ls_threads s) \<Longrightarrow> todo_of s i = [] \<Longrightarrow>
    lock_step pref i s (s\<lparr>ls_subs := ls_subs s - {i}, ls_dangling := (ls_dangling s \<or> (\<exists>j \<in> others s i. i \<in> mentions (ls_threads s ! j)))\<rparr>)"

definition lock_init :: "nat \<Rightarrow> lstate" where
  "lock_init n = \<lparr>ls_threads = replicate n \<lparr>lt_held = [], lt_todo = []\<rparr>, ls_subs = {}, ls_dangling = False\<rparr>"

definition any_step :: "bool \<Rightarrow> lstate \<Rightarrow> lstate \<Rightarrow> bool" where
  "any_step pref s s' \<longleftrightarrow> (\<exists>i. lock_step pref i s s')"

definition lock_reachable :: "bool \<Rightarrow> nat \<Rightarrow> lstate \<Rightarrow> bool" where
  "lock_reachable pref n s \<longleftrightarrow> (any_step pref)\<^sup>*\<^sup>* (lock_init n) s"

subsection \<open>The order\<close>

fun rank :: "nat set \<Rightarrow> lock \<Rightarrow> nat" where
  "rank subs (L_Client i) = (if i \<in> subs then 8 else 0)"
| "rank subs L_Pool = 1"
| "rank subs L_Db = 2"
| "rank subs L_Version = 3"
| "rank subs L_Pubsub = 4"
| "rank subs L_Repl = 5"
| "rank subs L_Peers = 6"
| "rank subs (L_Peer p) = 7"

lemma rank_bound: "rank subs l < 9"
  by (cases l) auto

text \<open>From what it holds on, a thread takes locks upwards, releases only what it holds, and in the end
  everything; when it sends to clients it holds no lock of the highest rank.\<close>

fun upwards :: "(lock \<Rightarrow> nat) \<Rightarrow> lock set \<Rightarrow> lock_op list \<Rightarrow> bool" where
  "upwards rk H [] \<longleftrightarrow> H = {}"
| "upwards rk H (Rd l # ops) \<longleftrightarrow> (\<forall>h \<in> H. rk h < rk l) \<and> upwards rk (insert l H) ops"
| "upwards rk H (Wr l # ops) \<longleftrightarrow> (\<forall>h \<in> H. rk h < rk l) \<and> upwards rk (insert l H) ops"
| "upwards rk H (Rel l # ops) \<longleftrightarrow> l \<in> H \<and> upwards rk (H - {l}) ops"
| "upwards rk H (Send_All # ops) \<longleftrightarrow> L_Pubsub \<in> H \<and> (\<forall>h \<in> H. rk h < 8) \<and> upwards rk (H - {L_Pubsub}) ops"

text \<open>A list of operations that leaves what is held below it as it was.\<close>

definition balanced :: "(lock \<Rightarrow> nat) \<Rightarrow> lock set \<Rightarrow> lock_op list \<Rightarrow> bool" where
  "balanced rk H ops \<longleftrightarrow> (\<forall>rest. upwards rk H rest \<longrightarrow> upwards rk H (ops @ rest))"

lemma balanced_Nil [simp, intro]: "balanced rk H []"
  by (simp add: balanced_def)

lemma balanced_append [intro]: "balanced rk H a \<Longrightarrow> balanced rk H b \<Longrightarrow> balanced rk H (a @ b)"
  by (simp add: balanced_def)

lemma balanced_concat [intro]: "(\<And>x. x \<in> set xs \<Longrightarrow> balanced rk H x) \<Longrightarrow> balanced rk H (concat xs)"
  by (induction xs) auto

lemma balanced_lock:
  assumes "\<forall>h \<in> H. rk h < rk l" "balanced rk (insert l H) ops"
  shows "balanced rk H (Wr l # ops @ [Rel l])" "balanced rk H (Rd l # ops @ [Rel l])"
proof -
  have "l \<notin> H" using assms(1) by auto
  then have "insert l H - {l} = H" by simp
  with assms show "balanced rk H (Wr l # ops @ [Rel l])" "balanced rk H (Rd l # ops @ [Rel l])" by (auto simp: balanced_def)
qed

lemmas balanced_one = balanced_lock [where ops = "[]", simplified]

lemma balanced_upwards: "balanced rk {} ops \<Longrightarrow> upwards rk {} ops"
  using balanced_def [of rk "{}" ops] by (metis append_Nil2 upwards.simps(1))

lemma balanced_publish:
  assumes "\<forall>h \<in> H. rk h < rk L_Pubsub" "rk L_Pubsub < 8"
  shows "balanced rk H [Rd L_Pubsub, Send_All]"
proof -
  have "L_Pubsub \<notin> H" using assms(1) by auto
  then have "insert L_Pubsub H - {L_Pubsub} = H" by simp
  with assms show ?thesis by (force simp: balanced_def)
qed

lemma balanced_targets:
  assumes "\<forall>h \<in> H. rank subs h < 8" "set fs \<subseteq> subs"
  shows "balanced (rank subs) H (targets_locks fs)"
  unfolding targets_locks_def using assms by (intro balanced_concat) (auto intro!: balanced_one(1))

lemma balanced_pair: "(\<forall>h \<in> H. rk h < rk l) \<Longrightarrow> balanced rk H rest \<Longrightarrow> balanced rk H (Wr l # Rel l # rest)"
  "(\<forall>h \<in> H. rk h < rk l) \<Longrightarrow> balanced rk H rest \<Longrightarrow> balanced rk H (Rd l # Rel l # rest)"
  using balanced_append [OF balanced_one(1)] balanced_append [OF balanced_one(2)] by simp_all

text \<open>The calls of a command, with at most the lock of its own client held.\<close>

lemma versioned_balanced: "\<forall>h \<in> H. rank subs h = 0 \<Longrightarrow> balanced (rank subs) H (Wr L_Db # version_locks @ [Rel L_Db])"
  by (intro balanced_lock(1)) (auto simp: version_locks_def intro!: balanced_one)

lemma set_object_balanced: "\<forall>h \<in> H. rank subs h = 0 \<Longrightarrow> balanced (rank subs) H (set_object_locks grown meta)"
  using versioned_balanced [of H subs] by (auto simp: set_object_locks_def intro!: balanced_one)

lemma call_balanced:
  assumes "call c" "\<forall>h \<in> H. rank subs h = 0"
  shows "balanced (rank subs) H c"
  using assms(1)
proof cases
  case (5 older)
  then show ?thesis using assms(2) versioned_balanced [of H subs] by (auto simp: del_meta_locks_def intro!: balanced_one)
next
  case (7 found grown)
  have "balanced (rank subs) H ([Wr L_Db, Rel L_Db] @ version_locks @ set_object_locks grown False @ [Wr L_Db, Rel L_Db])"
    using assms(2) by (intro balanced_append set_object_balanced) (auto simp: version_locks_def intro!: balanced_one)
  with 7 assms(2) show ?thesis by (auto simp: incrby_locks_def intro!: balanced_one)
qed (use assms(2) in \<open>auto simp: version_locks_def read_locks_def write_locks_def set_locks_def append_locks_def ensure_locks_def enqueue_locks_def publish_locks_def
      intro!: balanced_pair balanced_one balanced_append set_object_balanced balanced_publish\<close>)

text \<open>The activities of a thread.\<close>

lemma peer_balanced: "\<forall>h \<in> H. rank subs h < 7 \<Longrightarrow> balanced (rank subs) H (peer_locks p)"
  by (auto simp: peer_locks_def intro!: balanced_one)

lemma peer_call_balanced:
  "balanced (rank subs) {L_Peers} (cluster_send_locks x)" "balanced (rank subs) {L_Peers} (connect_peer_locks x)" "balanced (rank subs) {L_Peers} (reap_locks x)"
  by (auto simp: cluster_send_locks_def connect_peer_locks_def reap_locks_def split: prod.split intro!: peer_balanced balanced_append)

lemma peers_balanced:
  assumes "\<And>x. x \<in> set xs \<Longrightarrow> balanced (rank subs) {L_Peers} (f x)"
  shows "balanced (rank subs) {} (Wr L_Peers # concat (map f xs) @ [Rel L_Peers])" "balanced (rank subs) {} (Rd L_Peers # concat (map f xs) @ [Rel L_Peers])"
  using assms by (auto intro!: balanced_lock balanced_concat)

lemma subscribe_balanced: "balanced (rank subs) {} (subscribe_locks i n)"
  unfolding subscribe_locks_def by (intro balanced_concat) (auto intro!: balanced_pair)

lemma activity_upwards:
  assumes "activity i sub ops" "sub \<longleftrightarrow> i \<in> subs"
  shows "upwards (rank subs) {} ops"
proof (rule balanced_upwards)
  show "balanced (rank subs) {} ops"
    using assms(1)
  proof cases
    case (command cs)
    have "balanced (rank subs) {L_Client i} (concat cs)"
      using command assms(2) by (intro balanced_concat) (auto simp: list_all_iff intro!: call_balanced)
    with command assms(2) show ?thesis by (auto intro!: balanced_lock)
  next
    case (unsubscribe n)
    then show ?thesis using subscribe_balanced by (auto simp: unsubscribe_locks_def intro!: balanced_pair)
  next
    case (repl ps)
    have "balanced (rank subs) {} (Rd L_Peers # concat (map cluster_send_locks ps) @ [Rel L_Peers])"
      by (rule peers_balanced(2)) (rule peer_call_balanced)
    with repl show ?thesis by (auto simp: repl_turn_locks_def intro!: balanced_pair)
  next
    case (beat qs)
    have "balanced (rank subs) {} (Rd L_Peers # concat (map (\<lambda>(p, c, f, d). connect_peer_locks (p, c) @ cluster_send_locks (p, f)) qs) @ [Rel L_Peers])"
      "balanced (rank subs) {} (Wr L_Peers # concat (map (\<lambda>(p, c, f, d). reap_locks (p, d)) qs) @ [Rel L_Peers])"
      by (rule peers_balanced; auto intro!: peer_call_balanced balanced_append)+
    from balanced_append [OF this] beat show ?thesis by (auto simp: hb_turn_locks_def version_locks_def intro!: balanced_pair)
  next
    case (peers ns)
    have "balanced (rank subs) {} (Wr L_Peers # concat (map peer_locks ns) @ [Rel L_Peers])"
      by (rule peers_balanced(1)) (simp add: peer_balanced)
    with peers show ?thesis by (simp add: peers_locks_def)
  next
    case (closing ns)
    then show ?thesis by (auto intro!: balanced_concat peer_balanced)
  next
    case (init ps)
    have "balanced (rank subs) {} (Rd L_Peers # concat (map connect_peer_locks ps) @ [Rel L_Peers])"
      by (rule peers_balanced(2)) (rule peer_call_balanced)
    with init show ?thesis by (simp add: init_connect_locks_def)
  next
    case store
    then show ?thesis by (intro call_balanced) auto
  qed (use subscribe_balanced in \<open>auto simp: quit_locks_def pool_locks_def intro!: balanced_one\<close>)
qed

text \<open>Only a publication names the locks of other clients.\<close>

lemma clients_simps [simp]:
  "clients [] = {}" "clients (xs @ ys) = clients xs \<union> clients ys" "clients (Send_All # ops) = clients ops"
  "clients (Wr l # ops) = {f. l = L_Client f} \<union> clients ops" "clients (Rd l # ops) = {f. l = L_Client f} \<union> clients ops"
  "clients (Rel l # ops) = {f. l = L_Client f} \<union> clients ops"
  by (auto simp: clients_def)

lemma clients_concat: "(\<And>x. x \<in> set xs \<Longrightarrow> clients x \<subseteq> S) \<Longrightarrow> clients (concat xs) \<subseteq> S"
  by (induction xs) auto

lemma clients_map: "(\<And>x. clients (f x) = {}) \<Longrightarrow> clients (concat (map f xs)) = {}"
  using clients_concat [of "map f xs" "{}"] by auto

lemma clients_targets: "clients (targets_locks fs) \<subseteq> set fs"
  unfolding targets_locks_def by (rule clients_concat) auto

lemma clients_call: "call c \<Longrightarrow> clients c = {}"
  by (erule call.cases) (auto simp: version_locks_def read_locks_def write_locks_def set_object_locks_def del_meta_locks_def set_locks_def
      incrby_locks_def append_locks_def ensure_locks_def enqueue_locks_def publish_locks_def)

lemma clients_peer_call [simp]:
  "clients (peer_locks p) = {}" "clients (cluster_send_locks x) = {}" "clients (connect_peer_locks x) = {}" "clients (reap_locks x) = {}"
  by (auto simp: peer_locks_def cluster_send_locks_def connect_peer_locks_def reap_locks_def split: prod.split)

lemma clients_subscribe: "clients (subscribe_locks i n) \<subseteq> {i}"
  unfolding subscribe_locks_def by (rule clients_concat) auto

lemma clients_activity:
  assumes "activity i sub ops"
  shows "clients ops \<subseteq> {i}"
  using assms
proof cases
  case (command cs)
  then show ?thesis using clients_concat [of cs "{i}"] clients_call by (auto simp: list_all_iff)
next
  case (unsubscribe n)
  then show ?thesis using clients_subscribe [of i n] by (auto simp: unsubscribe_locks_def)
next
  case (repl ps)
  then show ?thesis by (simp add: repl_turn_locks_def clients_map)
next
  case (beat qs)
  then show ?thesis by (simp add: hb_turn_locks_def version_locks_def clients_map split: prod.split)
next
  case (peers ns)
  then show ?thesis by (simp add: peers_locks_def clients_map)
next
  case (closing ns)
  then show ?thesis by (simp add: clients_map)
next
  case (init ps)
  then show ?thesis by (simp add: init_connect_locks_def clients_map)
qed (use clients_subscribe [of i] clients_call in \<open>auto simp: quit_locks_def pool_locks_def\<close>)

text \<open>The order depends on the subscriptions of the named clients only.\<close>

lemma upwards_cong:
  assumes "\<forall>f. L_Client f \<in> H \<or> f \<in> clients ops \<longrightarrow> (f \<in> S \<longleftrightarrow> f \<in> T)"
  shows "upwards (rank S) H ops = upwards (rank T) H ops"
  using assms
proof (induction "rank S" H ops rule: upwards.induct)
  have same: "rank S l = rank T l" if "\<forall>f. l = L_Client f \<longrightarrow> (f \<in> S \<longleftrightarrow> f \<in> T)" for l using that by (cases l) auto
  {
    case (2 H l ops)
    then have "\<forall>h \<in> insert l H. rank S h = rank T h" by (auto intro!: same)
    with 2 show ?case by simp
  next
    case (3 H l ops)
    then have "\<forall>h \<in> insert l H. rank S h = rank T h" by (auto intro!: same)
    with 3 show ?case by simp
  next
    case (5 H ops)
    then have "\<forall>h \<in> H. rank S h = rank T h" by (auto intro!: same)
    with 5 show ?case by simp
  }
qed auto

definition lock_inv :: "lstate \<Rightarrow> bool" where
  "lock_inv s \<longleftrightarrow> (\<forall>i < length (ls_threads s).
     upwards (rank (ls_subs s)) (fst ` set (held_by s i)) (todo_of s i) \<and> mentions (ls_threads s ! i) \<subseteq> insert i (ls_subs s))"

lemma lock_invD:
  assumes "lock_inv s" "i < length (ls_threads s)"
  shows "upwards (rank (ls_subs s)) (fst ` set (held_by s i)) (todo_of s i)" "mentions (ls_threads s ! i) \<subseteq> insert i (ls_subs s)"
  using assms by (simp_all add: lock_inv_def)

lemma fst_perform: "fst ` set (perform op held) = (case op of Rd l \<Rightarrow> insert l (fst ` set held) | Wr l \<Rightarrow> insert l (fst ` set held)
    | Rel l \<Rightarrow> fst ` set held - {l} | Send_All \<Rightarrow> fst ` set held - {L_Pubsub})"
  by (cases op) force+

lemma lock_inv_thread:
  assumes "lock_inv s" "i < length (ls_threads s)" "upwards (rank (ls_subs s)) (fst ` set (lt_held t)) (lt_todo t)" "mentions t \<subseteq> insert i (ls_subs s)"
  shows "lock_inv (s\<lparr>ls_threads := (ls_threads s)[i := t]\<rparr>)"
  using assms by (auto simp: lock_inv_def nth_list_update)

lemma lock_inv_subs:
  assumes "lock_inv s" "i < length (ls_threads s)" "\<forall>f. f \<noteq> i \<longrightarrow> (f \<in> T \<longleftrightarrow> f \<in> ls_subs s)"
    and "upwards (rank T) (fst ` set (lt_held t)) (lt_todo t)" "mentions t \<subseteq> insert i T"
    and "\<forall>j \<in> others s i. i \<notin> T \<or> i \<notin> ls_subs s \<longrightarrow> i \<notin> mentions (ls_threads s ! j)"
  shows "lock_inv (s\<lparr>ls_threads := (ls_threads s)[i := t], ls_subs := T\<rparr>)"
proof -
  have "upwards (rank T) (fst ` set (held_by s j)) (todo_of s j) \<and> mentions (ls_threads s ! j) \<subseteq> insert j T"
    if j: "j < length (ls_threads s)" "j \<noteq> i" for j
  proof -
    have o: "j \<in> others s i" using j by (simp add: others_def)
    note inv = lock_invD [OF assms(1) j(1)]
    have "\<forall>f \<in> mentions (ls_threads s ! j). f \<in> ls_subs s \<longleftrightarrow> f \<in> T" using assms(3,6) o by metis
    with inv show ?thesis using upwards_cong [of "fst ` set (held_by s j)" "todo_of s j" "ls_subs s" T] by (auto simp: mentions_def)
  qed
  with assms(2,4,5) show ?thesis by (auto simp: lock_inv_def nth_list_update)
qed

lemma lock_act_inv:
  assumes inv: "lock_inv s" and i: "i < length (ls_threads s)" "todo_of s i = op # ops" "op \<noteq> Send_All"
  shows "lock_inv (s\<lparr>ls_threads := (ls_threads s)[i := \<lparr>lt_held = perform op (held_by s i), lt_todo = ops\<rparr>]\<rparr>)"
proof (rule lock_inv_thread [OF inv i(1)])
  have t: "upwards (rank (ls_subs s)) (fst ` set (held_by s i)) (op # ops)" "mentions (ls_threads s ! i) \<subseteq> insert i (ls_subs s)"
    using lock_invD [OF inv i(1)] i(2) by simp_all
  show "upwards (rank (ls_subs s)) (fst ` set (lt_held \<lparr>lt_held = perform op (held_by s i), lt_todo = ops\<rparr>)) (lt_todo \<lparr>lt_held = perform op (held_by s i), lt_todo = ops\<rparr>)"
    using t(1) i(3) by (cases op) (simp_all add: fst_perform del: perform.simps)
  show "mentions \<lparr>lt_held = perform op (held_by s i), lt_todo = ops\<rparr> \<subseteq> insert i (ls_subs s)"
    using t(2) i(2) by (cases op) (auto simp: mentions_def fst_perform simp del: perform.simps)
qed

lemma idle_holds_nothing: "lock_inv s \<Longrightarrow> i < length (ls_threads s) \<Longrightarrow> todo_of s i = [] \<Longrightarrow> held_by s i = []"
  using lock_invD(1) [of s i] by simp

lemma lock_step_inv:
  assumes inv: "lock_inv s" and step: "lock_step pref i s s'" and safe: "\<not> ls_dangling s'"
  shows "lock_inv s'"
  using step
proof cases
  case (act op ops)
  then show ?thesis using lock_act_inv [OF inv] by simp
next
  case (send ops fs)
  have t: "upwards (rank (ls_subs s)) (fst ` set (held_by s i)) (Send_All # ops)" "mentions (ls_threads s ! i) \<subseteq> insert i (ls_subs s)"
    using lock_invD [OF inv send(2)] send(3) by simp_all
  then have "upwards (rank (ls_subs s)) (fst ` set (held_by s i) - {L_Pubsub}) (targets_locks fs @ ops)"
    using balanced_targets [OF _ send(4), of "fst ` set (held_by s i) - {L_Pubsub}"] by (auto simp: balanced_def)
  then have "upwards (rank (ls_subs s)) (fst ` set (perform Send_All (held_by s i))) (targets_locks fs @ ops)"
    unfolding fst_perform by simp
  moreover have "mentions \<lparr>lt_held = perform Send_All (held_by s i), lt_todo = targets_locks fs @ ops\<rparr> \<subseteq> insert i (ls_subs s)"
    using t(2) send(3,4) clients_targets [of fs] by (auto simp: mentions_def)
  ultimately show ?thesis using send lock_inv_thread [OF inv send(2)] by simp
next
  case (start ops)
  note h = idle_holds_nothing [OF inv start(2,3)]
  have "upwards (rank (ls_subs s)) {} ops" "clients ops \<subseteq> {i}" using activity_upwards [OF start(4)] clients_activity [OF start(4)] by auto
  with h show ?thesis using start lock_inv_thread [OF inv start(2), of "(ls_threads s ! i)\<lparr>lt_todo := ops\<rparr>"] by (auto simp: mentions_def)
next
  case (subscribe n)
  note h = idle_holds_nothing [OF inv subscribe(2,3)]
  have "i \<notin> mentions (ls_threads s ! j)" if "j \<in> others s i" "i \<notin> ls_subs s" for j
    using inv that by (auto simp: lock_inv_def others_def)
  with h subscribe(1) balanced_upwards [OF subscribe_balanced] clients_subscribe [of i n] show ?thesis
    using lock_inv_subs [OF inv subscribe(2), of "insert i (ls_subs s)" "(ls_threads s ! i)\<lparr>lt_todo := subscribe_locks i n\<rparr>"]
    by (auto simp: mentions_def)
next
  case ended
  note h = idle_holds_nothing [OF inv ended(2,3)]
  have "lock_inv (s\<lparr>ls_threads := (ls_threads s)[i := ls_threads s ! i], ls_subs := ls_subs s - {i}\<rparr>)"
    using h ended(1,3) safe lock_inv_subs [OF inv ended(2), of "ls_subs s - {i}" "ls_threads s ! i"] by (auto simp: mentions_def)
  then show ?thesis unfolding ended(1) by (simp add: lock_inv_def)
qed

lemma lock_threads: "lock_step pref i s s' \<Longrightarrow> length (ls_threads s') = length (ls_threads s)"
  by (erule lock_step.cases) auto

lemma dangling_stays: "lock_step pref i s s' \<Longrightarrow> ls_dangling s \<Longrightarrow> ls_dangling s'"
  by (erule lock_step.cases) auto

interpretation locks: invariant_runs "any_step pref" "\<lambda>s. (ls_dangling s \<or> lock_inv s) \<and> length (ls_threads s) = n" for pref n
  by unfold_locales (auto simp: any_step_def dest: lock_step_inv lock_threads dangling_stays)

lemma lock_reachable_inv: "lock_reachable pref n s \<Longrightarrow> (ls_dangling s \<or> lock_inv s) \<and> length (ls_threads s) = n"
  using locks.run_inv [of pref "lock_init n" s n] by (auto simp: lock_reachable_def lock_init_def lock_inv_def mentions_def)

lemma lock_reachable_step: "lock_reachable pref n s \<Longrightarrow> lock_step pref i s s' \<Longrightarrow> lock_reachable pref n s'"
  unfolding lock_reachable_def by (erule rtranclp.rtrancl_into_rtrancl) (auto simp: any_step_def)

subsection \<open>Progress\<close>

definition can_go :: "bool \<Rightarrow> lstate \<Rightarrow> nat \<Rightarrow> bool" where
  "can_go pref s j \<longleftrightarrow> j < length (ls_threads s) \<and> todo_of s j \<noteq> [] \<and> (\<exists>s'. lock_step pref j s s')"

definition waits :: "lstate \<Rightarrow> nat \<Rightarrow> lock \<Rightarrow> bool" where
  "waits s j l \<longleftrightarrow> j < length (ls_threads s) \<and> (\<exists>ops. todo_of s j = Rd l # ops \<or> todo_of s j = Wr l # ops)"

lemma not_granted:
  assumes "j < length (ls_threads s)" "todo_of s j = op # ops" "op \<noteq> Send_All" "\<not> can_go pref s j"
  shows "\<not> granted pref s j op"
  using lock_step.act [OF assms(1-3), of pref] assms by (auto simp: can_go_def)

text \<open>A thread that cannot go waits for a lock; where no thread can go, another one holds this lock.\<close>

lemma stuck_waits:
  assumes "j < length (ls_threads s)" "todo_of s j \<noteq> []" "\<not> can_go pref s j"
  shows "\<exists>l. waits s j l"
proof (cases "todo_of s j")
  case (Cons op ops)
  have "granted pref s j op \<Longrightarrow> op = Send_All" using not_granted [OF assms(1) Cons _ assms(3)] by blast
  moreover have "op \<noteq> Send_All" using lock_step.send [of j s ops "[]"] assms Cons by (auto simp: can_go_def)
  ultimately show ?thesis using Cons assms(1) by (cases op) (auto simp: waits_def)
qed (use assms in simp)

lemma write_held:
  assumes "j < length (ls_threads s)" "todo_of s j = Wr l # ops" "\<not> can_go pref s j"
  shows "\<exists>k < length (ls_threads s). l \<in> fst ` set (held_by s k)"
  using not_granted [OF assms(1,2) _ assms(3)] by auto

lemma stuck_held:
  assumes w: "waits s j l" and stuck: "\<And>k. \<not> can_go pref s k"
  shows "\<exists>k < length (ls_threads s). l \<in> fst ` set (held_by s k)"
proof -
  from w obtain ops where j: "j < length (ls_threads s)" "todo_of s j = Rd l # ops \<or> todo_of s j = Wr l # ops" by (auto simp: waits_def)
  show ?thesis
  proof (cases "todo_of s j = Wr l # ops")
    case True
    from write_held [OF j(1) this stuck] show ?thesis .
  next
    case False
    then have r: "todo_of s j = Rd l # ops" using j(2) by simp
    have "\<not> granted pref s j (Rd l)" using not_granted [OF j(1) r _ stuck] by blast
    then consider k where "k < length (ls_threads s)" "(l, True) \<in> set (held_by s k)" | k where "k \<in> others s j" "take 1 (todo_of s k) = [Wr l]"
      by auto
    then show ?thesis
    proof cases
      case 1
      then show ?thesis by force
    next
      case 2
      then obtain ops' where "k < length (ls_threads s)" "todo_of s k = Wr l # ops'" by (cases "todo_of s k") (auto simp: others_def)
      from write_held [OF this stuck] show ?thesis .
    qed
  qed
qed

text \<open>C7. Waiting for locks never deadlocks: the workers serving clients, the main thread, the expiry thread,
  the replication and heartbeat daemons and the handlers of bus connections, any number of them in any
  schedule, take the mutexes and reader-writer locks of the store, of publish/subscribe, of the pool, of the cluster
  and of the clients in such an order that whenever some thread has not finished what it began under locks, one
  of these can go on; whether or not read locks give way to waiting writers. This holds as
  long as no subscriber's handler has returned while a publisher was about to lock its mutex, which
  the code does not prevent. Calls of the network are taken to return; threads that sleep at a condition variable or
  join others hold no lock and are idle here.\<close>

theorem no_lock_deadlock:
  assumes "lock_reachable pref n s" "\<not> ls_dangling s" "i < n" "todo_of s i \<noteq> []"
  shows "\<exists>j s'. j < n \<and> todo_of s j \<noteq> [] \<and> lock_step pref j s s'"
proof (rule ccontr)
  assume no: "\<not> ?thesis"
  have inv: "lock_inv s" and n: "length (ls_threads s) = n" using lock_reachable_inv [OF assms(1)] assms(2) by auto
  have stuck: "\<not> can_go pref s k" for k using no n by (auto simp: can_go_def)
  obtain l where "waits s i l" using stuck_waits [OF _ assms(4) stuck] assms(3) n by blast
  then obtain j l where w: "waits s j l" and top: "\<And>j' l'. waits s j' l' \<Longrightarrow> rank (ls_subs s) l' \<le> rank (ls_subs s) l"
    using ex_has_greatest_nat [of "\<lambda>(j, l). waits s j l" "(i, l)" "\<lambda>(j, l). rank (ls_subs s) l" 9] rank_bound by auto
  obtain k where k: "k < length (ls_threads s)" "l \<in> fst ` set (held_by s k)" using stuck_held [OF w stuck] by blast
  have "todo_of s k \<noteq> []" using idle_holds_nothing [OF inv k(1)] k(2) by auto
  from stuck_waits [OF k(1) this stuck] obtain l' where l': "waits s k l'" by blast
  have "upwards (rank (ls_subs s)) (fst ` set (held_by s k)) (todo_of s k)" using lock_invD(1) [OF inv k(1)] .
  then have "\<forall>h \<in> fst ` set (held_by s k). rank (ls_subs s) h < rank (ls_subs s) l'" using l' by (force simp: waits_def)
  with k(2) have "rank (ls_subs s) l < rank (ls_subs s) l'" by blast
  with top [OF l'] show False by simp
qed

text \<open>Two threads that want to write to the store, of which the first has the lock.\<close>

lemma contended:
  "\<exists>s. lock_reachable pref 2 s \<and> \<not> ls_dangling s \<and> todo_of s 0 = [Rel L_Db] \<and> todo_of s 1 = write_locks \<and> held_by s 0 = [(L_Db, True)]"
proof -
  let ?t = "\<lparr>lt_held = [], lt_todo = write_locks\<rparr>"
  let ?a = "\<lparr>ls_threads = [?t, \<lparr>lt_held = [], lt_todo = []\<rparr>], ls_subs = {}, ls_dangling = False\<rparr>" and ?b = "\<lparr>ls_threads = [?t, ?t], ls_subs = {}, ls_dangling = False\<rparr>"
  let ?c = "\<lparr>ls_threads = [\<lparr>lt_held = [(L_Db, True)], lt_todo = [Rel L_Db]\<rparr>, ?t], ls_subs = {}, ls_dangling = False\<rparr>"
  have act: "activity i False write_locks" for i by (rule activity.store) (auto simp: write_locks_def publish_locks_def intro: call.intros(3) [unfolded write_locks_def])
  have "lock_reachable pref 2 (lock_init 2)" by (simp add: lock_reachable_def)
  moreover have "lock_step pref 0 (lock_init 2) ?a"
    using lock_step.start [of 0 "lock_init 2" write_locks pref] act by (simp add: lock_init_def numeral_2_eq_2)
  moreover have "lock_step pref 1 ?a ?b" using lock_step.start [of 1 ?a write_locks pref] act by simp
  moreover have "lock_step pref 0 ?b ?c"
    using lock_step.act [of 0 ?b "Wr L_Db" "[Rel L_Db]" pref] by (auto simp: write_locks_def less_Suc_eq)
  ultimately have "lock_reachable pref 2 ?c" using lock_reachable_step by blast
  then show ?thesis by (intro exI [of _ ?c]) simp
qed

theorem no_lock_deadlock_witness:
  "\<exists>s j s'. lock_reachable True 2 s \<and> todo_of s 1 = write_locks \<and> held_by s 0 = [(L_Db, True)] \<and> j < 2 \<and> lock_step True j s s'"
proof -
  obtain s where s: "lock_reachable True 2 s" "\<not> ls_dangling s" "todo_of s 1 = write_locks" "held_by s 0 = [(L_Db, True)]" using contended by blast
  from no_lock_deadlock [OF s(1,2), of 1] s show ?thesis by (auto simp: write_locks_def)
qed

subsection \<open>A mutex that no longer exists\<close>

text \<open>The handler of a subscriber can return while a publisher is about to lock its mutex, with two clients: the first
  subscribes, the second publishes to it, and the first leaves before its mutex is locked.\<close>

text \<open>A step of the first of two threads, and of the second, when the other one is idle.\<close>

lemma lone_step:
  assumes "lock_reachable pref 2 \<lparr>ls_threads = [\<lparr>lt_held = h, lt_todo = op # ops\<rparr>, \<lparr>lt_held = [], lt_todo = []\<rparr>], ls_subs = S, ls_dangling = d\<rparr>"
    and "op \<noteq> Send_All" "\<forall>l. op = Wr l \<or> op = Rd l \<longrightarrow> l \<notin> fst ` set h"
  shows "lock_reachable pref 2 \<lparr>ls_threads = [\<lparr>lt_held = perform op h, lt_todo = ops\<rparr>, \<lparr>lt_held = [], lt_todo = []\<rparr>], ls_subs = S, ls_dangling = d\<rparr>"
proof (rule lock_reachable_step [OF assms(1)])
  let ?s = "\<lparr>ls_threads = [\<lparr>lt_held = h, lt_todo = op # ops\<rparr>, \<lparr>lt_held = [], lt_todo = []\<rparr>], ls_subs = S, ls_dangling = d\<rparr>"
  have "granted pref ?s 0 op" using assms(3) by (cases op) (force simp: less_Suc_eq others_def)+
  with lock_step.act [of 0 ?s op ops pref] assms(2)
  show "lock_step pref 0 ?s \<lparr>ls_threads = [\<lparr>lt_held = perform op h, lt_todo = ops\<rparr>, \<lparr>lt_held = [], lt_todo = []\<rparr>], ls_subs = S, ls_dangling = d\<rparr>"
    by simp
qed

lemma other_step:
  assumes "lock_reachable pref 2 \<lparr>ls_threads = [\<lparr>lt_held = [], lt_todo = []\<rparr>, \<lparr>lt_held = h, lt_todo = op # ops\<rparr>], ls_subs = S, ls_dangling = d\<rparr>"
    and "op \<noteq> Send_All" "\<forall>l. op = Wr l \<or> op = Rd l \<longrightarrow> l \<notin> fst ` set h"
  shows "lock_reachable pref 2 \<lparr>ls_threads = [\<lparr>lt_held = [], lt_todo = []\<rparr>, \<lparr>lt_held = perform op h, lt_todo = ops\<rparr>], ls_subs = S, ls_dangling = d\<rparr>"
proof (rule lock_reachable_step [OF assms(1)])
  let ?s = "\<lparr>ls_threads = [\<lparr>lt_held = [], lt_todo = []\<rparr>, \<lparr>lt_held = h, lt_todo = op # ops\<rparr>], ls_subs = S, ls_dangling = d\<rparr>"
  have "granted pref ?s 1 op" using assms(3) by (cases op) (force simp: less_Suc_eq others_def)+
  with lock_step.act [of 1 ?s op ops pref] assms(2)
  show "lock_step pref 1 ?s \<lparr>ls_threads = [\<lparr>lt_held = [], lt_todo = []\<rparr>, \<lparr>lt_held = perform op h, lt_todo = ops\<rparr>], ls_subs = S, ls_dangling = d\<rparr>"
    by simp
qed

lemma one_subscribed:
  "lock_reachable pref 2 \<lparr>ls_threads = [\<lparr>lt_held = [], lt_todo = []\<rparr>, \<lparr>lt_held = [], lt_todo = []\<rparr>], ls_subs = {0}, ls_dangling = False\<rparr>"
proof -
  let ?s = "\<lambda>h ops. \<lparr>ls_threads = [\<lparr>lt_held = h, lt_todo = ops\<rparr>, \<lparr>lt_held = [], lt_todo = []\<rparr>], ls_subs = {0}, ls_dangling = False\<rparr>"
  note step = lone_step [of pref _ _ _ "{0}" False]
  have "lock_reachable pref 2 (lock_init 2)" by (simp add: lock_reachable_def)
  moreover have "lock_step pref 0 (lock_init 2) (?s [] (subscribe_locks 0 1))"
    using lock_step.subscribe [of 0 "lock_init 2" 1 pref] by (simp add: lock_init_def numeral_2_eq_2)
  ultimately have "lock_reachable pref 2 (?s [] (subscribe_locks 0 1))" by (rule lock_reachable_step)
  then have "lock_reachable pref 2 (?s [] [Wr L_Pubsub, Rel L_Pubsub, Rd L_Pubsub, Rel L_Pubsub, Wr (L_Client 0), Rel (L_Client 0)])"
    by (simp add: subscribe_locks_def)
  from step [OF this] have "lock_reachable pref 2 (?s [(L_Pubsub, True)] [Rel L_Pubsub, Rd L_Pubsub, Rel L_Pubsub, Wr (L_Client 0), Rel (L_Client 0)])" by simp
  from step [OF this] have "lock_reachable pref 2 (?s [] [Rd L_Pubsub, Rel L_Pubsub, Wr (L_Client 0), Rel (L_Client 0)])" by simp
  from step [OF this] have "lock_reachable pref 2 (?s [(L_Pubsub, False)] [Rel L_Pubsub, Wr (L_Client 0), Rel (L_Client 0)])" by simp
  from step [OF this] have "lock_reachable pref 2 (?s [] [Wr (L_Client 0), Rel (L_Client 0)])" by simp
  from step [OF this] have "lock_reachable pref 2 (?s [(L_Client 0, True)] [Rel (L_Client 0)])" by simp
  from step [OF this] show ?thesis by simp
qed

theorem mutex_dangles:
  "\<exists>s ops. lock_reachable pref 2 s \<and> ls_dangling s \<and> ls_subs s = {} \<and> todo_of s 0 = [] \<and> todo_of s 1 = Wr (L_Client 0) # ops"
proof -
  let ?z = "\<lparr>lt_held = [], lt_todo = []\<rparr>" and ?c = "[Wr (L_Client 1), Rd L_Pubsub, Send_All, Rel (L_Client 1)]"
  let ?s = "\<lambda>h ops subs d. \<lparr>ls_threads = [?z, \<lparr>lt_held = h, lt_todo = ops\<rparr>], ls_subs = subs, ls_dangling = d\<rparr>"
  let ?fin = "[Wr (L_Client 0), Rel (L_Client 0), Rel (L_Client 1)]" and ?h = "[(L_Client 1, True)]"
  note step = other_step [of pref _ _ _ "{0}" False]
  have "activity 1 False ?c" using activity.command [of "[publish_locks]" 1] call.intros(11) by (simp add: publish_locks_def)
  then have "lock_step pref 1 (?s [] [] {0} False) (?s [] ?c {0} False)"
    using lock_step.start [of 1 "?s [] [] {0} False" ?c pref] by simp
  from lock_reachable_step [OF one_subscribed this] have "lock_reachable pref 2 (?s [] ?c {0} False)" .
  from step [OF this] have "lock_reachable pref 2 (?s ?h [Rd L_Pubsub, Send_All, Rel (L_Client 1)] {0} False)" by simp
  from step [OF this] have "lock_reachable pref 2 (?s ((L_Pubsub, False) # ?h) [Send_All, Rel (L_Client 1)] {0} False)" by simp
  moreover have "lock_step pref 1 (?s ((L_Pubsub, False) # ?h) [Send_All, Rel (L_Client 1)] {0} False) (?s ?h ?fin {0} False)"
    using lock_step.send [of 1 "?s ((L_Pubsub, False) # ?h) [Send_All, Rel (L_Client 1)] {0} False" "[Rel (L_Client 1)]" "[0]" pref]
    by (simp add: targets_locks_def)
  ultimately have "lock_reachable pref 2 (?s ?h ?fin {0} False)" by (rule lock_reachable_step)
  moreover have "lock_step pref 0 (?s ?h ?fin {0} False) (?s ?h ?fin {} True)"
  proof -
    have "\<exists>j \<in> others (?s ?h ?fin {0} False) 0. 0 \<in> mentions (ls_threads (?s ?h ?fin {0} False) ! j)"
      by (rule bexI [of _ 1]) (simp_all add: others_def mentions_def clients_def)
    with lock_step.ended [of 0 "?s ?h ?fin {0} False" pref] show ?thesis by simp
  qed
  ultimately have "lock_reachable pref 2 (?s ?h ?fin {} True)" by (rule lock_reachable_step)
  then show ?thesis by (intro exI [of _ "?s ?h ?fin {} True"]) simp
qed

end
