(* ===== verification/List_Race.thy ===== *)
theory List_Race
  imports Linked_List Sections
begin

text \<open>
  The commands on lists, sets, hashes and sorted sets change the object after \<open>wr_obj\<close> has released the lock
  of the table (\<open>src/src/core/kvdb.c\<close>), so that two of them run at the same time on the same object. Here
  \<open>dlist_push_left\<close> is cut into the accesses of its statements: alone they are the operation; two
  of them can lose a value and leave a list whose length is wrong.
\<close>

type_synonym list_prog = "(dlist, unit) prog"

text \<open>\<open>++lst->len\<close> reads and writes.\<close>

definition push_count :: list_prog where
  "push_count = Sec (\<lambda>l. let k = dl_len l in Inr (Sec (\<lambda>l. Inr (Ret (), l\<lparr>dl_len := Suc k\<rparr>)), l))"

definition push_empty :: "addr \<Rightarrow> list_prog" where
  "push_empty n = Sec (\<lambda>l. Inr (Sec (\<lambda>l. Inr (push_count, l\<lparr>dl_head := Some n\<rparr>)), l\<lparr>dl_tail := Some n\<rparr>))"

text \<open>\<open>lst->head->prev = n; lst->head = n\<close>.\<close>

definition push_head :: "addr \<Rightarrow> list_prog" where
  "push_head n = Sec (\<lambda>l. case dl_head l of
       None \<Rightarrow> Inl NullDeref
     | Some hp \<Rightarrow> bindr (store (dl_heap l) hp (\<lambda>x. x\<lparr>ln_prev := Some n\<rparr>)) (\<lambda>h.
         Inr (Sec (\<lambda>l. Inr (push_count, l\<lparr>dl_head := Some n\<rparr>)), l\<lparr>dl_heap := h\<rparr>)))"

definition push_link :: "addr \<Rightarrow> list_prog" where
  "push_link n = Sec (\<lambda>l. bindr (store (dl_heap l) n (\<lambda>x. x\<lparr>ln_next := dl_head l\<rparr>)) (\<lambda>h. Inr (push_head n, l\<lparr>dl_heap := h\<rparr>)))"

definition push_left_prog :: "string \<Rightarrow> list_prog" where
  "push_left_prog val = Sec (\<lambda>l. let n = dl_brk l in
     Inr (Sec (\<lambda>l. Inr (if dl_head l = None then push_empty n else push_link n, l)),
          l\<lparr>dl_heap := (dl_heap l)(n \<mapsto> \<lparr>ln_value = val, ln_prev = None, ln_next = None\<rparr>), dl_brk := Suc n\<rparr>))"

lemmas push_defs = push_left_prog_def push_link_def push_head_def push_empty_def push_count_def

lemma push_left_alone: "alone_run (push_left_prog v) l = bindr (dlist_push_left l v) (\<lambda>l. Inr ((), l))"
proof (cases "dl_head l")
  case None
  then show ?thesis by (simp add: push_defs alone_Sec dlist_push_left_def Let_def)
next
  case (Some hp)
  let ?h = "(dl_heap l)(dl_brk l \<mapsto> \<lparr>ln_value = v, ln_prev = None, ln_next = Some hp\<rparr>)"
  show ?thesis using Some by (cases "?h hp") (simp_all add: push_defs alone_Sec dlist_push_left_def Let_def store_def)
qed

text \<open>A chain does not change when only its backward pointers do.\<close>

lemma chain_cong:
  assumes "dseg h p as None" "\<forall>a \<in> set as. \<exists>x. h' a = Some x \<and> ln_next x = ln_next (the (h a))" "length as \<le> k"
  shows "dl_chain h' (first_or None as) k = as"
  using assms
proof (induction as arbitrary: p k)
  case Nil
  then show ?case by (cases k) simp_all
next
  case (Cons a as)
  then obtain j where "k = Suc j" by (cases k) auto
  with Cons.prems Cons.IH [of "Some a" j] show ?case by auto
qed

text \<open>
  The first thread stops when its node points to the head; the second pushes; the first goes on. It reads the head
  again for the backward pointer, but its forward pointer is the old one.
\<close>

definition race :: "nat list" where
  "race = replicate 3 0 @ replicate 7 1 @ replicate 4 0"

definition raced :: "dlist \<Rightarrow> string \<Rightarrow> string \<Rightarrow> addr \<Rightarrow> list_node \<Rightarrow> dlist" where
  "raced l x y hp nd = (let a = dl_brk l; b = Suc a in
     l\<lparr>dl_heap := (dl_heap l)(a \<mapsto> \<lparr>ln_value = x, ln_prev = None, ln_next = Some hp\<rparr>,
                     b \<mapsto> \<lparr>ln_value = y, ln_prev = Some a, ln_next = Some hp\<rparr>, hp \<mapsto> nd\<lparr>ln_prev := Some b\<rparr>),
        dl_brk := Suc b, dl_head := Some a, dl_len := Suc (Suc (dl_len l))\<rparr>)"

lemma race_run:
  assumes "dl_head l = Some hp" "dl_heap l hp = Some nd" "hp < dl_brk l"
  shows "run_sched race [push_left_prog x, push_left_prog y] l = Inr ([Ret (), Ret ()], raced l x y hp nd)"
  using assms by (simp add: race_def raced_def push_defs numeral_eq_Suc Let_def store_def fun_upd_twist)

lemma dlist_len: "dlist_inv l \<Longrightarrow> length (dlist_list l) = dl_len l"
  using dlist_repD(2) by (fastforce simp: dlist_inv_def dlist_rep_def)

lemma race_chain:
  assumes rep: "dlist_rep l (hp # as)" and nd: "dl_heap l hp = Some nd"
  shows "dlist_list (raced l x y hp nd) = x # dlist_list l"
proof -
  let ?r = "raced l x y hp nd"
  have new: "dl_brk l \<notin> set (hp # as)" "Suc (dl_brk l) \<notin> set (hp # as)"
    using rep by (auto simp: dlist_rep_def)
  then have "dl_chain (dl_heap ?r) (first_or None (hp # as)) (Suc (length (hp # as))) = hp # as"
    by (intro chain_cong [of "dl_heap l" None]) (use rep nd in \<open>auto simp: dlist_rep_def raced_def Let_def\<close>)
  then have "dlist_list ?r = x # dl_vals (dl_heap ?r) (hp # as)"
    using rep new by (simp add: dlist_list_def dlist_rep_def raced_def Let_def)
  also have "dl_vals (dl_heap ?r) (hp # as) = dl_vals (dl_heap l) (hp # as)"
    using rep nd new by (simp add: raced_def Let_def dlist_rep_def)
  finally show ?thesis by (simp only: dlist_repD(2) [OF rep])
qed

text \<open>C29. Two clients push to the left of the same list at the same time. There is an order of their accesses
  to the memory in which both commands end normally and the counter of the list grows by two, but
  the list that its forward pointers hold has only one new value: the other value is lost, and the list is no longer
  well formed.\<close>

theorem racing_pushes:
  assumes inv: "dlist_inv l" and ne: "dlist_list l \<noteq> []"
  shows "\<exists>l'. run_sched race [push_left_prog x, push_left_prog y] l = Inr ([Ret (), Ret ()], l') \<and>
           dl_len l' = dl_len l + 2 \<and> dlist_list l' = x # dlist_list l \<and> \<not> dlist_inv l'"
proof -
  obtain as' where "dlist_rep l as'" using inv by (auto simp: dlist_inv_def)
  with ne obtain hp as where rep: "dlist_rep l (hp # as)" by (cases as') (auto simp: dlist_repD(2))
  then obtain nd where nd: "dl_heap l hp = Some nd" by (auto simp: dlist_rep_def)
  let ?r = "raced l x y hp nd"
  have chain: "dlist_list ?r = x # dlist_list l" by (rule race_chain [OF rep nd])
  moreover have len: "dl_len ?r = dl_len l + 2" by (simp add: raced_def Let_def)
  moreover have "\<not> dlist_inv ?r"
  proof
    assume "dlist_inv ?r"
    then have "length (dlist_list ?r) = dl_len ?r" by (rule dlist_len)
    with chain len dlist_len [OF inv] show False by simp
  qed
  moreover have "run_sched race [push_left_prog x, push_left_prog y] l = Inr ([Ret (), Ret ()], ?r)"
    using rep nd by (intro race_run) (auto simp: dlist_rep_def)
  ultimately show ?thesis by blast
qed

theorem racing_pushes_witness:
  "\<exists>l l'. dlist_push_left dlist_new ''a'' = Inr l \<and>
     run_sched race [push_left_prog ''b'', push_left_prog ''c''] l = Inr ([Ret (), Ret ()], l') \<and>
     dl_len l' = 3 \<and> dlist_list l' = [''b'', ''a''] \<and> \<not> dlist_inv l'"
proof -
  obtain l where l: "dlist_push_left dlist_new ''a'' = Inr l" "dlist_rep l [0]" "dlist_list l = [''a'']" "dl_len l = 1"
    by (auto simp: dlist_push_left_def dlist_new_def Let_def dlist_rep_def dlist_list_def)
  then have "dlist_inv l" by (auto dest: dlist_repD)
  with racing_pushes [of l "''b''" "''c''"] l show ?thesis by (simp add: numeral_3_eq_3)
qed

end
