(* ===== verification/Spec2Isabelle.thy ===== *)
theory Spec2Isabelle
  imports Client_Properties Lock_Sections Pool_Threads Daemon_Threads Lock_Order List_Race
begin

text \<open>
  A verification development of antzkv, a key-value server in C with strings, lists, sets, hashes
  and sorted sets, publish/subscribe, a snapshot file, asynchronous replication between nodes and a
  command line client. Names of definitions are those of the C functions where possible.

  \<^bold>\<open>Parts and how they interact.\<close> Clients connect to \<open>server.c\<close>. Accepted connections go through a
  thread pool to \<open>handle_client_unlocked\<close>, which cuts the bytes into lines and gives each line to
  \<open>process_command\<close>. The commands call the store in \<open>kvdb.c\<close>, an open-addressing hash table whose
  objects are strings, linked lists, chained hash tables and skip lists, and the publish/subscribe
  manager of the same file. Replies go out in RESP. With a cluster configured (\<open>conf.c\<close>), a \<open>SET\<close> is
  also queued for the replication daemon of \<open>cluster.c\<close>, which sends it to every live peer; a peer's
  bus handler applies it to its own store. A heartbeat daemon watches the peers and an expiry thread
  removes keys whose time has come. \<open>cli.c\<close> is the client.

  \<^bold>\<open>How C is modelled.\<close> A function that can go wrong returns \<open>fault + value\<close> (\<open>Prelude\<close>): a null or
  dangling pointer, reading or writing past a buffer, a signed overflow, an unset variable and a
  recursion that does not return are values of \<open>fault\<close>. Output parameters are part of the result.
  Structures that the code links by pointers and whose links matter (linked list, skip list, job
  queue) live in an explicit heap (\<open>Heap_Cells\<close>); chains that are owned by one table are lists.
  \<open>uint64_t\<close> is \<open>64 word\<close>; \<open>int64_t\<close> is \<open>int\<close> with overflow as a fault; \<open>double\<close> is its 64 bits
  with the IEEE order (\<open>Doubles\<close>). C strings are byte lists. Clocks, random numbers, memory
  (\<open>mem n\<close> says whether \<open>n\<close> table slots can be allocated), sockets, the results of system calls and
  files are parameters or part of the state. Operations are atomic steps, except in \<open>Lock_Sections\<close> and
  \<open>List_Race\<close>. Every other allocation succeeds: of nodes and strings, of the buckets of a chained table
  (\<open>ht_resize\<close> does not check it) and of the listing of \<open>KEYS\<close> (where a failure gives -1). The \<open>int\<close> counters of
  \<open>dlist_rem\<close>, \<open>zsl_rank\<close> and \<open>zsl_revrank\<close> are unbounded, which is exact for fewer than \<open>2 ^ 31\<close> elements.

  \<^bold>\<open>Theories.\<close>
  \<^item> \<open>Prelude\<close>, \<open>Heap_Cells\<close>, \<open>Doubles\<close>, \<open>Decimal\<close>, \<open>C_Text\<close>: results, heaps, doubles, and what is used of the C
    library (\<open>strcmp\<close>, \<open>printf\<close> and \<open>scanf\<close> of numbers, \<open>strtok_r\<close>, \<open>strtoll\<close>, \<open>strncat\<close>).
  \<^item> \<open>Linked_List\<close>, \<open>Hashing\<close>, \<open>Chained_Table\<close>, \<open>Skip_List\<close>, \<open>Skip_List_Ops\<close>: the \<open>dlist_\<close>, \<open>ht_\<close> and \<open>zsl_\<close>
    functions of \<open>kvdb.c\<close>. Each has a representation predicate, an abstract content, and one lemma
    per operation; the locales of a double-ended queue, a map and an ordered collection are
    interpreted on them.
  \<^item> \<open>Probe_Table\<close>, \<open>Key_Space\<close>: \<open>probe\<close>, \<open>resize\<close> and the \<open>kv_\<close> functions on keys, with versions, expiry and
    deletion. The invariant \<open>kv_inv\<close> bounds the load and says that every key is found where probing
    looks for it; \<open>kv_map\<close> is the map the table stands for. \<open>victims\<close> are the keys a store evicts,
    at most one, none while half of the slots are free.
  \<^item> \<open>Abstract_View\<close>, \<open>Typed_Access\<close>, \<open>String_Commands\<close>, \<open>List_Commands\<close>, \<open>Table_Commands\<close>, \<open>Zset_Commands\<close>:
    the typed commands of \<open>kvdb.c\<close> and their effect on the abstract database \<open>kv_abs\<close>.
  \<^item> \<open>Pub_Sub\<close>: the \<open>pubsub_\<close> functions.
  \<^item> \<open>Persistence\<close>: \<open>kv_save\<close>, \<open>kv_open\<close>, \<open>kv_close\<close> and the file format.
  \<^item> \<open>Work_Queues\<close>: the job list of the thread pool and the replication ring, both interpretations of
    the locale \<open>fifo\<close>; the ring satisfies it until its write index wraps.
  \<^item> \<open>Cluster_Message\<close>, \<open>Cluster_Conf\<close>, \<open>Cluster_Node\<close>: the bus protocol, the configuration file, peers, daemons
    and the bus handler.
  \<^item> \<open>Line_Buffer\<close>: the receive loop that server and bus share. \<open>Resp_Protocol\<close>: replies and arguments.
    \<open>Server_Commands\<close>: one definition per command and the routing. \<open>Server_Loop\<close>: a connection and
    the expiry thread. \<open>Server_Start\<close>: clocks, options, node identity, start and stop. \<open>Listener\<close>: binding,
    the accept loops of the server and of the bus, and the signal.
  \<^item> \<open>Server_Safety\<close>: every command keeps the invariants (rules for \<open>safe\<close>, one lemma per group of
    commands). \<open>System_Steps\<close>: the serial runs of the server, one whole line, turn or message after the
    other, as the step relation \<open>serial_step\<close>. What overlapping operations can do to the store is the
    subject of \<open>Lock_Sections\<close> and \<open>List_Race\<close>, which prove that some do break it.
  \<^item> \<open>Command_Spec\<close>: what each data command promises, as a function of its arguments and the abstract
    database alone: the new database and the reply of the command reference in \<open>src/README.md\<close>. It knows
    nothing of slots, heaps or buffers, and is \<open>None\<close> where the server does not do what is documented.
    \<open>Server_Refinement\<close>: when the definitions of the server implement such a specification, and rules
    for it; \<open>room\<close> bounds the table so that nothing is evicted, \<open>live_abs\<close> is the database without the keys
    past their time, and \<open>timely\<close> says that there are none (reads do not look at the expiry time). \<open>Command_Refinement\<close>: one lemma per
    command, and the routing. \<open>Sessions\<close>: the bytes of a whole connection.
  \<^item> \<open>Runs\<close>: the locales of a step relation with an invariant, and of one with a decreasing bound.
    \<open>Pool_Threads\<close>: the eight workers and the main thread with the mutex and the condition variable of the
    pool, as the step relation \<open>pool_step\<close>. \<open>Daemon_Threads\<close>: the replication daemon, \<open>repl_enqueue\<close> and
    \<open>cluster_shutdown\<close> with theirs, as \<open>daemon_step\<close>. \<open>Lock_Order\<close>: for each function that locks, the sequence
    of its lock operations; any number of threads run them by \<open>lock_step\<close>. The mutex of a subscriber lies on the
    stack of its handler; \<open>ls_dangling\<close> records that one has gone while a publisher was about to lock it, and
    \<open>mutex_dangles\<close> proves that this happens.
  \<^item> \<open>Sections\<close>: programs of atomic sections and schedules. \<open>List_Race\<close>: \<open>dlist_push_left\<close> cut into its accesses to
    the memory. \<open>Lock_Sections\<close>: \<open>INCRBY\<close>, \<open>APPEND\<close>, \<open>SETNX\<close>, \<open>SET\<close> and \<open>DEL\<close> cut where the code releases
    the lock of the table,
    and threads that run these sections in the order of a schedule.
  \<^item> \<open>Cli\<close>: sending, decoding, a round of the interactive loop and the line editor of the client.
    \<open>Cli_Loop\<close>: the terminal settings and what exits and signals do to them, the select loop of the
    subscribed mode, the interactive loop, the options and \<open>main\<close>.
  \<^item> \<open>Store_Properties\<close>, \<open>Command_Properties\<close>, \<open>Server_Properties\<close>, \<open>System_Properties\<close>, \<open>Client_Properties\<close> and the
    ends of the theories on threads: the properties, each with an instance where it has hypotheses.

  \<^bold>\<open>What the properties show.\<close> The data structures refine maps, queues and ordered lists and never
  misuse a pointer. A store binds its key and loses at most one other. On a store that can grow, no command line
  breaks the invariants, follows a null pointer, reads an unset variable or hangs; the faults that remain are signed overflows,
  replies that are longer than their buffer and, when the full replication queue holds a freed message, its second
  free. In serial runs the invariants hold throughout and subscribers are open connections. Without a
  cluster, and where no key is past its time, every data command and every session of data commands
  gives the reply and the database the command reference promises (a session needs room for its keys), and
  a command given to the client makes the round trip from its words to the printed text. Accepted clients are served
  once and in order, and the way bytes are cut into reads does not matter. A snapshot of at most sixteen strings is
  restored but for the expiry times, and a truncated one safely. Replicated writes arrive in order at a live peer as long as
  fewer than 1024 are queued. Threads in the middle of string commands keep the store well-formed in every
  order of their critical sections, and concurrent increments of a counter that is there lose
  nothing. Waiting for locks does not deadlock, since they are taken in an order, as long as no mutex
  dangles; the pool loses no wake-up, and its shutdown ends. The client restores the terminal when it exits, and
  leaves it raw when a signal kills it in the subscribed mode. Other properties prove defects: a \<open>SET\<close> that loses a
  key, a \<open>ZREM\<close> that misses its member, an increment of a missing counter that is lost or reads
  through a null pointer, two pushes to a list that lose a value, a broadcast that the replication daemon misses so
  that the shutdown hangs, the replication ring after 1024 messages, replicas that diverge, and the
  last retry of \<open>bind\<close>. Further theorems beside them prove that \<open>SETNX\<close> always replies 1 and can
  overwrite, that a subscribed connection ignores all commands, that the client waits for one
  acknowledgement too many after \<open>SUBSCRIBE\<close>, that \<open>QUIT\<close> in the
  subscribed mode leaves a dead connection, and how the descriptor of the bus is closed wrongly.

  \<^bold>\<open>Bounds and fuel.\<close> Walks through a heap have the number of nodes ever allocated as fuel; on a
  well-formed structure it suffices, which the lemmas show by a result that is not \<open>Diverges\<close>.
  \<open>recv_resp_raw\<close> counts the stack frames of its recursion; one is enough for a reply and two for a
  flat array, which is all the server sends. Every other loop terminates by its measure.

  \<^bold>\<open>Not modelled.\<close> The interleaving inside an operation other than those of \<open>Lock_Sections\<close> and \<open>List_Race\<close>: the
  other commands on lists, sets, hashes and sorted sets also change their object without a lock, and C gives such
  races no meaning. \<open>Lock_Order\<close> leaves out waiting at condition variables and joining, which \<open>Pool_Threads\<close> and
  \<open>Daemon_Threads\<close> model for the pool and the replication daemon, and takes calls of the network to return. Pointers to objects that are used after the lock was released
  (\<open>kv_get\<close>, \<open>kv_getrange\<close>), since an object is a value of its slot; socket options and \<open>set_nonblock\<close>;
  \<open>readline\<close>; freeing at exit other than of objects, jobs and messages (\<open>pubsub_destroy\<close>, \<open>ht_free\<close>,
  \<open>kv_keys_free\<close>), as these chains are lists. \<open>rank_buf\<close> of \<open>zsl_insert\<close> is left out, as its values reach no
  result. The conversion of scores to and from text is a parameter. \<open>Command_Spec\<close> says nothing of
  commands whose result is not a function of the abstract database: \<open>ZREM\<close> depends on the heights of
  the skip list, \<open>TTL\<close> and \<open>PTTL\<close> on the expiry times, \<open>SAVE\<close> writes the file and \<open>PUBLISH\<close> reaches other
  connections; these have their own properties.
\<close>

end
